(* ===== verification/KPrelude.thy ===== *)
theory KPrelude
  imports Main "HOL-Library.Word" "HOL-Library.Sublist"
begin

text \<open>
  Shared vocabulary of the development.

  \<^item> The C integer types of the 32-bit ARM build (\<open>omap3621_evt1a_defconfig\<close>): fixed-width
    words, with \<open>size_t\<close> and \<open>unsigned long\<close> both 32 bits wide.
  \<^item> The kernel's error numbers as a datatype; a fallible operation returns \<open>errno + 'a\<close>.
  \<^item> Byte buffers as lists of bytes, with \<open>memcpy_at\<close> for a copy to an offset and the view of a
    ring buffer from an offset (\<open>rotate\<close>).
  \<^item> User memory and the two copy routines of \<open>arch/arm/include/asm/uaccess.h\<close>.
  \<^item> Page sizes and the alignment macros.
  \<^item> Little-endian encodings of 16 and 32 bit fields.
\<close>

unbundle bit_operations_syntax

section \<open>Types\<close>

type_synonym u8 = "8 word"
type_synonym u16 = "16 word"
type_synonym u32 = "32 word"
type_synonym u64 = "64 word"

datatype errno =
    EPERM | ESRCH | EINTR | EAGAIN | ENOMEM | EFAULT | EBUSY | ENODEV | EINVAL
  | ENOTTY | EBADF | ENOSPC | EMFILE

fun errno_code :: "errno \<Rightarrow> nat" where
  "errno_code EPERM = 1"
| "errno_code ESRCH = 3"
| "errno_code EINTR = 4"
| "errno_code EBADF = 9"
| "errno_code EAGAIN = 11"
| "errno_code ENOMEM = 12"
| "errno_code EFAULT = 14"
| "errno_code EBUSY = 16"
| "errno_code ENODEV = 19"
| "errno_code EINVAL = 22"
| "errno_code EMFILE = 24"
| "errno_code ENOTTY = 25"
| "errno_code ENOSPC = 28"

text \<open>A negative error number as the machine word a C function returns.\<close>

definition neg_errno :: "errno \<Rightarrow> 'a::len word" where
  "neg_errno e = - of_nat (errno_code e)"

named_theorems klist_simps \<open>kernel lists as HOL lists\<close>

named_theorems ring_simps \<open>ring buffers and their views\<close>

section \<open>Byte buffers\<close>

definition memcpy_at :: "'a list \<Rightarrow> nat \<Rightarrow> 'a list \<Rightarrow> 'a list" where
  "memcpy_at buf off bs = take off buf @ bs @ drop (off + length bs) buf"

lemma length_memcpy_at [simp]:
  "off + length bs \<le> length buf \<Longrightarrow> length (memcpy_at buf off bs) = length buf"
  by (simp add: memcpy_at_def)

lemma nth_memcpy_at:
  assumes "off + length bs \<le> length buf" and "i < length buf"
  shows "memcpy_at buf off bs ! i =
    (if off \<le> i \<and> i < off + length bs then bs ! (i - off) else buf ! i)"
  using assms by (auto simp: memcpy_at_def nth_append)

lemma memcpy_at_Nil [simp]: "memcpy_at buf off [] = buf"
  by (simp add: memcpy_at_def)

section \<open>Ring buffers\<close>

text \<open>
  A ring buffer of \<open>n\<close> bytes, seen from offset \<open>x\<close>, is \<^term>\<open>rotate x buf\<close>: its byte
  \<open>p\<close> is the byte of the buffer at \<open>(x + p) mod n\<close>. The two-part copy of the drivers (up to
  the end of the buffer, then from its start) is one contiguous copy in every view.
\<close>

definition ring_put :: "'a list \<Rightarrow> nat \<Rightarrow> 'a list \<Rightarrow> 'a list" where
  "ring_put buf w bs =
     (let len = min (length bs) (length buf - w);
          b1 = memcpy_at buf w (take len bs)
      in if length bs \<noteq> len then memcpy_at b1 0 (drop len bs) else b1)"

definition ring_get :: "'a list \<Rightarrow> nat \<Rightarrow> nat \<Rightarrow> 'a list" where
  "ring_get buf x n = take n (rotate x buf)"

lemma ring_index_inj_le:
  assumes "(x + p) mod n = (x + q) mod n" and "q < n" and "p \<le> (q::nat)"
  shows "p = q"
proof -
  have "n dvd (x + q) - (x + p)"
    using assms(1,3) by (intro mod_eq_dvd_iff_nat [THEN iffD1]) auto
  then have "n dvd q - p" by simp
  then show ?thesis
    using assms(2,3) by (auto dest: dvd_imp_le)
qed

lemma ring_index_inj:
  assumes "(x + p) mod n = (x + q) mod n" and "p < n" and "q < (n::nat)"
  shows "p = q"
  using assms ring_index_inj_le [of x p n q] ring_index_inj_le [of x q n p]
  by (cases "p \<le> q") auto

lemma length_ring_put [simp]:
  assumes "w \<le> length buf" and "length bs \<le> length buf"
  shows "length (ring_put buf w bs) = length buf"
  using assms by (auto simp: ring_put_def Let_def)

lemma nth_ring_put:
  assumes "w < length buf" and "length bs \<le> length buf" and "i < length buf"
  shows "ring_put buf w bs ! i =
    (let d = (i + length buf - w) mod length buf
     in if d < length bs then bs ! d else buf ! i)"
proof -
  have d: "(i + length buf - w) mod length buf = (if w \<le> i then i - w else i + length buf - w)"
  proof (cases "w \<le> i")
    case True
    then have "i + length buf - w = (i - w) + length buf" by simp
    with True assms(3) show ?thesis
      by (metis less_imp_diff_less mod_add_self2 mod_less)
  next
    case False
    then show ?thesis using assms(1) by simp
  qed
  show ?thesis
    using assms unfolding d
    by (auto simp: ring_put_def Let_def nth_memcpy_at min_def add.commute)
qed

text \<open>
  The key fact on ring buffers: seen from \<open>x\<close>, a put at \<open>(x + L) mod n\<close> replaces the
  bytes from \<open>L\<close> on and nothing else, as long as it does not run past the view.
\<close>

lemma rotate_ring_put:
  assumes "length buf = n" and "0 < n" and "L + length bs \<le> n" and "w = (x + L) mod n"
  shows "rotate x (ring_put buf w bs) = memcpy_at (rotate x buf) L bs"
proof (rule nth_equalityI)
  have w: "w < n" and bs: "length bs \<le> n"
    using assms by auto
  then show "length (rotate x (ring_put buf w bs)) = length (memcpy_at (rotate x buf) L bs)"
    using assms by simp
  fix p
  assume "p < length (rotate x (ring_put buf w bs))"
  then have p: "p < n"
    using w bs assms(1) by simp
  define i where "i = (x + p) mod n"
  define d where "d = (i + n - w) mod n"
  have d: "d < n" using assms(2) by (simp add: d_def)
  have "(w + d) mod n = (w + (i + n - w)) mod n"
    by (simp add: d_def mod_add_right_eq)
  also have "w + (i + n - w) = i + n"
    using w by simp
  finally have "(w + d) mod n = i"
    using assms(2) by (simp add: i_def)
  then have xLd: "(x + (L + d)) mod n = (x + p) mod n"
    using assms(4) by (simp add: i_def mod_add_left_eq add.assoc [symmetric])
  have "rotate x (ring_put buf w bs) ! p = (if d < length bs then bs ! d else buf ! i)"
    using p w bs assms(1,2) by (simp add: nth_rotate nth_ring_put Let_def i_def d_def)
  also have "\<dots> = memcpy_at (rotate x buf) L bs ! p"
  proof (cases "d < length bs")
    case True
    then have "L + d = p"
      using ring_index_inj [OF xLd] p assms(3) by simp
    with True p assms show ?thesis by (auto simp: nth_memcpy_at)
  next
    case False
    have "\<not> (L \<le> p \<and> p < L + length bs)"
    proof
      assume a: "L \<le> p \<and> p < L + length bs"
      then have "(x + L + (p - L)) mod n = (x + L + d) mod n"
        using xLd by (simp add: add.assoc)
      then have "p - L = d"
        by (rule ring_index_inj) (use p d in auto)
      then show False using a False by linarith
    qed
    with False p assms show ?thesis by (auto simp: nth_memcpy_at nth_rotate i_def)
  qed
  finally show "rotate x (ring_put buf w bs) ! p = memcpy_at (rotate x buf) L bs ! p" .
qed

lemma rotate_mod_eq:
  "length buf = n \<Longrightarrow> rotate ((x + p) mod n) buf = rotate p (rotate x buf)"
  by (metis rotate_conv_mod rotate_rotate add.commute)

lemma take_rotate_shift:
  assumes "length buf = n" and "p + k \<le> n"
  shows "take k (rotate ((x + p) mod n) buf) = take k (drop p (rotate x buf))"
proof -
  have "rotate ((x + p) mod n) buf = rotate p (rotate x buf)"
    using assms(1) by (rule rotate_mod_eq)
  moreover have "take k (rotate p (rotate x buf)) = take k (drop p (rotate x buf))"
  proof (cases "p < n")
    case True
    then show ?thesis using assms by (simp add: rotate_drop_take)
  next
    case False
    then have "k = 0" using assms(2) by simp
    then show ?thesis by simp
  qed
  ultimately show ?thesis by simp
qed

text \<open>The two reads of \<open>do_read_log_to_user\<close>: to the end of the buffer, then from its start.\<close>

lemma ring_get_two_parts:
  assumes "x < length buf" and "k \<le> length buf"
  shows "ring_get buf x k =
    take (min k (length buf - x)) (drop x buf) @ take (k - min k (length buf - x)) buf"
  using assms by (auto simp: ring_get_def rotate_drop_take min_def)

lemma length_ring_get [simp]: "k \<le> length buf \<Longrightarrow> length (ring_get buf x k) = k"
  by (simp add: ring_get_def)

section \<open>Lists\<close>

lemma sorted_wrt_remove1: "sorted_wrt P xs \<Longrightarrow> sorted_wrt P (remove1 x xs)"
  by (induction xs) (auto dest: notin_set_remove1 set_remove1_subset [THEN subsetD])

lemma sum_list_remove1:
  fixes f :: "'a \<Rightarrow> 'b::ab_group_add"
  shows "x \<in> set xs \<Longrightarrow> sum_list (map f (remove1 x xs)) = sum_list (map f xs) - f x"
  by (induction xs) (auto simp: algebra_simps)

lemma sum_list_upd:
  fixes f g :: "'a \<Rightarrow> 'b::ab_group_add"
  assumes "x \<in> set xs" and "distinct xs" and "\<And>y. y \<in> set xs \<Longrightarrow> y \<noteq> x \<Longrightarrow> g y = f y"
  shows "sum_list (map g xs) = sum_list (map f xs) - f x + g x"
  using assms
proof (induction xs)
  case (Cons y ys)
  show ?case
  proof (cases "y = x")
    case True
    then have "map g ys = map f ys" using Cons.prems by (auto intro!: map_cong)
    then have "sum_list (map g ys) = sum_list (map f ys)" by (rule arg_cong)
    then show ?thesis using True by (simp add: algebra_simps)
  qed (use Cons in \<open>simp add: algebra_simps\<close>)
qed simp

lemma sorted_wrt_cong_on:
  "sorted_wrt P xs \<Longrightarrow> (\<And>x y. x \<in> set xs \<Longrightarrow> y \<in> set xs \<Longrightarrow> P x y \<Longrightarrow> Q x y) \<Longrightarrow> sorted_wrt Q xs"
  by (induction xs) auto

lemma remove1_not_Nil: "remove1 x xs \<noteq> [] \<Longrightarrow> xs \<noteq> []"
  by auto

section \<open>Machine words\<close>

text \<open>Intervals of machine words.\<close>

lemma unat_inc: "x < y \<Longrightarrow> unat (x + 1) = unat x + 1" for x y :: "'a::len word"
proof -
  assume "x < y"
  then have "x \<noteq> - 1" using word_n1_ge [of y] by (metis leD)
  then have "1 + x \<noteq> 0" by (simp add: add_eq_0_iff)
  then show ?thesis using unatSuc [of x] by (simp add: add.commute)
qed

lemma unat_dec: "x < y \<Longrightarrow> unat (y - 1) = unat y - 1" for x y :: "'a::len word"
  by (metis unat_minus_one word_not_simps(1))

lemma word_Suc_le: "x < y \<Longrightarrow> x + 1 \<le> z \<longleftrightarrow> x < z" for x y z :: "'a::len word"
  by (simp add: word_le_nat_alt word_less_nat_alt unat_inc Suc_le_eq)

lemma word_le_pred: "x < y \<Longrightarrow> z \<le> y - 1 \<longleftrightarrow> z < y" for x y z :: "'a::len word"
  unfolding word_le_nat_alt word_less_nat_alt using unat_dec [of x y]
  by (auto simp: word_less_nat_alt)


lemma word_less_Suc: "x < y \<Longrightarrow> x < x + 1" for x y :: "'a::len word"
  using word_Suc_le [of x y "x + 1"] by simp

lemma word_pred_less: "x < y \<Longrightarrow> y - 1 < y" for x y :: "'a::len word"
  using word_le_pred [of x y "y - 1"] by simp

lemma word_interval_inc: "e < b \<Longrightarrow> {e + 1 .. b} = {e <.. b}" for e b :: "'a::len word"
  by (auto simp: word_Suc_le)

lemma word_interval_dec: "a < s \<Longrightarrow> {a .. s - 1} = {a ..< s}" for a s :: "'a::len word"
  by (auto simp: word_le_pred)

lemma no_wrap: "len \<le> - 1 - off \<longleftrightarrow> unat off + unat len < 2 ^ 32" for len off :: u32
proof -
  have "unat (- 1 - off) = unat (- 1 :: u32) - unat off"
    by (rule unat_sub) simp
  then have "unat (- 1 - off) = 2 ^ 32 - 1 - unat off"
    by (simp add: unsigned_minus_1_eq_mask mask_eq_exp_minus_1)
  moreover have "unat off < 2 ^ 32" using unsigned_less [of off, where ?'a = nat] by simp
  ultimately show ?thesis by (auto simp: word_le_nat_alt)
qed

text \<open>Setting, clearing and testing flag bits.\<close>

lemma and_or_disj: "m AND k = 0 \<Longrightarrow> (x OR m) AND k = x AND k" for x m k :: "'a::len word"
  by (simp add: bit.conj_disj_distrib2)

lemma and_not_disj: "m AND k = 0 \<Longrightarrow> (x AND NOT m) AND k = x AND k" for x m k :: "'a::len word"
proof -
  assume "m AND k = 0"
  then have "\<not> (bit m n \<and> bit k n)" for n by (metis bit_and_iff bit_0_eq bot_apply bot_bool_def)
  then show ?thesis by (intro bit_eqI) (auto simp: bit_simps)
qed

lemma and_not_sub: "m AND k = k \<Longrightarrow> (x AND NOT m) AND k = 0" for x m k :: "'a::len word"
proof -
  assume "m AND k = k"
  then have "bit k n \<Longrightarrow> bit m n" for n by (metis bit_and_iff)
  then show ?thesis by (intro bit_eqI) (auto simp: bit_simps)
qed

lemma and_or_sub: "m AND k = k \<Longrightarrow> (x OR m) AND k = k" for x m k :: "'a::len word"
proof -
  assume "m AND k = k"
  then have "bit k n \<Longrightarrow> bit m n" for n by (metis bit_and_iff)
  then show ?thesis by (intro bit_eqI) (auto simp: bit_simps)
qed

text \<open>Timer ticks per second, \<open>CONFIG_HZ\<close>.\<close>

definition HZ :: u32 where
  "HZ = 128"

section \<open>Pages and alignment\<close>

definition PAGE_SIZE :: u32 where
  "PAGE_SIZE = 4096"

definition PAGE_MASK :: u32 where
  "PAGE_MASK = NOT (PAGE_SIZE - 1)"

definition PAGE_ALIGN :: "u32 \<Rightarrow> u32" where
  "PAGE_ALIGN x = (x + (PAGE_SIZE - 1)) AND PAGE_MASK"

definition ALIGN :: "u32 \<Rightarrow> u32 \<Rightarrow> u32" where
  "ALIGN x a = (x + (a - 1)) AND NOT (a - 1)"

lemma unat_clear_low:
  fixes x :: u32
  shows "unat (x AND NOT (mask n)) = unat x div 2 ^ n * 2 ^ n"
proof -
  have e: "x AND NOT (mask n) = push_bit n (drop_bit n x)"
    by (rule bit_eqI) (auto simp: bit_and_iff bit_not_iff bit_mask_iff bit_push_bit_iff bit_drop_bit_eq dest: bit_imp_le_length)
  have d: "unat (drop_bit n x) = unat x div 2 ^ n" 
    unfolding unat_drop_bit_eq by (rule drop_bit_eq_div)
  have "unat x div 2 ^ n * 2 ^ n \<le> unat x" by simp
  moreover have "unat x < 2 ^ 32" using unsigned_less [of x, where 'a = nat] by simp
  ultimately have l: "unat x div 2 ^ n * 2 ^ n < 2 ^ 32" by (rule le_less_trans)
  have "unat (push_bit n (drop_bit n x)) = take_bit 32 (push_bit n (unat (drop_bit n x)))"
    using unsigned_push_bit_eq [of n "drop_bit n x"] by simp
  then show ?thesis
    unfolding e d using l by (simp add: push_bit_eq_mult take_bit_eq_mod)
qed

lemma unat_page_floor: "unat (x AND PAGE_MASK) = unat x div 4096 * 4096"
  using unat_clear_low [of x 12] by (simp add: PAGE_MASK_def PAGE_SIZE_def mask_eq_exp_minus_1)

lemma unat_page_align: "unat x + 4095 < 2 ^ 32 \<Longrightarrow> unat (PAGE_ALIGN x) = (unat x + 4095) div 4096 * 4096"
  unfolding PAGE_ALIGN_def unat_page_floor by (simp add: PAGE_SIZE_def unat_word_ariths)

lemma unat_align4: "unat x + 3 < 2 ^ 32 \<Longrightarrow> unat (ALIGN x 4) = (unat x + 3) div 4 * 4"
  using unat_clear_low [of "x + 3" 2] by (simp add: ALIGN_def mask_eq_exp_minus_1 unat_word_ariths)

text \<open>Flags of a memory mapping (\<open>vm_flags\<close>).\<close>

definition VM_READ :: u32 where "VM_READ = 1"
definition VM_WRITE :: u32 where "VM_WRITE = 2"
definition VM_EXEC :: u32 where "VM_EXEC = 4"
definition VM_SHARED :: u32 where "VM_SHARED = 8"
definition VM_MAYREAD :: u32 where "VM_MAYREAD = 0x10"
definition VM_MAYWRITE :: u32 where "VM_MAYWRITE = 0x20"
definition VM_MAYEXEC :: u32 where "VM_MAYEXEC = 0x40"
definition VM_DONTCOPY :: u32 where "VM_DONTCOPY = 0x00020000"
definition VM_CAN_NONLINEAR :: u32 where "VM_CAN_NONLINEAR = 0x08000000"

section \<open>Little-endian fields\<close>

definition le16 :: "u16 \<Rightarrow> u8 list" where
  "le16 v = [ucast v, ucast (drop_bit 8 v)]"

definition of_le16 :: "u8 \<Rightarrow> u8 \<Rightarrow> u16" where
  "of_le16 b0 b1 = ucast b0 OR push_bit 8 (ucast b1)"

definition le32 :: "u32 \<Rightarrow> u8 list" where
  "le32 v = [ucast v, ucast (drop_bit 8 v), ucast (drop_bit 16 v), ucast (drop_bit 24 v)]"

definition of_le32 :: "u8 list \<Rightarrow> u32" where
  "of_le32 bs = ucast (bs ! 0) OR push_bit 8 (ucast (bs ! 1)) OR push_bit 16 (ucast (bs ! 2))
     OR push_bit 24 (ucast (bs ! 3))"

lemma length_le16 [simp]: "length (le16 v) = 2"
  by (simp add: le16_def)

lemma length_le32 [simp]: "length (le32 v) = 4"
  by (simp add: le32_def)

lemma of_le16_le16 [simp]: "of_le16 (ucast v) (ucast (drop_bit 8 v)) = (v :: u16)"
  unfolding of_le16_def
  by (rule bit_word_eqI)
    (auto simp: bit_simps)

lemma of_le32_le32 [simp]: "of_le32 (le32 v) = v"
proof (rule bit_word_eqI)
  fix n :: nat assume "n < LENGTH(32)"
  then show "bit (of_le32 (le32 v)) n \<longleftrightarrow> bit v n"
    unfolding of_le32_def le32_def
    by (cases "n < 24"; cases "n < 16") (auto simp: bit_simps)
qed

section \<open>User memory\<close>

text \<open>
  User memory as the kernel sees it: a byte for every mapped address, the addresses that may
  be written, and the limit \<open>access_ok\<close> checks. A copy stops at the first address that
  faults; \<open>copy_from_user\<close> zeroes what it could not read (the abort handler of
  \<open>arch/arm/lib/copy_from_user.S\<close> and the \<open>else\<close> branch of the inline function). Both
  routines return the number of bytes \<^emph>\<open>not\<close> copied.
\<close>

record user_mem =
  ubyte :: "nat \<Rightarrow> u8 option"
  uwritable :: "nat \<Rightarrow> bool"
  addr_limit :: nat

definition access_ok :: "user_mem \<Rightarrow> nat \<Rightarrow> nat \<Rightarrow> bool" where
  "access_ok um a n \<longleftrightarrow> a + n \<le> addr_limit um"

fun fetch_bytes :: "(nat \<Rightarrow> u8 option) \<Rightarrow> nat \<Rightarrow> nat \<Rightarrow> u8 list \<times> nat" where
  "fetch_bytes m a 0 = ([], 0)"
| "fetch_bytes m a (Suc n) =
     (case m a of
        None \<Rightarrow> (replicate (Suc n) 0, Suc n)
      | Some b \<Rightarrow> (let (bs, r) = fetch_bytes m (Suc a) n in (b # bs, r)))"

definition copy_from_user :: "user_mem \<Rightarrow> nat \<Rightarrow> nat \<Rightarrow> u8 list \<times> nat" where
  "copy_from_user um a n =
     (if access_ok um a n then fetch_bytes (ubyte um) a n else (replicate n 0, n))"

definition copy_to_user :: "user_mem \<Rightarrow> nat \<Rightarrow> u8 list \<Rightarrow> user_mem \<times> nat" where
  "copy_to_user um a bs =
     (let k = (if access_ok um a (length bs)
               then length (takeWhile (uwritable um) [a ..< a + length bs]) else 0)
      in (um\<lparr>ubyte := (\<lambda>p. if a \<le> p \<and> p < a + k then Some (bs ! (p - a)) else ubyte um p)\<rparr>,
          length bs - k))"

lemma length_fetch_bytes [simp]: "length (fst (fetch_bytes m a n)) = n"
  by (induction m a n rule: fetch_bytes.induct) (auto split: option.splits prod.splits)

lemma length_copy_from_user [simp]: "length (fst (copy_from_user um a n)) = n"
  by (simp add: copy_from_user_def)

lemma copy_from_user_0 [simp]: "copy_from_user um a 0 = ([], 0)"
  by (simp add: copy_from_user_def)

text \<open>A complete copy delivers exactly the user's bytes.\<close>

lemma fetch_bytes_complete:
  "fetch_bytes m a n = (bs, 0) \<longleftrightarrow> map m [a ..< a + n] = map Some bs"
proof (induction n arbitrary: a bs)
  case 0
  then show ?case by auto
next
  case (Suc n)
  have upt: "[a ..< Suc (a + n)] = a # [Suc a ..< Suc (a + n)]"
    by (simp add: upt_conv_Cons)
  show ?case
  proof (cases "m a")
    case None
    then show ?thesis by (auto simp: upt simp del: upt_Suc)
  next
    case (Some b)
    show ?thesis
      using Suc.IH [of "Suc a" "tl bs"]
      by (cases bs) (auto simp: upt Some simp del: upt_Suc split: prod.splits)
  qed
qed

lemma copy_from_user_complete:
  "copy_from_user um a n = (bs, 0) \<Longrightarrow> map (ubyte um) [a ..< a + n] = map Some bs"
  by (auto simp: copy_from_user_def fetch_bytes_complete split: if_splits)

lemma copy_to_user_Nil [simp]: "copy_to_user um a [] = (um, 0)"
proof -
  have "(\<lambda>p. if a \<le> p \<and> p < a then Some ([] ! (p - a)) else ubyte um p) = ubyte um"
    by (rule ext) auto
  then show ?thesis by (simp add: copy_to_user_def Let_def)
qed

text \<open>\<open>writable um a n\<close>: a copy of \<open>n\<close> bytes to \<open>a\<close> completes.\<close>

definition writable :: "user_mem \<Rightarrow> nat \<Rightarrow> nat \<Rightarrow> bool" where
  "writable um a n \<longleftrightarrow> access_ok um a n \<and> (\<forall>p \<in> {a ..< a + n}. uwritable um p)"

lemma copy_to_user_complete_iff:
  "snd (copy_to_user um a bs) = 0 \<longleftrightarrow> bs = [] \<or> writable um a (length bs)"
proof -
  have "length (takeWhile (uwritable um) [a..<a + length bs]) = length bs \<longleftrightarrow>
      (\<forall>p \<in> {a ..< a + length bs}. uwritable um p)"
    using takeWhile_eq_all_conv [of "uwritable um" "[a..<a + length bs]"]
    by (metis atLeastLessThan_upt diff_add_inverse length_upt takeWhile_eq_take take_all_iff
        le_refl)
  moreover have "length (takeWhile (uwritable um) [a..<a + length bs]) \<le> length bs"
    by (metis diff_add_inverse length_takeWhile_le length_upt)
  ultimately show ?thesis
    by (auto simp: copy_to_user_def writable_def Let_def)
qed

lemma copy_to_user_writable:
  assumes "writable um a (length bs)"
  shows "copy_to_user um a bs =
    (um\<lparr>ubyte := (\<lambda>p. if a \<le> p \<and> p < a + length bs then Some (bs ! (p - a)) else ubyte um p)\<rparr>, 0)"
proof -
  have "takeWhile (uwritable um) [a..<a + length bs] = [a..<a + length bs]"
    using assms by (simp add: takeWhile_eq_all_conv writable_def)
  then have "length (takeWhile (uwritable um) [a..<a + length bs]) = length bs"
    by (simp only: length_upt)
  then show ?thesis
    using assms by (simp add: copy_to_user_def writable_def Let_def)
qed

lemma copy_to_user_frame [simp]:
  "uwritable (fst (copy_to_user um a bs)) = uwritable um"
  "addr_limit (fst (copy_to_user um a bs)) = addr_limit um"
  by (simp_all add: copy_to_user_def Let_def)

lemma writable_frame [simp]: "writable (fst (copy_to_user um a bs)) = writable um"
  by (intro ext) (simp add: writable_def access_ok_def)

lemma writable_split:
  "writable um a (m + n) \<Longrightarrow> writable um a m"
  "writable um a (m + n) \<Longrightarrow> writable um (a + m) n"
  by (auto simp: writable_def access_ok_def)

lemma copy_to_user_contents:
  assumes "writable um a (length bs)"
  shows "map (ubyte (fst (copy_to_user um a bs))) [a ..< a + length bs] = map Some bs"
  by (rule nth_equalityI) (auto simp: copy_to_user_writable [OF assms])

lemma copy_to_user_append:
  assumes "writable um a (length xs + length ys)"
  shows "fst (copy_to_user (fst (copy_to_user um a xs)) (a + length xs) ys) =
    fst (copy_to_user um a (xs @ ys))"
proof -
  have w: "writable um a (length xs)" "writable um (a + length xs) (length ys)"
      "writable um a (length (xs @ ys))"
    using assms writable_split [of um a "length xs" "length ys"] by auto
  have w': "writable (fst (copy_to_user um a xs)) (a + length xs) (length ys)"
    using w(2) by simp
  show ?thesis
    unfolding copy_to_user_writable [OF w'] copy_to_user_writable [OF w(3)] fst_conv
    unfolding copy_to_user_writable [OF w(1)] fst_conv
    by (auto simp: nth_append intro!: arg_cong [where f = "\<lambda>f. um\<lparr>ubyte := f\<rparr>"] ext)
qed

text \<open>\<open>readable um a n\<close>: a copy of \<open>n\<close> bytes from \<open>a\<close> completes.\<close>

definition readable :: "user_mem \<Rightarrow> nat \<Rightarrow> nat \<Rightarrow> bool" where
  "readable um a n \<longleftrightarrow> access_ok um a n \<and> (\<forall>p \<in> {a ..< a + n}. ubyte um p \<noteq> None)"

lemma fetch_bytes_mapped:
  "(\<forall>p \<in> {a ..< a + n}. m p \<noteq> None) \<Longrightarrow> snd (fetch_bytes m a n) = 0"
proof (induction n arbitrary: a)
  case (Suc n)
  then have "snd (fetch_bytes m (Suc a) n) = 0" by (intro Suc.IH) auto
  moreover obtain b where "m a = Some b" using Suc.prems by fastforce
  ultimately show ?case by (auto split: prod.splits)
qed simp

lemma copy_from_user_readable: "readable um a n \<Longrightarrow> snd (copy_from_user um a n) = 0"
  by (simp add: readable_def copy_from_user_def fetch_bytes_mapped)

lemma readable_sub: "readable um a n \<Longrightarrow> k + m \<le> n \<Longrightarrow> readable um (a + k) m"
  by (auto simp: readable_def access_ok_def)

section \<open>Traces\<close>

text \<open>A run of a labelled step relation.\<close>

fun trace :: "('s \<Rightarrow> 'a \<Rightarrow> 's \<Rightarrow> bool) \<Rightarrow> 's \<Rightarrow> 'a list \<Rightarrow> 's \<Rightarrow> bool" where
  "trace step s [] s' \<longleftrightarrow> s' = s"
| "trace step s (a # as) s' \<longleftrightarrow> (\<exists>t. step s a t \<and> trace step t as s')"

lemma trace_invariant:
  assumes "trace step s as s'" and "P s" and "\<And>s a t. P s \<Longrightarrow> step s a t \<Longrightarrow> P t"
  shows "P s'"
  using assms by (induction as arbitrary: s) auto

end
