(* ===== verification/Lossy_Fifo.thy ===== *)
theory Lossy_Fifo
  imports KPrelude
begin

text \<open>
  The contract of a queue that never blocks its writer: a write appends one message and may
  drop messages from the front, a read takes the message at the front, and any other step may
  only drop from the front. Clients rely on what follows for whole runs: a reader sees a
  subsequence of what was written, in the order it was written, each message at most once.
\<close>

datatype 'm fifo_event = Wrote 'm | Got 'm | Silent

fun written :: "'m fifo_event list \<Rightarrow> 'm list" where
  "written [] = []"
| "written (Wrote m # evs) = m # written evs"
| "written (Got m # evs) = written evs"
| "written (Silent # evs) = written evs"

fun got :: "'m fifo_event list \<Rightarrow> 'm list" where
  "got [] = []"
| "got (Wrote m # evs) = got evs"
| "got (Got m # evs) = m # got evs"
| "got (Silent # evs) = got evs"

locale lossy_fifo =
  fixes invar :: "'s \<Rightarrow> bool"
    and pending :: "'s \<Rightarrow> 'm list \<Rightarrow> bool"
    and step :: "'s \<Rightarrow> 'm fifo_event \<Rightarrow> 's \<Rightarrow> bool"
  assumes inv_step: "invar s \<Longrightarrow> step s ev t \<Longrightarrow> invar t"
    and pending_write:
      "invar s \<Longrightarrow> pending s ms \<Longrightarrow> step s (Wrote m) t \<Longrightarrow>
       \<exists>kept. suffix kept ms \<and> pending t (kept @ [m])"
    and pending_read:
      "invar s \<Longrightarrow> pending s ms \<Longrightarrow> step s (Got m) t \<Longrightarrow> \<exists>rest. ms = m # rest \<and> pending t rest"
    and pending_silent:
      "invar s \<Longrightarrow> pending s ms \<Longrightarrow> step s Silent t \<Longrightarrow> \<exists>kept. suffix kept ms \<and> pending t kept"
begin

lemma inv_trace: "trace step s evs t \<Longrightarrow> invar s \<Longrightarrow> invar t"
  using trace_invariant [where P = invar] inv_step by blast

lemma subseq_append_suffix: "suffix kept ms \<Longrightarrow> subseq xs (kept @ ys) \<Longrightarrow> subseq xs (ms @ ys)"
  by (auto simp: suffix_def intro: subseq_order.trans)

theorem trace_subseq:
  assumes "trace step s evs t" and "invar s" and "pending s ms"
  shows "\<exists>rest. pending t rest \<and> subseq (got evs @ rest) (ms @ written evs)"
  using assms
proof (induction evs arbitrary: s ms)
  case Nil
  then show ?case by auto
next
  case (Cons ev evs)
  from Cons.prems(1) obtain u where u: "step s ev u" "trace step u evs t" by auto
  have invar: "invar u" using u(1) Cons.prems(2) inv_step by blast
  show ?case
  proof (cases ev)
    case (Wrote m)
    then obtain kept where k: "suffix kept ms" "pending u (kept @ [m])"
      using pending_write Cons.prems u(1) by blast
    from Cons.IH [OF u(2) invar k(2)] obtain rest where
      "pending t rest" "subseq (got evs @ rest) (kept @ m # written evs)" by auto
    then show ?thesis using k(1) Wrote by (auto intro: subseq_append_suffix)
  next
    case (Got m)
    then obtain rest where r: "ms = m # rest" "pending u rest"
      using pending_read Cons.prems u(1) by blast
    from Cons.IH [OF u(2) invar r(2)] show ?thesis using r(1) Got by auto
  next
    case Silent
    then obtain kept where k: "suffix kept ms" "pending u kept"
      using pending_silent Cons.prems u(1) by blast
    from Cons.IH [OF u(2) invar k(2)] show ?thesis
      using k(1) Silent by (auto intro: subseq_append_suffix)
  qed
qed

end

end
