(* ===== verification/Logger.thy ===== *)
theory Logger
  imports Lossy_Fifo
begin

text \<open>
  The Android logger, \<open>drivers/staging/android/logger.c\<close>: log buffers that processes append
  entries to and that any number of readers consume, each at its own pace. A log is a ring of
  bytes whose size is a power of two. The writer never waits: it overwrites the oldest entries
  and first pulls forward every reader it is about to lap.

  Offsets are natural numbers: they stay below the size of the log (at most 256 KiB) and every
  sum the driver forms stays below that plus one entry, so no \<open>size_t\<close> addition wraps. Bytes
  and the fields of an entry's header are machine words.
\<close>

section \<open>Data\<close>

record logger_reader =
  reader_id :: nat
  r_off :: nat

record logger_log =
  log_buf :: "u8 list"
  readers :: "logger_reader list"
  w_off :: nat
  log_head :: nat
  log_size :: nat

record logger_entry =
  e_len :: u16
  e_pad :: u16
  e_pid :: u32
  e_tid :: u32
  e_sec :: u32
  e_nsec :: u32
  e_msg :: "u8 list"

definition sizeof_logger_entry :: nat where
  "sizeof_logger_entry = 20"

definition LOGGER_ENTRY_MAX_LEN :: nat where
  "LOGGER_ENTRY_MAX_LEN = 4 * 1024"

definition LOGGER_ENTRY_MAX_PAYLOAD :: nat where
  "LOGGER_ENTRY_MAX_PAYLOAD = LOGGER_ENTRY_MAX_LEN - sizeof_logger_entry"

definition encode_header :: "logger_entry \<Rightarrow> u8 list" where
  "encode_header e = le16 (e_len e) @ le16 (e_pad e) @ le32 (e_pid e) @ le32 (e_tid e)
     @ le32 (e_sec e) @ le32 (e_nsec e)"

definition encode_entry :: "logger_entry \<Rightarrow> u8 list" where
  "encode_entry e = encode_header e @ e_msg e"

definition define_logger_device :: "nat \<Rightarrow> logger_log" where
  "define_logger_device sz =
     \<lparr>log_buf = replicate sz 0, readers = [], w_off = 0, log_head = 0, log_size = sz\<rparr>"

section \<open>Operations\<close>

definition logger_offset :: "logger_log \<Rightarrow> nat \<Rightarrow> nat" where
  "logger_offset log n = n AND (log_size log - 1)"

definition get_entry_len :: "logger_log \<Rightarrow> nat \<Rightarrow> nat" where
  "get_entry_len log off =
     (let val = (if log_size log - off = 1
                 then of_le16 (log_buf log ! off) (log_buf log ! 0)
                 else of_le16 (log_buf log ! off) (log_buf log ! (off + 1)))
      in sizeof_logger_entry + unat val)"

definition do_read_log_to_user ::
  "user_mem \<Rightarrow> logger_log \<Rightarrow> logger_reader \<Rightarrow> nat \<Rightarrow> nat
   \<Rightarrow> user_mem \<times> logger_reader \<times> (errno + nat)" where
  "do_read_log_to_user um log reader buf count =
     (let len = min count (log_size log - r_off reader);
          (um1, n1) = copy_to_user um buf (take len (drop (r_off reader) (log_buf log)))
      in if n1 \<noteq> 0 then (um1, reader, Inl EFAULT)
         else
           let (um2, n2) =
                 (if count \<noteq> len
                  then copy_to_user um1 (buf + len) (take (count - len) (log_buf log))
                  else (um1, 0))
           in if n2 \<noteq> 0 then (um2, reader, Inl EFAULT)
              else (um2, reader\<lparr>r_off := logger_offset log (r_off reader + count)\<rparr>, Inr count))"

text \<open>
  \<open>logger_read\<close> takes the mutex twice. \<open>logger_read_wait\<close> is the first section with the loop
  around it: the reader either finds something to read, fails, or sleeps until it is woken and
  looks again. \<open>logger_read_entry\<close> is the second section; \<open>Again\<close> is its \<open>goto start\<close>, taken
  when another thread emptied the log between the two.
\<close>

datatype wait_result = Ready | Fails errno | Sleeps

definition logger_read_wait :: "logger_log \<Rightarrow> logger_reader \<Rightarrow> bool \<Rightarrow> bool \<Rightarrow> wait_result" where
  "logger_read_wait log reader nonblock signal_pending =
     (if w_off log \<noteq> r_off reader then Ready
      else if nonblock then Fails EAGAIN
      else if signal_pending then Fails EINTR
      else Sleeps)"

datatype entry_result = Again | Returns "errno + nat"

definition logger_read_entry ::
  "user_mem \<Rightarrow> logger_log \<Rightarrow> logger_reader \<Rightarrow> nat \<Rightarrow> nat
   \<Rightarrow> user_mem \<times> logger_reader \<times> entry_result" where
  "logger_read_entry um log reader buf count =
     (if w_off log = r_off reader then (um, reader, Again)
      else
        let ret = get_entry_len log (r_off reader)
        in if count < ret then (um, reader, Returns (Inl EINVAL))
           else
             let (um', reader', res) = do_read_log_to_user um log reader buf ret
             in (um', reader', Returns res))"

function get_next_entry_loop :: "logger_log \<Rightarrow> nat \<Rightarrow> nat \<Rightarrow> nat \<Rightarrow> nat" where
  "get_next_entry_loop log off count len =
     (let nr = get_entry_len log off;
          off' = logger_offset log (off + nr);
          count' = count + nr
      in if count' < len then get_next_entry_loop log off' count' len else off')"
  by pat_completeness auto
termination
  by (relation "measure (\<lambda>(log, off, count, len). len - count)")
    (auto simp: get_entry_len_def sizeof_logger_entry_def Let_def)

declare get_next_entry_loop.simps [simp del]

definition get_next_entry :: "logger_log \<Rightarrow> nat \<Rightarrow> nat \<Rightarrow> nat" where
  "get_next_entry log off len = get_next_entry_loop log off 0 len"

definition clock_interval :: "nat \<Rightarrow> nat \<Rightarrow> nat \<Rightarrow> bool" where
  "clock_interval a b c \<longleftrightarrow> (if b < a then a < c \<or> b \<ge> c else a < c \<and> b \<ge> c)"

definition fix_up_readers :: "logger_log \<Rightarrow> nat \<Rightarrow> logger_log" where
  "fix_up_readers log len =
     (let old = w_off log;
          new = logger_offset log (old + len);
          log1 = (if clock_interval old new (log_head log)
                  then log\<lparr>log_head := get_next_entry log (log_head log) len\<rparr> else log)
      in log1\<lparr>readers :=
           map (\<lambda>reader. if clock_interval old new (r_off reader)
                          then reader\<lparr>r_off := get_next_entry log1 (r_off reader) len\<rparr>
                          else reader) (readers log1)\<rparr>)"

definition do_write_log :: "logger_log \<Rightarrow> u8 list \<Rightarrow> logger_log" where
  "do_write_log log buf =
     (let count = length buf;
          len = min count (log_size log - w_off log);
          b1 = memcpy_at (log_buf log) (w_off log) (take len buf);
          b2 = (if count \<noteq> len then memcpy_at b1 0 (drop len buf) else b1)
      in log\<lparr>log_buf := b2, w_off := logger_offset log (w_off log + count)\<rparr>)"

definition do_write_log_from_user ::
  "user_mem \<Rightarrow> logger_log \<Rightarrow> nat \<Rightarrow> nat \<Rightarrow> logger_log \<times> (errno + nat)" where
  "do_write_log_from_user um log buf count =
     (let len = min count (log_size log - w_off log);
          (bs1, n1) = (if len \<noteq> 0 then copy_from_user um buf len else ([], 0));
          log1 = log\<lparr>log_buf := memcpy_at (log_buf log) (w_off log) bs1\<rparr>
      in if len \<noteq> 0 \<and> n1 \<noteq> 0 then (log1, Inl EFAULT)
         else
           let (bs2, n2) = (if count \<noteq> len then copy_from_user um (buf + len) (count - len)
                            else ([], 0));
               log2 = log1\<lparr>log_buf := memcpy_at (log_buf log1) 0 bs2\<rparr>
           in if count \<noteq> len \<and> n2 \<noteq> 0 then (log2, Inl EFAULT)
              else (log2\<lparr>w_off := logger_offset log2 (w_off log2 + count)\<rparr>, Inr count))"

text \<open>The loop over the segments of a vectored write, with \<open>ret\<close> bytes written so far.\<close>

fun write_segments ::
  "user_mem \<Rightarrow> nat \<Rightarrow> nat \<Rightarrow> logger_log \<Rightarrow> nat \<Rightarrow> (nat \<times> nat) list
   \<Rightarrow> logger_log \<times> (errno + nat)" where
  "write_segments um orig hlen log ret [] = (log, Inr ret)"
| "write_segments um orig hlen log ret ((iov_base, iov_len) # iov) =
     (let len = min iov_len (hlen - ret)
      in case do_write_log_from_user um log iov_base len of
           (log', Inl e) \<Rightarrow> (log'\<lparr>w_off := orig\<rparr>, Inl e)
         | (log', Inr nr) \<Rightarrow> write_segments um orig hlen log' (ret + nr) iov)"

text \<open>
  \<open>logger_aio_write\<close> reads \<open>orig = log->w_off\<close> before it takes the mutex, so \<open>orig\<close> is a
  parameter of the locked part; without interference it is \<^term>\<open>w_off log\<close>. The parameter
  \<open>hdr\<close> carries the caller's identity, the time and the two padding bytes of the header, which
  the C code leaves as they were on the stack.
\<close>

definition logger_aio_write_locked ::
  "user_mem \<Rightarrow> nat \<Rightarrow> logger_entry \<Rightarrow> nat \<Rightarrow> (nat \<times> nat) list \<Rightarrow> logger_log
   \<Rightarrow> logger_log \<times> (errno + nat)" where
  "logger_aio_write_locked um orig hdr hlen iov log =
     (let log1 = fix_up_readers log (sizeof_logger_entry + hlen);
          log2 = do_write_log log1 (encode_header (hdr\<lparr>e_len := of_nat hlen\<rparr>))
      in write_segments um orig hlen log2 0 iov)"

definition logger_aio_write ::
  "user_mem \<Rightarrow> logger_entry \<Rightarrow> nat \<Rightarrow> (nat \<times> nat) list \<Rightarrow> logger_log
   \<Rightarrow> logger_log \<times> (errno + nat)" where
  "logger_aio_write um hdr ki_left iov log =
     (let orig = w_off log;
          hlen = min ki_left LOGGER_ENTRY_MAX_PAYLOAD
      in if hlen = 0 then (log, Inr 0)
         else logger_aio_write_locked um orig hdr hlen iov log)"

text \<open>The four logs, and what \<open>file->private_data\<close> points at.\<close>

datatype log_id = Log_main | Log_events | Log_radio | Log_system

type_synonym logger_state = "log_id \<Rightarrow> logger_log"

datatype private_data = Reader log_id nat | Writer log_id

record logger_file =
  private_data :: private_data
  fmode_write :: bool
  o_nonblock :: bool

definition logger_devices :: logger_state where
  "logger_devices = (\<lambda>l. case l of
       Log_main \<Rightarrow> define_logger_device (64 * 1024)
     | Log_events \<Rightarrow> define_logger_device (256 * 1024)
     | Log_radio \<Rightarrow> define_logger_device (64 * 1024)
     | Log_system \<Rightarrow> define_logger_device (64 * 1024))"

definition file_get_log :: "logger_file \<Rightarrow> log_id" where
  "file_get_log file = (case private_data file of Reader l i \<Rightarrow> l | Writer l \<Rightarrow> l)"

definition get_log_from_minor :: "(log_id \<Rightarrow> int) \<Rightarrow> int \<Rightarrow> log_id option" where
  "get_log_from_minor minors minor =
     (if minors Log_main = minor then Some Log_main
      else if minors Log_events = minor then Some Log_events
      else if minors Log_radio = minor then Some Log_radio
      else if minors Log_system = minor then Some Log_system
      else None)"

definition add_reader :: "logger_log \<Rightarrow> nat \<Rightarrow> logger_log" where
  "add_reader log i = log\<lparr>readers := readers log @ [\<lparr>reader_id = i, r_off = log_head log\<rparr>]\<rparr>"

definition del_reader :: "logger_log \<Rightarrow> nat \<Rightarrow> logger_log" where
  "del_reader log i = log\<lparr>readers := filter (\<lambda>r. reader_id r \<noteq> i) (readers log)\<rparr>"

text \<open>\<open>logger_open\<close>: \<open>kmalloc\<close> is the address of the new reader, \<open>None\<close> when it fails.\<close>

definition logger_open ::
  "(log_id \<Rightarrow> int) \<Rightarrow> logger_state \<Rightarrow> int \<Rightarrow> bool \<Rightarrow> bool \<Rightarrow> bool \<Rightarrow> nat option
   \<Rightarrow> errno + (logger_state \<times> logger_file)" where
  "logger_open minors st minor fmode_read fwrite nonblock kmalloc =
     (case get_log_from_minor minors minor of
        None \<Rightarrow> Inl ENODEV
      | Some l \<Rightarrow>
          if fmode_read then
            case kmalloc of
              None \<Rightarrow> Inl ENOMEM
            | Some i \<Rightarrow> Inr (st(l := add_reader (st l) i),
                \<lparr>private_data = Reader l i, fmode_write = fwrite, o_nonblock = nonblock\<rparr>)
          else Inr (st, \<lparr>private_data = Writer l, fmode_write = fwrite, o_nonblock = nonblock\<rparr>))"

definition logger_release :: "logger_state \<Rightarrow> logger_file \<Rightarrow> logger_state" where
  "logger_release st file =
     (case private_data file of
        Reader l i \<Rightarrow> st(l := del_reader (st l) i)
      | Writer l \<Rightarrow> st)"

definition find_reader :: "logger_log \<Rightarrow> nat \<Rightarrow> logger_reader option" where
  "find_reader log i = find (\<lambda>r. reader_id r = i) (readers log)"

definition set_reader :: "logger_log \<Rightarrow> logger_reader \<Rightarrow> logger_log" where
  "set_reader log r =
     log\<lparr>readers := map (\<lambda>q. if reader_id q = reader_id r then r else q) (readers log)\<rparr>"

text \<open>
  One pass of \<open>logger_read\<close> on a file opened for reading, with the log unchanged between its
  two locked sections. \<open>None\<close>: the file's reader is not on the log (use after release).
\<close>

datatype read_result = Read_sleeps | Read_returns "errno + nat"

definition logger_read ::
  "user_mem \<Rightarrow> logger_log \<Rightarrow> nat \<Rightarrow> bool \<Rightarrow> bool \<Rightarrow> nat \<Rightarrow> nat
   \<Rightarrow> (user_mem \<times> logger_log \<times> read_result) option" where
  "logger_read um log i nonblock signal_pending buf count =
     (case find_reader log i of
        None \<Rightarrow> None
      | Some reader \<Rightarrow>
         (case logger_read_wait log reader nonblock signal_pending of
            Fails e \<Rightarrow> Some (um, log, Read_returns (Inl e))
          | Sleeps \<Rightarrow> Some (um, log, Read_sleeps)
          | Ready \<Rightarrow>
              let (um', reader', res) = logger_read_entry um log reader buf count
              in Some (um', set_reader log reader',
                   case res of Again \<Rightarrow> Read_sleeps | Returns r \<Rightarrow> Read_returns r)))"

record poll_mask =
  pollin :: bool
  pollout :: bool

definition logger_poll :: "logger_state \<Rightarrow> logger_file \<Rightarrow> poll_mask option" where
  "logger_poll st file =
     (case private_data file of
        Writer l \<Rightarrow> Some \<lparr>pollin = False, pollout = True\<rparr>
      | Reader l i \<Rightarrow>
          map_option (\<lambda>r. \<lparr>pollin = (w_off (st l) \<noteq> r_off r), pollout = True\<rparr>)
            (find_reader (st l) i))"

datatype logger_cmd =
    LOGGER_GET_LOG_BUF_SIZE | LOGGER_GET_LOG_LEN | LOGGER_GET_NEXT_ENTRY_LEN
  | LOGGER_FLUSH_LOG | LOGGER_OTHER_CMD

definition flush_log :: "logger_log \<Rightarrow> logger_log" where
  "flush_log log =
     log\<lparr>readers := map (\<lambda>r. r\<lparr>r_off := w_off log\<rparr>) (readers log), log_head := w_off log\<rparr>"

definition log_len :: "logger_log \<Rightarrow> logger_reader \<Rightarrow> nat" where
  "log_len log reader =
     (if w_off log \<ge> r_off reader then w_off log - r_off reader
      else (log_size log - r_off reader) + w_off log)"

definition logger_ioctl ::
  "logger_state \<Rightarrow> logger_file \<Rightarrow> logger_cmd \<Rightarrow> (logger_state \<times> (errno + nat)) option" where
  "logger_ioctl st file cmd =
     (let l = file_get_log file; log = st l
      in case cmd of
           LOGGER_GET_LOG_BUF_SIZE \<Rightarrow> Some (st, Inr (log_size log))
         | LOGGER_GET_LOG_LEN \<Rightarrow>
             (case private_data file of
                Writer _ \<Rightarrow> Some (st, Inl EBADF)
              | Reader _ i \<Rightarrow>
                  map_option (\<lambda>r. (st, Inr (log_len log r))) (find_reader log i))
         | LOGGER_GET_NEXT_ENTRY_LEN \<Rightarrow>
             (case private_data file of
                Writer _ \<Rightarrow> Some (st, Inl EBADF)
              | Reader _ i \<Rightarrow>
                  map_option (\<lambda>r. (st, Inr (if w_off log \<noteq> r_off r
                                             then get_entry_len log (r_off r) else 0)))
                    (find_reader log i))
         | LOGGER_FLUSH_LOG \<Rightarrow>
             if \<not> fmode_write file then Some (st, Inl EBADF)
             else Some (st(l := flush_log log), Inr 0)
         | LOGGER_OTHER_CMD \<Rightarrow> Some (st, Inl ENOTTY))"

section \<open>Invariant\<close>

text \<open>
  \<open>reads_as log x es\<close>: from offset \<open>x\<close> up to the write offset the log holds exactly the
  encodings of the entries \<open>es\<close>, one after the other, and they do not fill the whole ring.
  The invariant asks this of the start head and of every reader, each for a list of its own.
\<close>

definition wf_entry :: "logger_entry \<Rightarrow> bool" where
  "wf_entry e \<longleftrightarrow> length (e_msg e) = unat (e_len e)"

definition encode_all :: "logger_entry list \<Rightarrow> u8 list" where
  "encode_all es = concat (map encode_entry es)"

definition reads_as :: "logger_log \<Rightarrow> nat \<Rightarrow> logger_entry list \<Rightarrow> bool" where
  "reads_as log x es \<longleftrightarrow>
     x < log_size log \<and> length (encode_all es) < log_size log \<and>
     (x + length (encode_all es)) mod log_size log = w_off log \<and>
     ring_get (log_buf log) x (length (encode_all es)) = encode_all es \<and>
     list_all wf_entry es"

definition log_shape :: "logger_log \<Rightarrow> bool" where
  "log_shape log \<longleftrightarrow>
     (\<exists>k. log_size log = 2 ^ k) \<and> LOGGER_ENTRY_MAX_LEN < log_size log \<and>
     length (log_buf log) = log_size log \<and> w_off log < log_size log"

definition log_inv :: "logger_log \<Rightarrow> bool" where
  "log_inv log \<longleftrightarrow>
     log_shape log \<and> (\<exists>es. reads_as log (log_head log) es) \<and>
     (\<forall>r \<in> set (readers log). \<exists>es. reads_as log (r_off r) es)"

section \<open>Lemmas\<close>

lemma length_encode_header [simp]: "length (encode_header e) = sizeof_logger_entry"
  by (simp add: encode_header_def sizeof_logger_entry_def)

lemma length_encode_entry:
  "length (encode_entry e) = sizeof_logger_entry + length (e_msg e)"
  by (simp add: encode_entry_def)

lemma encode_all_simps [simp]:
  "encode_all [] = []"
  "encode_all (e # es) = encode_entry e @ encode_all es"
  "encode_all (es @ fs) = encode_all es @ encode_all fs"
  by (simp_all add: encode_all_def)

lemma logger_offset_mod:
  assumes "log_shape log"
  shows "logger_offset log n = n mod log_size log"
proof -
  obtain k where k: "log_size log = 2 ^ k"
    using assms by (auto simp: log_shape_def)
  show ?thesis
    by (simp add: logger_offset_def k take_bit_eq_mod [symmetric] take_bit_eq_mask
        mask_eq_exp_minus_1)
qed

lemma log_shape_size:
  assumes "log_shape log"
  shows "2 * LOGGER_ENTRY_MAX_LEN \<le> log_size log"
proof -
  obtain k where k: "log_size log = 2 ^ k" and gt: "(2::nat) ^ 12 < 2 ^ k"
    using assms by (auto simp: log_shape_def LOGGER_ENTRY_MAX_LEN_def)
  then have "12 < k"
    using power_less_imp_less_exp [of "2::nat" 12 k] by simp
  then have "13 \<le> k" by simp
  then have "(2::nat) ^ 13 \<le> 2 ^ k" by (rule power_increasing) simp
  then show ?thesis by (simp add: k LOGGER_ENTRY_MAX_LEN_def)
qed

lemma ring_get_byte:
  assumes "length buf = n" and "x < n" and "k < m" and "m \<le> n"
  shows "ring_get buf x m ! k = buf ! ((x + k) mod n)"
  using assms by (simp add: ring_get_def nth_rotate)

lemma get_entry_len_reads:
  assumes shape: "log_shape log" and reads: "reads_as log x (e # es)"
  shows "get_entry_len log x = length (encode_entry e)"
proof -
  let ?n = "log_size log" and ?m = "length (encode_all (e # es))"
  have x: "x < ?n" and m: "?m < ?n" and buf: "length (log_buf log) = ?n"
    and wf: "wf_entry e"
    and bytes: "ring_get (log_buf log) x ?m = encode_all (e # es)"
    using assms by (auto simp: reads_as_def log_shape_def)
  have two: "20 \<le> ?m"
    by (simp add: length_encode_entry sizeof_logger_entry_def)
  have b0: "log_buf log ! x = ucast (e_len e)"
    using ring_get_byte [OF buf x, of 0 ?m] bytes m two x
    by (simp add: encode_entry_def encode_header_def le16_def)
  have b1: "log_buf log ! ((x + 1) mod ?n) = ucast (drop_bit 8 (e_len e))"
    using ring_get_byte [OF buf x, of 1 ?m] bytes m two x
    by (simp add: encode_entry_def encode_header_def le16_def)
  have "(x + 1) mod ?n = (if ?n - x = 1 then 0 else x + 1)"
    using x by (auto simp: mod_Suc)
  with b1 have val: "(if ?n - x = 1 then of_le16 (log_buf log ! x) (log_buf log ! 0)
       else of_le16 (log_buf log ! x) (log_buf log ! (x + 1))) = e_len e"
    using b0 by (auto split: if_splits)
  show ?thesis
    using wf unfolding get_entry_len_def Let_def val
    by (simp add: length_encode_entry wf_entry_def)
qed

lemma reads_as_tail:
  assumes shape: "log_shape log" and reads: "reads_as log x (es @ fs)"
  shows "reads_as log ((x + length (encode_all es)) mod log_size log) fs"
proof -
  let ?n = "log_size log" and ?p = "length (encode_all es)" and ?k = "length (encode_all fs)"
  have buf: "length (log_buf log) = ?n" and lt: "?p + ?k < ?n"
    and bytes: "take (?p + ?k) (rotate x (log_buf log)) = encode_all es @ encode_all fs"
    using assms by (auto simp: reads_as_def log_shape_def ring_get_def)
  have "take ?k (rotate ((x + ?p) mod ?n) (log_buf log)) = take ?k (drop ?p (rotate x (log_buf log)))"
    using buf lt by (intro take_rotate_shift) auto
  also have "\<dots> = drop ?p (take (?p + ?k) (rotate x (log_buf log)))"
    by (simp add: take_drop add.commute)
  also have "\<dots> = encode_all fs"
    by (simp add: bytes)
  finally show ?thesis
    using assms lt by (auto simp: reads_as_def ring_get_def mod_add_left_eq add.assoc)
qed


text \<open>
  \<open>drop_covering len es\<close> drops entries from the front until at least \<open>len\<close> bytes are gone
  (and always at least one entry): what the do-while loop of \<open>get_next_entry\<close> skips.
\<close>

fun drop_covering :: "nat \<Rightarrow> logger_entry list \<Rightarrow> logger_entry list" where
  "drop_covering len [] = []"
| "drop_covering len (e # es) =
     (if len \<le> length (encode_entry e) then es
      else drop_covering (len - length (encode_entry e)) es)"

lemma drop_covering_suffix: "suffix (drop_covering len es) es"
  by (induction len es rule: drop_covering.induct) (auto intro: suffix_ConsI)

lemma drop_covering_length:
  "len \<le> length (encode_all es) \<Longrightarrow> 0 < len \<Longrightarrow>
   length (encode_all (drop_covering len es)) + len \<le> length (encode_all es)"
proof (induction len es rule: drop_covering.induct)
  case (2 len e es)
  show ?case
  proof (cases "len \<le> length (encode_entry e)")
    case False
    then have "length (encode_all (drop_covering (len - length (encode_entry e)) es))
        + (len - length (encode_entry e)) \<le> length (encode_all es)"
      using "2.prems" by (intro "2.IH") auto
    then show ?thesis using False by simp
  qed simp
qed simp

lemma get_next_entry_loop_reads:
  assumes "log_shape log" and "reads_as log x es" and "count < len"
    and "len - count \<le> length (encode_all es)"
  shows "reads_as log (get_next_entry_loop log x count len) (drop_covering (len - count) es)"
  using assms
proof (induction log x count len arbitrary: es rule: get_next_entry_loop.induct)
  case (1 log x count len)
  from "1.prems"(3,4) obtain e fs where es: "es = e # fs"
    by (cases es) auto
  let ?nr = "get_entry_len log x"
  have nr: "?nr = length (encode_entry e)"
    using "1.prems"(1,2) unfolding es by (rule get_entry_len_reads)
  have "reads_as log ((x + length (encode_all [e])) mod log_size log) fs"
    using "1.prems"(1,2) by (intro reads_as_tail) (simp_all add: es)
  then have next_reads: "reads_as log (logger_offset log (x + ?nr)) fs"
    using "1.prems"(1) by (simp add: nr logger_offset_mod)
  have unfold: "get_next_entry_loop log x count len =
    (if count + ?nr < len
     then get_next_entry_loop log (logger_offset log (x + ?nr)) (count + ?nr) len
     else logger_offset log (x + ?nr))"
    by (subst get_next_entry_loop.simps) (simp add: Let_def)
  show ?case
  proof (cases "count + ?nr < len")
    case True
    have "reads_as log (get_next_entry_loop log (logger_offset log (x + ?nr)) (count + ?nr) len)
        (drop_covering (len - (count + ?nr)) fs)"
      using True "1.prems"(1) next_reads "1.prems"(4) es nr by (intro "1.IH") auto
    then show ?thesis
      using True es nr by (auto simp: unfold)
  next
    case False
    then show ?thesis
      using next_reads es nr by (auto simp: unfold)
  qed
qed

lemma get_next_entry_reads:
  assumes "log_shape log" and "reads_as log x es" and "0 < len"
    and "len \<le> length (encode_all es)"
  shows "reads_as log (get_next_entry log x len) (drop_covering len es)"
  using get_next_entry_loop_reads [of log x es 0 len] assms by (simp add: get_next_entry_def)

text \<open>The distance from \<open>a\<close> forward to \<open>c\<close> in a ring of \<open>n\<close> places.\<close>

definition ring_dist :: "nat \<Rightarrow> nat \<Rightarrow> nat \<Rightarrow> nat" where
  "ring_dist n a c = (if a \<le> c then c - a else c + n - a)"

lemma clock_interval_dist:
  assumes "a < n" and "c < n" and "len < n" and "b = (a + len) mod n"
  shows "clock_interval a b c \<longleftrightarrow> 0 < ring_dist n a c \<and> ring_dist n a c \<le> len"
proof (cases "a + len < n")
  case True
  then have "b = a + len" using assms by simp
  then show ?thesis using True assms by (auto simp: clock_interval_def ring_dist_def)
next
  case False
  then have "b = a + len - n" using assms by (simp add: mod_if)
  then show ?thesis using False assms by (auto simp: clock_interval_def ring_dist_def)
qed

lemma reads_as_dist:
  assumes "log_shape log" and "reads_as log x es"
  shows "ring_dist (log_size log) (w_off log) x =
    (if es = [] then 0 else log_size log - length (encode_all es))"
proof -
  let ?n = "log_size log" and ?m = "length (encode_all es)"
  have x: "x < ?n" and m: "?m < ?n" and w: "w_off log = (x + ?m) mod ?n"
    using assms by (auto simp: reads_as_def)
  have pos: "es \<noteq> [] \<Longrightarrow> 0 < ?m"
    by (cases es) (auto simp: length_encode_entry sizeof_logger_entry_def)
  show ?thesis
  proof (cases "x + ?m < ?n")
    case True
    then show ?thesis using w x pos by (auto simp: ring_dist_def)
  next
    case False
    then have "w_off log = x + ?m - ?n" using w x m by (simp add: mod_if)
    then show ?thesis using False x m pos by (auto simp: ring_dist_def)
  qed
qed

text \<open>What \<open>fix_up_readers\<close> does to one position.\<close>

definition pull_forward :: "logger_log \<Rightarrow> nat \<Rightarrow> nat \<Rightarrow> nat" where
  "pull_forward log len x =
     (if clock_interval (w_off log) (logger_offset log (w_off log + len)) x
      then get_next_entry log x len else x)"

definition kept_entries :: "logger_log \<Rightarrow> nat \<Rightarrow> logger_entry list \<Rightarrow> logger_entry list" where
  "kept_entries log len es =
     (if length (encode_all es) + len < log_size log then es else drop_covering len es)"

lemma kept_entries_suffix: "suffix (kept_entries log len es) es"
  by (simp add: kept_entries_def drop_covering_suffix)

lemma pull_forward_reads:
  assumes shape: "log_shape log" and reads: "reads_as log x es"
    and len: "0 < len" "len \<le> LOGGER_ENTRY_MAX_LEN"
  shows "reads_as log (pull_forward log len x) (kept_entries log len es)"
    and "length (encode_all (kept_entries log len es)) + len < log_size log"
proof -
  let ?n = "log_size log" and ?m = "length (encode_all es)"
  have size: "2 * LOGGER_ENTRY_MAX_LEN \<le> ?n" using shape by (rule log_shape_size)
  have w: "w_off log < ?n" and x: "x < ?n" and m: "?m < ?n"
    using shape reads by (auto simp: log_shape_def reads_as_def)
  have "clock_interval (w_off log) (logger_offset log (w_off log + len)) x \<longleftrightarrow>
      0 < ring_dist ?n (w_off log) x \<and> ring_dist ?n (w_off log) x \<le> len"
    using w x len size shape by (intro clock_interval_dist) (auto simp: logger_offset_mod)
  then have crossed: "clock_interval (w_off log) (logger_offset log (w_off log + len)) x \<longleftrightarrow>
      \<not> ?m + len < ?n"
    using reads_as_dist [OF shape reads] m len size by auto
  have "\<not> ?m + len < ?n \<Longrightarrow> len \<le> ?m"
    using len size by linarith
  then show "reads_as log (pull_forward log len x) (kept_entries log len es)"
    using get_next_entry_reads [OF shape reads len(1)] reads crossed
    by (auto simp: pull_forward_def kept_entries_def)
  show "length (encode_all (kept_entries log len es)) + len < ?n"
    using drop_covering_length [of len es] m len size by (auto simp: kept_entries_def)
qed


lemma get_next_entry_loop_cong:
  assumes "log_buf l' = log_buf l" and "log_size l' = log_size l"
  shows "get_next_entry_loop l' off count len = get_next_entry_loop l off count len"
  using assms
proof (induction l off count len rule: get_next_entry_loop.induct)
  case (1 l off count len)
  have eqs: "get_entry_len l' = get_entry_len l" "logger_offset l' = logger_offset l"
    using "1.prems" by (auto simp: get_entry_len_def logger_offset_def)
  show ?case
    unfolding get_next_entry_loop.simps [of l' off count len]
      get_next_entry_loop.simps [of l off count len] eqs Let_def
    by (rule if_cong [OF refl _ refl]) (rule "1.IH" [OF refl refl refl _ "1.prems"])
qed

lemma get_next_entry_head [simp]:
  "get_next_entry (log\<lparr>log_head := h\<rparr>) off len = get_next_entry log off len"
  unfolding get_next_entry_def by (rule get_next_entry_loop_cong) simp_all

lemma fix_up_readers_eq:
  "fix_up_readers log len =
     log\<lparr>log_head := pull_forward log len (log_head log),
         readers := map (\<lambda>r. r\<lparr>r_off := pull_forward log len (r_off r)\<rparr>) (readers log)\<rparr>"
  by (auto simp: fix_up_readers_def pull_forward_def Let_def)

text \<open>Appending bytes at the write offset, and the same without moving the offset.\<close>

definition clobber :: "logger_log \<Rightarrow> u8 list \<Rightarrow> logger_log" where
  "clobber log bs = log\<lparr>log_buf := ring_put (log_buf log) (w_off log) bs\<rparr>"

definition put_bytes :: "logger_log \<Rightarrow> u8 list \<Rightarrow> logger_log" where
  "put_bytes log bs =
     (clobber log bs)\<lparr>w_off := (w_off log + length bs) mod log_size log\<rparr>"

lemma clobber_simps [simp]:
  "log_size (clobber log bs) = log_size log" "w_off (clobber log bs) = w_off log"
  "log_head (clobber log bs) = log_head log" "readers (clobber log bs) = readers log"
  "log_buf (clobber log bs) = ring_put (log_buf log) (w_off log) bs"
  by (simp_all add: clobber_def)

lemma put_bytes_simps [simp]:
  "log_size (put_bytes log bs) = log_size log"
  "w_off (put_bytes log bs) = (w_off log + length bs) mod log_size log"
  "log_head (put_bytes log bs) = log_head log" "readers (put_bytes log bs) = readers log"
  "log_buf (put_bytes log bs) = ring_put (log_buf log) (w_off log) bs"
  by (simp_all add: put_bytes_def)

lemma log_shape_pos: "log_shape log \<Longrightarrow> 0 < log_size log"
  by (simp add: log_shape_def)

lemma log_shape_clobber:
  "log_shape log \<Longrightarrow> length bs \<le> log_size log \<Longrightarrow> log_shape (clobber log bs)"
  by (simp add: log_shape_def)

lemma log_shape_put:
  "log_shape log \<Longrightarrow> length bs \<le> log_size log \<Longrightarrow> log_shape (put_bytes log bs)"
  by (simp add: log_shape_def)

lemma ring_put_append:
  assumes "w < length buf" and "length a + length b \<le> length buf"
  shows "ring_put (ring_put buf w a) ((w + length a) mod length buf) b = ring_put buf w (a @ b)"
proof -
  let ?n = "length buf"
  have ne: "buf \<noteq> []" using assms(1) by auto
  have rot: "rotate w (ring_put (ring_put buf w a) ((w + length a) mod ?n) b) =
      rotate w (ring_put buf w (a @ b))"
    using assms ne rotate_ring_put [of "ring_put buf w a" ?n "length a" b "(w + length a) mod ?n" w]
      rotate_ring_put [of buf ?n 0 a w w] rotate_ring_put [of buf ?n 0 "a @ b" w w]
    by (simp add: memcpy_at_def add.commute)
  have "inj (rotate w :: 'a list \<Rightarrow> 'a list)"
    unfolding rotate_def by (rule inj_fn [OF inj_rotate1])
  then show ?thesis using rot by (rule injD)
qed

lemma put_bytes_append:
  assumes "log_shape log" and "length a + length b \<le> log_size log"
  shows "put_bytes (put_bytes log a) b = put_bytes log (a @ b)"
    and "clobber (put_bytes log a) b = (clobber log (a @ b))\<lparr>w_off := (w_off log + length a) mod log_size log\<rparr>"
  using assms ring_put_append [of "w_off log" "log_buf log" a b]
  by (simp_all add: put_bytes_def clobber_def log_shape_def mod_add_left_eq add.assoc)

lemma put_bytes_Nil: "log_shape log \<Longrightarrow> put_bytes log [] = log"
  by (simp add: put_bytes_def clobber_def ring_put_def log_shape_def)

lemma do_write_log_put:
  assumes "log_shape log"
  shows "do_write_log log bs = put_bytes log bs"
  using assms logger_offset_mod [OF assms]
  by (simp add: do_write_log_def put_bytes_def clobber_def ring_put_def Let_def log_shape_def)

lemma reads_as_clobber:
  assumes "log_shape log" and "reads_as log x es"
    and "length (encode_all es) + length bs \<le> log_size log"
  shows "reads_as (clobber log bs) x es"
proof -
  have "rotate x (ring_put (log_buf log) (w_off log) bs) =
      memcpy_at (rotate x (log_buf log)) (length (encode_all es)) bs"
    using assms by (intro rotate_ring_put [where n = "log_size log"])
      (auto simp: log_shape_def reads_as_def)
  then show ?thesis
    using assms by (auto simp: reads_as_def ring_get_def memcpy_at_def log_shape_def)
qed

lemma reads_as_put:
  assumes "log_shape log" and "reads_as log x es" and "wf_entry e"
    and "length (encode_all es) + length (encode_entry e) < log_size log"
  shows "reads_as (put_bytes log (encode_entry e)) x (es @ [e])"
proof -
  let ?L = "length (encode_all es)"
  have "rotate x (ring_put (log_buf log) (w_off log) (encode_entry e)) =
      memcpy_at (rotate x (log_buf log)) ?L (encode_entry e)"
    using assms by (intro rotate_ring_put [where n = "log_size log"])
      (auto simp: log_shape_def reads_as_def)
  moreover have "take ?L (rotate x (log_buf log)) = encode_all es"
    using assms(2) by (simp add: reads_as_def ring_get_def)
  ultimately have "ring_get (log_buf (put_bytes log (encode_entry e))) x
      (?L + length (encode_entry e)) = encode_all es @ encode_entry e"
    using assms by (simp add: ring_get_def memcpy_at_def log_shape_def)
  moreover have "(x + (?L + length (encode_entry e))) mod log_size log =
      (w_off log + length (encode_entry e)) mod log_size log"
    using assms(2) by (metis add.assoc mod_add_left_eq reads_as_def)
  ultimately show ?thesis
    using assms by (auto simp: reads_as_def)
qed

text \<open>The bytes a vectored write offers, \<open>None\<close> where the user's memory faults.\<close>

definition iov_bytes :: "user_mem \<Rightarrow> (nat \<times> nat) list \<Rightarrow> u8 option list" where
  "iov_bytes um iov = concat (map (\<lambda>(base, len). map (ubyte um) [base ..< base + len]) iov)"

lemma iov_bytes_simps [simp]:
  "iov_bytes um [] = []"
  "iov_bytes um ((base, len) # iov) = map (ubyte um) [base ..< base + len] @ iov_bytes um iov"
  by (simp_all add: iov_bytes_def)

lemma ring_put_two:
  assumes "w \<le> length buf" and "length bs1 = min (length bs1 + length bs2) (length buf - w)"
  shows "ring_put buf w (bs1 @ bs2) = memcpy_at (memcpy_at buf w bs1) 0 bs2"
  using assms by (auto simp: ring_put_def Let_def)

lemma logger_offset_buf [simp]: "logger_offset (log\<lparr>log_buf := b\<rparr>) = logger_offset log"
  by (intro ext) (simp add: logger_offset_def)

lemma write_from_user_cases:
  assumes shape: "log_shape log" and res: "do_write_log_from_user um log buf count = (log', res)"
  shows "(\<exists>bs. res = Inr count \<and> log' = put_bytes log bs \<and>
             map (ubyte um) [buf ..< buf + count] = map Some bs)
       \<or> (\<exists>bs. res = Inl EFAULT \<and> log' = clobber log bs \<and> length bs \<le> count)"
proof -
  define len where "len = min count (log_size log - w_off log)"
  obtain bs1 n1 where c1: "copy_from_user um buf len = (bs1, n1)" by fastforce
  obtain bs2 n2 where c2: "copy_from_user um (buf + len) (count - len) = (bs2, n2)" by fastforce
  have l1: "length bs1 = len" and l2: "length bs2 = count - len"
    using length_copy_from_user [of um buf len] length_copy_from_user [of um "buf + len" "count - len"]
    by (simp_all add: c1 c2)
  have le: "len \<le> count" by (simp add: len_def)
  have w: "w_off log < log_size log" and sz: "length (log_buf log) = log_size log"
    using shape by (auto simp: log_shape_def)
  have e1: "(if len \<noteq> 0 then copy_from_user um buf len else ([], 0)) = (bs1, n1)"
    using c1 by auto
  have e2: "(if count \<noteq> len then copy_from_user um (buf + len) (count - len) else ([], 0)) = (bs2, n2)"
    using c2 le by auto
  have z: "len = 0 \<Longrightarrow> n1 = 0" "count = len \<Longrightarrow> n2 = 0" using c1 c2 by auto
  have run: "do_write_log_from_user um log buf count =
    (if n1 \<noteq> 0 then (log\<lparr>log_buf := memcpy_at (log_buf log) (w_off log) bs1\<rparr>, Inl EFAULT)
     else if n2 \<noteq> 0 then (clobber log (bs1 @ bs2), Inl EFAULT)
     else (put_bytes log (bs1 @ bs2), Inr count))"
  proof -
    have put: "ring_put (log_buf log) (w_off log) (bs1 @ bs2) =
        memcpy_at (memcpy_at (log_buf log) (w_off log) bs1) 0 bs2"
      by (rule ring_put_two) (use w sz l1 l2 le in \<open>auto simp: len_def\<close>)
    show ?thesis
      using z le l1 l2
      unfolding do_write_log_from_user_def len_def [symmetric] Let_def e1 e2 prod.case
      by (auto simp: clobber_def put_bytes_def put logger_offset_mod [OF shape])
  qed
  consider "n1 \<noteq> 0" | "n1 = 0" "n2 \<noteq> 0" | "n1 = 0" "n2 = 0" by blast
  then show ?thesis
  proof cases
    case 1
    have "ring_put (log_buf log) (w_off log) bs1 = memcpy_at (log_buf log) (w_off log) bs1"
      using l1 w sz by (auto simp: ring_put_def Let_def len_def)
    then have "clobber log bs1 = log\<lparr>log_buf := memcpy_at (log_buf log) (w_off log) bs1\<rparr>"
      by (simp add: clobber_def)
    then show ?thesis using 1 res run l1 le by auto
  next
    case 2
    then show ?thesis using res run l1 l2 le by (intro disjI2 exI [of _ "bs1 @ bs2"]) auto
  next
    case 3
    have "map (ubyte um) [buf ..< buf + count] = map Some (bs1 @ bs2)"
      using copy_from_user_complete [of um buf len bs1]
        copy_from_user_complete [of um "buf + len" "count - len" bs2] 3 c1 c2 le
        upt_add_eq_append [of buf "buf + len" "count - len"]
      by simp
    then show ?thesis using 3 res run by (intro disjI1 exI [of _ "bs1 @ bs2"]) auto
  qed
qed

lemma write_segments_ok:
  assumes "log_shape log" and "hlen - ret \<le> log_size log" and "ret \<le> hlen"
    and "write_segments um orig hlen log ret iov = (log', Inr r)"
  shows "\<exists>bs. log' = put_bytes log bs \<and>
    map Some bs = take (hlen - ret) (iov_bytes um iov) \<and> r = ret + length bs"
  using assms
proof (induction iov arbitrary: log ret)
  case Nil
  then show ?case by (auto simp: put_bytes_Nil intro: exI [of _ "[]"])
next
  case (Cons seg iov)
  obtain base l where seg: "seg = (base, l)" by fastforce
  define len where "len = min l (hlen - ret)"
  obtain log1 res where w: "do_write_log_from_user um log base len = (log1, res)" by fastforce
  with Cons.prems(4) obtain nr where res: "res = Inr nr"
    by (cases res) (auto simp: seg len_def [symmetric] Let_def)
  then obtain bs where bs: "nr = len" "log1 = put_bytes log bs"
      "map (ubyte um) [base ..< base + len] = map Some bs"
    using write_from_user_cases [OF Cons.prems(1) w] by auto
  have lbs: "length bs = len"
    using arg_cong [OF bs(3), of length] by simp
  have rest: "write_segments um orig hlen log1 (ret + len) iov = (log', Inr r)"
    using Cons.prems(4) w res bs(1) by (simp add: seg len_def [symmetric] Let_def)
  have shape1: "log_shape log1"
    using Cons.prems(1,2) bs(2) lbs by (auto simp: len_def intro!: log_shape_put)
  have f: "hlen - (ret + len) \<le> log_size log1" "ret + len \<le> hlen"
    using Cons.prems(2,3) bs(2) by (auto simp: len_def)
  obtain cs where cs: "log' = put_bytes log1 cs"
      "map Some cs = take (hlen - (ret + len)) (iov_bytes um iov)" "r = ret + len + length cs"
    using Cons.IH [OF shape1 f rest] by auto
  have lcs: "length cs \<le> hlen - (ret + len)"
    using arg_cong [OF cs(2), of length] by simp
  have fit: "length bs + length cs \<le> log_size log"
    using lcs lbs Cons.prems(2,3) by (auto simp: len_def)
  have "log' = put_bytes log (bs @ cs)"
    using put_bytes_append(1) [OF Cons.prems(1) fit] cs(1) bs(2) by simp
  moreover have "map Some (bs @ cs) = take (hlen - ret) (iov_bytes um (seg # iov))"
  proof (cases "l \<le> hlen - ret")
    case True
    then show ?thesis using bs(3) cs(2) lbs by (simp add: seg len_def)
  next
    case False
    then have "hlen - (ret + len) = 0" by (simp add: len_def)
    moreover have "take (hlen - ret) [base ..< base + l] = [base ..< base + len]"
      using False by (simp add: len_def)
    ultimately show ?thesis
      using False bs(3) cs(2) by (simp add: seg take_map)
  qed
  ultimately show ?case using cs(3) lbs by (intro exI [of _ "bs @ cs"]) simp
qed

lemma write_segments_fail:
  assumes "log_shape log" and "hlen - ret \<le> log_size log" and "ret \<le> hlen"
    and "write_segments um orig hlen log ret iov = (log', Inl e)"
  shows "\<exists>bs. log' = (clobber log bs)\<lparr>w_off := orig\<rparr> \<and> length bs \<le> hlen - ret \<and> e = EFAULT"
  using assms
proof (induction iov arbitrary: log ret)
  case Nil
  then show ?case by simp
next
  case (Cons seg iov)
  obtain base l where seg: "seg = (base, l)" by fastforce
  define len where "len = min l (hlen - ret)"
  have len: "len \<le> hlen - ret" by (simp add: len_def)
  obtain log1 res where w: "do_write_log_from_user um log base len = (log1, res)" by fastforce
  from write_from_user_cases [OF Cons.prems(1) w] show ?case
  proof (elim disjE exE conjE)
    fix bs
    assume "res = Inl EFAULT" "log1 = clobber log bs" "length bs \<le> len"
    then show ?thesis
      using Cons.prems(4) w len by (auto simp: seg len_def [symmetric] Let_def)
  next
    fix bs
    assume res: "res = Inr len" and log1: "log1 = put_bytes log bs"
      and bs: "map (ubyte um) [base ..< base + len] = map Some bs"
    have lbs: "length bs = len" using arg_cong [OF bs, of length] by simp
    have rest: "write_segments um orig hlen log1 (ret + len) iov = (log', Inl e)"
      using Cons.prems(4) w res by (simp add: seg len_def [symmetric] Let_def)
    have shape1: "log_shape log1"
      using Cons.prems(1,2) log1 lbs len by (auto intro!: log_shape_put)
    have f: "hlen - (ret + len) \<le> log_size log1" "ret + len \<le> hlen"
      using Cons.prems(2,3) log1 len by auto
    obtain cs where cs: "log' = (clobber log1 cs)\<lparr>w_off := orig\<rparr>"
        "length cs \<le> hlen - (ret + len)" "e = EFAULT"
      using Cons.IH [OF shape1 f rest] by auto
    have fit: "length bs + length cs \<le> log_size log"
      using cs(2) lbs len Cons.prems(2,3) by linarith
    have "log' = (clobber log (bs @ cs))\<lparr>w_off := orig\<rparr>"
      using put_bytes_append(2) [OF Cons.prems(1) fit] cs(1) log1 by simp
    then show ?thesis using cs(2,3) lbs len by (intro exI [of _ "bs @ cs"]) auto
  qed
qed

text \<open>The start head and the read offsets, in list order.\<close>

definition positions :: "logger_log \<Rightarrow> nat list" where
  "positions log = log_head log # map r_off (readers log)"

lemma log_inv_positions:
  "log_inv log \<longleftrightarrow> log_shape log \<and> (\<forall>x \<in> set (positions log). \<exists>es. reads_as log x es)"
  by (auto simp: log_inv_def positions_def)

lemma positions_fix_up:
  "positions (fix_up_readers log len) = map (pull_forward log len) (positions log)"
  by (simp add: positions_def fix_up_readers_eq)

lemma positions_frame [simp]:
  "positions (put_bytes log bs) = positions log"
  "positions (clobber log bs) = positions log"
  "positions (log\<lparr>w_off := w\<rparr>) = positions log"
  by (simp_all add: positions_def)

lemma fix_up_frame [simp]:
  "log_shape (fix_up_readers log len) = log_shape log"
  "reads_as (fix_up_readers log len) = reads_as log"
  "w_off (fix_up_readers log len) = w_off log"
  "log_size (fix_up_readers log len) = log_size log"
  "log_buf (fix_up_readers log len) = log_buf log"
  by (auto simp: fix_up_readers_eq log_shape_def reads_as_def intro!: ext)

lemma reader_ids_fix_up [simp]:
  "map reader_id (readers (fix_up_readers log len)) = map reader_id (readers log)"
  by (simp add: fix_up_readers_eq)

lemma length_iov_bytes [simp]: "length (iov_bytes um iov) = sum_list (map snd iov)"
  by (induction iov) auto

lemma header_bounds:
  "hlen \<le> LOGGER_ENTRY_MAX_PAYLOAD \<Longrightarrow> sizeof_logger_entry + hlen \<le> LOGGER_ENTRY_MAX_LEN"
  "hlen \<le> LOGGER_ENTRY_MAX_PAYLOAD \<Longrightarrow> unat (of_nat hlen :: u16) = hlen"
  by (auto simp: LOGGER_ENTRY_MAX_PAYLOAD_def LOGGER_ENTRY_MAX_LEN_def sizeof_logger_entry_def
      unat_of_nat)

lemma encode_header_msg [simp]: "encode_header (e\<lparr>e_msg := m\<rparr>) = encode_header e"
  by (simp add: encode_header_def)

text \<open>The entry a write of \<open>hlen\<close> payload bytes records.\<close>

definition new_entry :: "logger_entry \<Rightarrow> u8 list \<Rightarrow> logger_entry" where
  "new_entry hdr msg = hdr\<lparr>e_len := of_nat (length msg), e_msg := msg\<rparr>"

lemma logger_write_ok_put:
  assumes shape: "log_shape log" and "hlen \<le> LOGGER_ENTRY_MAX_PAYLOAD" and "0 < hlen"
    and total: "hlen \<le> sum_list (map snd iov)"
    and run: "logger_aio_write_locked um orig hdr hlen iov log = (log', Inr r)"
  shows "\<exists>msg. map Some msg = take hlen (iov_bytes um iov) \<and> r = hlen \<and> length msg = hlen \<and>
    wf_entry (new_entry hdr msg) \<and>
    log' = put_bytes (fix_up_readers log (sizeof_logger_entry + hlen)) (encode_entry (new_entry hdr msg))"
proof -
  let ?l = "fix_up_readers log (sizeof_logger_entry + hlen)"
  let ?h = "encode_header (hdr\<lparr>e_len := of_nat hlen\<rparr>)"
  have size: "2 * LOGGER_ENTRY_MAX_LEN \<le> log_size log" by (rule log_shape_size [OF shape])
  have shape1: "log_shape ?l" using shape by simp
  have shape2: "log_shape (put_bytes ?l ?h)"
    using shape1 size by (intro log_shape_put) (auto simp: sizeof_logger_entry_def LOGGER_ENTRY_MAX_LEN_def)
  have "write_segments um orig hlen (put_bytes ?l ?h) 0 iov = (log', Inr r)"
    using run by (simp add: logger_aio_write_locked_def do_write_log_put shape Let_def)
  from write_segments_ok [OF shape2 _ _ this] obtain msg where
    msg: "log' = put_bytes (put_bytes ?l ?h) msg" "map Some msg = take hlen (iov_bytes um iov)"
      "r = length msg"
    using size header_bounds(1) [OF assms(2)] by auto
  have len: "length msg = hlen"
    using arg_cong [OF msg(2), of length] total by simp
  have "length ?h + length msg \<le> log_size ?l"
    using size header_bounds(1) [OF assms(2)] len by simp
  from put_bytes_append(1) [OF shape1 this] have "log' = put_bytes ?l (?h @ msg)"
    using msg(1) by simp
  then have "log' = put_bytes ?l (encode_entry (new_entry hdr msg))"
    by (simp add: encode_entry_def new_entry_def len)
  moreover have "wf_entry (new_entry hdr msg)"
    using header_bounds(2) [OF assms(2)] by (simp add: wf_entry_def new_entry_def len)
  ultimately show ?thesis using msg len by blast
qed

lemma logger_write_fail_clobber:
  assumes shape: "log_shape log" and "hlen \<le> LOGGER_ENTRY_MAX_PAYLOAD"
    and run: "logger_aio_write_locked um orig hdr hlen iov log = (log', Inl e)"
  shows "\<exists>bs. length bs \<le> sizeof_logger_entry + hlen \<and> e = EFAULT \<and>
    log' = (clobber (fix_up_readers log (sizeof_logger_entry + hlen)) bs)\<lparr>w_off := orig\<rparr>"
proof -
  let ?l = "fix_up_readers log (sizeof_logger_entry + hlen)"
  let ?h = "encode_header (hdr\<lparr>e_len := of_nat hlen\<rparr>)"
  have size: "2 * LOGGER_ENTRY_MAX_LEN \<le> log_size log" by (rule log_shape_size [OF shape])
  have shape1: "log_shape ?l" using shape by simp
  have shape2: "log_shape (put_bytes ?l ?h)"
    using shape1 size by (intro log_shape_put) (auto simp: sizeof_logger_entry_def LOGGER_ENTRY_MAX_LEN_def)
  have "write_segments um orig hlen (put_bytes ?l ?h) 0 iov = (log', Inl e)"
    using run by (simp add: logger_aio_write_locked_def do_write_log_put shape Let_def)
  from write_segments_fail [OF shape2 _ _ this] obtain bs where
    bs: "log' = (clobber (put_bytes ?l ?h) bs)\<lparr>w_off := orig\<rparr>" "length bs \<le> hlen" "e = EFAULT"
    using size header_bounds(1) [OF assms(2)] by auto
  have "length ?h + length bs \<le> log_size ?l"
    using size header_bounds(1) [OF assms(2)] bs(2) by simp
  from put_bytes_append(2) [OF shape1 this] show ?thesis
    using bs by (intro exI [of _ "?h @ bs"]) simp
qed

text \<open>
  The effect of one write on what can be read from each position: the entries it must make
  room for are dropped from the front, the new entry comes last.
\<close>

lemma logger_write_ok_positions:
  assumes "log_shape log" and "hlen \<le> LOGGER_ENTRY_MAX_PAYLOAD" and "0 < hlen"
    and "hlen \<le> sum_list (map snd iov)"
    and "logger_aio_write_locked um orig hdr hlen iov log = (log', Inr r)"
  obtains msg where "map Some msg = take hlen (iov_bytes um iov)" and "r = hlen"
    and "log_shape log'"
    and "positions log' = map (pull_forward log (sizeof_logger_entry + hlen)) (positions log)"
    and "map reader_id (readers log') = map reader_id (readers log)"
    and "\<And>x es. reads_as log x es \<Longrightarrow>
      reads_as log' (pull_forward log (sizeof_logger_entry + hlen) x)
        (kept_entries log (sizeof_logger_entry + hlen) es @ [new_entry hdr msg])"
proof -
  let ?n = "sizeof_logger_entry + hlen"
  let ?l = "fix_up_readers log ?n"
  obtain msg where msg: "map Some msg = take hlen (iov_bytes um iov)" "r = hlen"
      "length msg = hlen" "wf_entry (new_entry hdr msg)"
      "log' = put_bytes ?l (encode_entry (new_entry hdr msg))"
    using logger_write_ok_put [OF assms] by blast
  have n: "0 < ?n" "?n \<le> LOGGER_ENTRY_MAX_LEN"
    using header_bounds(1) [OF assms(2)] by (auto simp: sizeof_logger_entry_def)
  have len: "length (encode_entry (new_entry hdr msg)) = ?n"
    using msg(3) by (simp add: length_encode_entry new_entry_def)
  show ?thesis
  proof (rule that [OF msg(1,2)])
    show "log_shape log'"
      using assms(1) log_shape_size [OF assms(1)] n len by (auto simp: msg(5) intro!: log_shape_put)
    show "positions log' = map (pull_forward log ?n) (positions log)"
      by (simp add: msg(5) positions_fix_up)
    show "map reader_id (readers log') = map reader_id (readers log)"
      by (simp add: msg(5))
    fix x es
    assume reads: "reads_as log x es"
    show "reads_as log' (pull_forward log ?n x) (kept_entries log ?n es @ [new_entry hdr msg])"
      unfolding msg(5)
      using pull_forward_reads [OF assms(1) reads n] assms(1) msg(4) len
      by (intro reads_as_put) auto
  qed
qed

lemma logger_write_fail_positions:
  assumes "log_shape log" and "hlen \<le> LOGGER_ENTRY_MAX_PAYLOAD"
    and "logger_aio_write_locked um (w_off log) hdr hlen iov log = (log', Inl e)"
  shows "e = EFAULT \<and> log_shape log' \<and>
    positions log' = map (pull_forward log (sizeof_logger_entry + hlen)) (positions log) \<and>
    map reader_id (readers log') = map reader_id (readers log) \<and>
    (\<forall>x es. reads_as log x es \<longrightarrow>
      reads_as log' (pull_forward log (sizeof_logger_entry + hlen) x)
        (kept_entries log (sizeof_logger_entry + hlen) es))"
proof -
  let ?n = "sizeof_logger_entry + hlen"
  let ?l = "fix_up_readers log ?n"
  obtain bs where bs: "length bs \<le> ?n" "e = EFAULT"
      "log' = (clobber ?l bs)\<lparr>w_off := w_off log\<rparr>"
    using logger_write_fail_clobber [OF assms] by blast
  then have log': "log' = clobber ?l bs"
    by (simp add: clobber_def)
  have n: "0 < ?n" "?n \<le> LOGGER_ENTRY_MAX_LEN"
    using header_bounds(1) [OF assms(2)] by (auto simp: sizeof_logger_entry_def)
  have "reads_as log' (pull_forward log ?n x) (kept_entries log ?n es)" if "reads_as log x es" for x es
    unfolding log' using pull_forward_reads [OF assms(1) that n] assms(1) bs(1)
    by (intro reads_as_clobber) auto
  moreover have "log_shape log'"
    using assms(1) log_shape_size [OF assms(1)] n bs(1) by (auto simp: log' intro!: log_shape_clobber)
  ultimately show ?thesis
    using bs(2) by (simp add: log' positions_fix_up)
qed

subsection \<open>Reading\<close>

lemma do_read_entry:
  assumes shape: "log_shape log" and "r_off r < log_size log" and "k \<le> log_size log"
    and run: "do_read_log_to_user um log r buf k = (um', r', Inr n)"
  shows "n = k \<and> r' = r\<lparr>r_off := (r_off r + k) mod log_size log\<rparr> \<and>
    map (ubyte um') [buf ..< buf + k] = map Some (ring_get (log_buf log) (r_off r) k)"
proof -
  let ?x = "r_off r" and ?b = "log_buf log"
  define len where "len = min k (log_size log - ?x)"
  define xs where "xs = take len (drop ?x ?b)"
  define ys where "ys = take (k - len) ?b"
  have buf: "length ?b = log_size log" using shape by (simp add: log_shape_def)
  have lx: "length xs = len" and ly: "length ys = k - len" and le: "len \<le> k"
    using buf assms(2,3) by (auto simp: xs_def ys_def len_def)
  have get: "ring_get ?b ?x k = xs @ ys"
    using ring_get_two_parts [of ?x ?b k] buf assms(2,3) by (simp add: xs_def ys_def len_def)
  obtain um1 n1 where c1: "copy_to_user um buf xs = (um1, n1)" by fastforce
  obtain um2 n2 where c2: "copy_to_user um1 (buf + len) ys = (um2, n2)" by fastforce
  have nil: "ys = [] \<Longrightarrow> um2 = um1 \<and> n2 = 0"
    using c2 by auto
  have eq: "do_read_log_to_user um log r buf k =
    (if n1 \<noteq> 0 then (um1, r, Inl EFAULT)
     else if n2 \<noteq> 0 then (um2, r, Inl EFAULT)
     else (um2, r\<lparr>r_off := (?x + k) mod log_size log\<rparr>, Inr k))"
    using c1 c2 nil ly le
    by (auto simp: do_read_log_to_user_def Let_def len_def [symmetric] xs_def [symmetric]
        ys_def [symmetric] logger_offset_mod [OF shape])
  with run have ok: "n1 = 0" "n2 = 0" and res: "n = k" "um' = um2"
      "r' = r\<lparr>r_off := (?x + k) mod log_size log\<rparr>"
    by (auto split: if_splits)
  have w1: "xs = [] \<or> writable um buf (length xs)"
    using c1 ok(1) copy_to_user_complete_iff [of um buf xs] by simp
  have w2: "ys = [] \<or> writable um (buf + len) (length ys)"
    using c2 ok(2) copy_to_user_complete_iff [of um1 "buf + len" ys] c1 writable_frame [of um buf xs]
    by simp
  have "k = 0 \<or> writable um buf (length xs + length ys)"
  proof (cases "k = 0")
    case False
    then have "xs \<noteq> []" using lx assms(2) by (auto simp: len_def)
    with w1 w2 show ?thesis by (cases "ys = []") (auto simp: writable_def access_ok_def lx)
  qed simp
  then show ?thesis
  proof
    assume "k = 0"
    then show ?thesis using res by (simp add: ring_get_def)
  next
    assume w: "writable um buf (length xs + length ys)"
    have "um2 = fst (copy_to_user um buf (xs @ ys))"
      using copy_to_user_append [OF w] c1 c2 lx by simp
    then show ?thesis
      using res get copy_to_user_contents [of um buf "xs @ ys"] w lx ly le by simp
  qed
qed

lemma do_read_completes:
  assumes shape: "log_shape log" and "r_off r < log_size log" and "k \<le> log_size log"
    and w: "writable um buf k"
  shows "\<exists>um' r'. do_read_log_to_user um log r buf k = (um', r', Inr k)"
proof -
  let ?x = "r_off r" and ?b = "log_buf log"
  define len where "len = min k (log_size log - ?x)"
  define xs where "xs = take len (drop ?x ?b)"
  define ys where "ys = take (k - len) ?b"
  have buf: "length ?b = log_size log" using shape by (simp add: log_shape_def)
  have lx: "length xs = len" and ly: "length ys = k - len" and le: "len \<le> k"
    using buf assms(2,3) by (auto simp: xs_def ys_def len_def)
  have k: "k = length xs + length ys" using lx ly le by simp
  obtain um1 n1 where c1: "copy_to_user um buf xs = (um1, n1)" by fastforce
  obtain um2 n2 where c2: "copy_to_user um1 (buf + len) ys = (um2, n2)" by fastforce
  have "n1 = 0" "n2 = 0"
    using c1 c2 w writable_split [of um buf "length xs" "length ys"] writable_frame [of um buf xs]
      copy_to_user_complete_iff [of um buf xs] copy_to_user_complete_iff [of um1 "buf + len" ys] lx
    by (simp_all add: k)
  then show ?thesis
    using c1 c2 by (auto simp: do_read_log_to_user_def Let_def len_def [symmetric] xs_def [symmetric]
        ys_def [symmetric] split: prod.splits)
qed

lemma reads_as_front:
  assumes "log_shape log" and "reads_as log x (e # es)"
  shows "ring_get (log_buf log) x (length (encode_entry e)) = encode_entry e"
    and "length (encode_entry e) \<le> log_size log"
    and "reads_as log ((x + length (encode_entry e)) mod log_size log) es"
    and "w_off log \<noteq> x"
proof -
  have bytes: "ring_get (log_buf log) x (length (encode_all (e # es))) = encode_all (e # es)"
    and lt: "length (encode_all (e # es)) < log_size log"
    using assms(2) by (auto simp: reads_as_def)
  from arg_cong [OF bytes, of "take (length (encode_entry e))"]
  show "ring_get (log_buf log) x (length (encode_entry e)) = encode_entry e"
    by (simp add: ring_get_def min_def)
  show "length (encode_entry e) \<le> log_size log" using lt by simp
  show "reads_as log ((x + length (encode_entry e)) mod log_size log) es"
    using reads_as_tail [of log x "[e]" es] assms by simp
  show "w_off log \<noteq> x"
    using reads_as_dist [OF assms] lt by (auto simp: ring_dist_def)
qed

lemma reads_as_empty: "reads_as log x [] \<longleftrightarrow> x < log_size log \<and> w_off log = x"
  by (auto simp: reads_as_def ring_get_def)

lemma logger_read_entry_cases:
  assumes shape: "log_shape log" and reads: "reads_as log (r_off r) es"
    and run: "logger_read_entry um log r buf count = (um', r', Returns (Inr n))"
  shows "\<exists>e fs. es = e # fs \<and> n = length (encode_entry e) \<and>
    reader_id r' = reader_id r \<and> reads_as log (r_off r') fs \<and>
    map (ubyte um') [buf ..< buf + n] = map Some (encode_entry e)"
proof -
  have "es \<noteq> []"
    using run reads reads_as_empty [of log "r_off r"] by (auto simp: logger_read_entry_def)
  then obtain e fs where es: "es = e # fs" by (cases es) auto
  note front = reads_as_front [OF shape reads [unfolded es]]
  have "do_read_log_to_user um log r buf (length (encode_entry e)) = (um', r', Inr n)"
    using run front(4) get_entry_len_reads [OF shape reads [unfolded es]]
    by (auto simp: logger_read_entry_def Let_def split: if_splits prod.splits)
  from do_read_entry [OF shape _ front(2) this] reads
  show ?thesis using front(1,3) es by (auto simp: reads_as_def)
qed

lemma do_read_error_reader:
  "do_read_log_to_user um log r buf k = (um', r', Inl e) \<Longrightarrow> r' = r"
  by (auto simp: do_read_log_to_user_def Let_def split: prod.splits if_splits)

lemma logger_read_entry_error_reader:
  "logger_read_entry um log r buf count = (um', r', res) \<Longrightarrow> (\<forall>n. res \<noteq> Returns (Inr n)) \<Longrightarrow> r' = r"
  by (auto simp: logger_read_entry_def Let_def split: if_splits prod.splits sum.splits)
    (metis do_read_error_reader sum.exhaust)


lemma find_reader_Some:
  assumes "find_reader log i = Some r"
  shows "r \<in> set (readers log)" and "reader_id r = i"
  using assms by (auto simp: find_reader_def find_Some_iff)

lemma find_reader_nth:
  assumes "map reader_id rs = map reader_id rs'" and "find (\<lambda>r. reader_id r = i) rs = Some r"
  shows "\<exists>k < length rs. rs ! k = r \<and> find (\<lambda>r. reader_id r = i) rs' = Some (rs' ! k)"
proof -
  from assms(2) obtain k where k: "k < length rs" "reader_id (rs ! k) = i" "r = rs ! k"
      "\<forall>j<k. reader_id (rs ! j) \<noteq> i"
    by (auto simp: find_Some_iff)
  have len: "length rs = length rs'" using arg_cong [OF assms(1), of length] by simp
  have "reader_id (rs ! j) = reader_id (rs' ! j)" if "j < length rs" for j
    using assms(1) that len by (metis nth_map)
  then have "find (\<lambda>r. reader_id r = i) rs' = Some (rs' ! k)"
    using k len by (auto simp: find_Some_iff intro!: exI [of _ k])
  then show ?thesis using k by blast
qed

lemma find_reader_positions:
  assumes "map reader_id (readers log') = map reader_id (readers log)"
    and "positions log' = map f (positions log)" and "find_reader log i = Some r"
  shows "\<exists>r'. find_reader log' i = Some r' \<and> r_off r' = f (r_off r)"
proof -
  have len: "length (readers log') = length (readers log)"
    using arg_cong [OF assms(1), of length] by simp
  obtain k where k: "k < length (readers log)" "readers log ! k = r"
      "find_reader log' i = Some (readers log' ! k)"
    using find_reader_nth [OF assms(1) [symmetric]] assms(3) by (auto simp: find_reader_def)
  have "map r_off (readers log') = map (f \<circ> r_off) (readers log)"
    using assms(2) by (simp add: positions_def)
  then have "map r_off (readers log') ! k = map (f \<circ> r_off) (readers log) ! k" by simp
  then show ?thesis using k len by auto
qed

lemma find_set_reader:
  assumes "find_reader log i = Some r" and "reader_id q = j"
  shows "find_reader (set_reader log q) i = Some (if j = i then q else r)"
proof -
  obtain k where k: "k < length (readers log)" "reader_id (readers log ! k) = i"
      "r = readers log ! k" "\<forall>m<k. reader_id (readers log ! m) \<noteq> i"
    using assms(1) by (auto simp: find_reader_def find_Some_iff)
  then show ?thesis
    using assms(2)
    by (auto simp: find_reader_def set_reader_def find_Some_iff split: if_splits intro!: exI [of _ k])
qed

lemma set_reader_frame [simp]:
  "log_shape (set_reader log q) = log_shape log" "reads_as (set_reader log q) = reads_as log"
  "log_head (set_reader log q) = log_head log"
  by (auto simp: set_reader_def log_shape_def reads_as_def intro!: ext)

text \<open>\<open>same_but_reader i log log'\<close>: only the reader of file \<open>i\<close> may differ.\<close>

definition same_but_reader :: "nat \<Rightarrow> logger_log \<Rightarrow> logger_log \<Rightarrow> bool" where
  "same_but_reader i log log' \<longleftrightarrow>
     log\<lparr>readers := []\<rparr> = log'\<lparr>readers := []\<rparr> \<and> map reader_id (readers log') = map reader_id (readers log) \<and>
     filter (\<lambda>r. reader_id r \<noteq> i) (readers log') = filter (\<lambda>r. reader_id r \<noteq> i) (readers log)"

lemma same_but_set_reader: "reader_id q = i \<Longrightarrow> same_but_reader i log (set_reader log q)"
proof -
  assume q: "reader_id q = i"
  have "filter (\<lambda>r. reader_id r \<noteq> i) (map (\<lambda>p. if reader_id p = i then q else p) rs) =
      filter (\<lambda>r. reader_id r \<noteq> i) rs" for rs
    using q by (induction rs) auto
  then show ?thesis using q by (auto simp: same_but_reader_def set_reader_def)
qed

lemma set_same_reader:
  assumes "find_reader log i = Some r" and "distinct (map reader_id (readers log))"
  shows "set_reader log r = log"
proof -
  have "r \<in> set (readers log)" using assms(1) by (auto simp: find_reader_def find_Some_iff)
  then have "(if reader_id p = reader_id r then r else p) = p" if "p \<in> set (readers log)" for p
    using that assms(2) by (auto simp: distinct_map inj_on_def)
  then have "map (\<lambda>p. if reader_id p = reader_id r then r else p) (readers log) = readers log"
    by (intro map_idI)
  then show ?thesis by (simp add: set_reader_def)
qed

lemma log_inv_set_reader:
  assumes "log_inv log" and "reads_as log (r_off q) es"
  shows "log_inv (set_reader log q)"
  using assms by (auto simp: log_inv_def) (auto simp: set_reader_def)

subsection \<open>Runs\<close>

text \<open>
  What reader \<open>i\<close> of a log can observe. One step is one call of the driver, by reader \<open>i\<close>
  itself, by a writer, or by anybody else; calls that fail or sleep are steps too. The label
  of a read is the bytes it left in the user's buffer.
\<close>

inductive logger_step :: "nat \<Rightarrow> logger_log \<Rightarrow> u8 list fifo_event \<Rightarrow> logger_log \<Rightarrow> bool"
  for i :: nat where
  write_ok:
    "logger_aio_write um hdr ki_left iov log = (log', Inr n) \<Longrightarrow> ki_left = sum_list (map snd iov) \<Longrightarrow>
     0 < n \<Longrightarrow> map Some msg = take n (iov_bytes um iov) \<Longrightarrow>
     logger_step i log (Wrote (encode_entry (new_entry hdr msg))) log'"
| write_empty: "logger_aio_write um hdr 0 iov log = (log', Inr n) \<Longrightarrow> logger_step i log Silent log'"
| write_fails: "logger_aio_write um hdr ki_left iov log = (log', Inl e) \<Longrightarrow> logger_step i log Silent log'"
| read_ok:
    "logger_read um log i nonblock sig buf count = Some (um', log', Read_returns (Inr n)) \<Longrightarrow>
     map (ubyte um') [buf ..< buf + n] = map Some bs \<Longrightarrow> logger_step i log (Got bs) log'"
| read_other:
    "logger_read um log j nonblock sig buf count = Some (um', log', res) \<Longrightarrow>
     j \<noteq> i \<or> (\<forall>n. res \<noteq> Read_returns (Inr n)) \<Longrightarrow> logger_step i log Silent log'"
| flush: "logger_step i log Silent (flush_log log)"
| opens: "j \<notin> reader_id ` set (readers log) \<Longrightarrow> logger_step i log Silent (add_reader log j)"
| releases: "j \<noteq> i \<Longrightarrow> logger_step i log Silent (del_reader log j)"

definition reader_pending :: "nat \<Rightarrow> logger_log \<Rightarrow> u8 list list \<Rightarrow> bool" where
  "reader_pending i log ms \<longleftrightarrow>
     (\<exists>r es. find_reader log i = Some r \<and> reads_as log (r_off r) es \<and> ms = map encode_entry es)"

lemma logger_aio_write_locked_eq:
  assumes "logger_aio_write um hdr ki_left iov log = (log', res)" and "0 < ki_left"
  shows "logger_aio_write_locked um (w_off log) hdr (min ki_left LOGGER_ENTRY_MAX_PAYLOAD) iov log
    = (log', res)" and "0 < min ki_left LOGGER_ENTRY_MAX_PAYLOAD"
  using assms by (auto simp: logger_aio_write_def Let_def LOGGER_ENTRY_MAX_PAYLOAD_def
      LOGGER_ENTRY_MAX_LEN_def sizeof_logger_entry_def split: if_splits)

lemma write_ok_step:
  assumes inv: "log_inv log" and run: "logger_aio_write um hdr ki_left iov log = (log', Inr n)"
    and total: "ki_left = sum_list (map snd iov)" and "0 < n"
  shows "log_inv log'" and "n = min ki_left LOGGER_ENTRY_MAX_PAYLOAD"
    and "\<lbrakk>map Some msg = take n (iov_bytes um iov); find_reader log i = Some r;
          reads_as log (r_off r) es\<rbrakk> \<Longrightarrow>
      \<exists>r'. find_reader log' i = Some r' \<and>
        reads_as log' (r_off r') (kept_entries log (sizeof_logger_entry + n) es @ [new_entry hdr msg])"
proof -
  have ki: "0 < ki_left"
    using run \<open>0 < n\<close> by (cases ki_left) (auto simp: logger_aio_write_def)
  let ?h = "min ki_left LOGGER_ENTRY_MAX_PAYLOAD"
  note w = logger_aio_write_locked_eq [OF run ki]
  have shape: "log_shape log" using inv by (simp add: log_inv_def)
  have le: "?h \<le> LOGGER_ENTRY_MAX_PAYLOAD" "?h \<le> sum_list (map snd iov)"
    by (simp_all add: total)
  obtain msg' where m: "map Some msg' = take ?h (iov_bytes um iov)" "n = ?h" "log_shape log'"
      "positions log' = map (pull_forward log (sizeof_logger_entry + ?h)) (positions log)"
      "map reader_id (readers log') = map reader_id (readers log)"
      "\<And>x es. reads_as log x es \<Longrightarrow> reads_as log' (pull_forward log (sizeof_logger_entry + ?h) x)
        (kept_entries log (sizeof_logger_entry + ?h) es @ [new_entry hdr msg'])"
    using logger_write_ok_positions [OF shape le(1) w(2) le(2) w(1)] by metis
  show "n = ?h" by (rule m(2))
  show "log_inv log'"
    using inv m(3,4,6) by (fastforce simp: log_inv_positions)
  assume msg: "map Some msg = take n (iov_bytes um iov)" and r: "find_reader log i = Some r"
    and es: "reads_as log (r_off r) es"
  have "msg' = msg"
    using m(1,2) msg by (metis list.inj_map_strong option.inject)
  with find_reader_positions [OF m(5,4) r] m(2) m(6) [OF es]
  show "\<exists>r'. find_reader log' i = Some r' \<and>
      reads_as log' (r_off r') (kept_entries log (sizeof_logger_entry + n) es @ [new_entry hdr msg])"
    by auto
qed

lemma write_fail_step:
  assumes inv: "log_inv log" and run: "logger_aio_write um hdr ki_left iov log = (log', Inl e)"
  shows "log_inv log'" and "e = EFAULT" and "w_off log' = w_off log"
    and "\<lbrakk>find_reader log i = Some r; reads_as log (r_off r) es\<rbrakk> \<Longrightarrow>
      \<exists>r' kept. find_reader log' i = Some r' \<and> suffix kept es \<and> reads_as log' (r_off r') kept"
proof -
  have ki: "0 < ki_left"
    using run by (cases ki_left) (auto simp: logger_aio_write_def)
  let ?h = "min ki_left LOGGER_ENTRY_MAX_PAYLOAD"
  note w = logger_aio_write_locked_eq [OF run ki]
  have shape: "log_shape log" using inv by (simp add: log_inv_def)
  have le: "?h \<le> LOGGER_ENTRY_MAX_PAYLOAD" by simp
  note m = logger_write_fail_positions [OF shape le w(1)]
  show "e = EFAULT" using m by simp
  show "log_inv log'"
    using inv m by (fastforce simp: log_inv_positions)
  show "w_off log' = w_off log"
    using logger_write_fail_clobber [OF shape le w(1)] by auto
  assume r: "find_reader log i = Some r" and es: "reads_as log (r_off r) es"
  from m find_reader_positions [OF _ _ r] obtain r' where
    "find_reader log' i = Some r'" "r_off r' = pull_forward log (sizeof_logger_entry + ?h) (r_off r)"
    by blast
  with m es show "\<exists>r' kept. find_reader log' i = Some r' \<and> suffix kept es \<and> reads_as log' (r_off r') kept"
    using kept_entries_suffix by metis
qed


lemma logger_read_step:
  assumes inv: "log_inv log" and r: "find_reader log j = Some r"
    and es: "reads_as log (r_off r) es"
    and run: "logger_read um log j nonblock sig buf count = Some (um', log', res)"
  obtains (got) e fs n q where "res = Read_returns (Inr n)"
      and "es = e # fs" and "n = length (encode_entry e)"
      and "map (ubyte um') [buf ..< buf + n] = map Some (encode_entry e)"
      and "log' = set_reader log q" and "reader_id q = j" and "reads_as log (r_off q) fs"
      and "log_inv log'"
  | (idle) "\<forall>n. res \<noteq> Read_returns (Inr n)"
      and "log' = log \<or> log' = set_reader log r" and "log_inv log'"
proof -
  note rj = find_reader_Some [OF r]
  have shape: "log_shape log" using inv by (simp add: log_inv_def)
  show thesis
  proof (cases "logger_read_wait log r nonblock sig")
    case (Fails e)
    with run r inv show ?thesis by (intro idle) (auto simp: logger_read_def)
  next
    case Sleeps
    with run r inv show ?thesis by (intro idle) (auto simp: logger_read_def)
  next
    case Ready
    obtain q er where e: "logger_read_entry um log r buf count = (um', q, er)"
        and log': "log' = set_reader log q"
        and res: "res = (case er of Again \<Rightarrow> Read_sleeps | Returns x \<Rightarrow> Read_returns x)"
      using run r Ready by (auto simp: logger_read_def Let_def split: prod.splits)
    show ?thesis
    proof (cases "\<exists>n. er = Returns (Inr n)")
      case True
      then obtain n where er: "er = Returns (Inr n)" by blast
      from logger_read_entry_cases [OF shape es e [unfolded er]] obtain e1 fs where
        c: "es = e1 # fs" "n = length (encode_entry e1)" "reader_id q = reader_id r"
          "reads_as log (r_off q) fs" "map (ubyte um') [buf ..< buf + n] = map Some (encode_entry e1)"
        by blast
      show ?thesis
      proof (rule got)
        show "log_inv log'" unfolding log' by (rule log_inv_set_reader [OF inv c(4)])
      qed (use c es er res log' rj in auto)
    next
      case False
      then have "q = r" using logger_read_entry_error_reader [OF e] by blast
      show ?thesis
      proof (rule idle)
        show "log_inv log'" unfolding log' \<open>q = r\<close> by (rule log_inv_set_reader [OF inv es])
      qed (use log' \<open>q = r\<close> False res in \<open>auto split: entry_result.splits\<close>)
    qed
  qed
qed

lemma logger_read_inv:
  assumes inv: "log_inv log"
    and run: "logger_read um log j nonblock sig buf count = Some (um', log', res)"
  shows "log_inv log'"
proof -
  obtain r where r: "find_reader log j = Some r"
    using run by (auto simp: logger_read_def split: option.splits)
  then obtain es where "reads_as log (r_off r) es"
    using inv find_reader_Some [OF r] by (auto simp: log_inv_def)
  from logger_read_step [OF inv r this run] show ?thesis by blast
qed

lemma log_shape_flush [simp]: "log_shape (flush_log log) = log_shape log"
  by (simp add: flush_log_def log_shape_def)

lemma reads_as_flush: "log_shape log \<Longrightarrow> reads_as (flush_log log) (w_off log) []"
  by (simp add: reads_as_empty flush_log_def log_shape_def)

lemma log_inv_flush: "log_inv log \<Longrightarrow> log_inv (flush_log log)"
proof -
  assume "log_inv log"
  then have s: "log_shape log" by (simp add: log_inv_def)
  have "\<forall>x \<in> set (positions (flush_log log)). x = w_off log"
    by (auto simp: positions_def flush_log_def)
  then show ?thesis
    using s reads_as_flush [OF s] by (auto simp: log_inv_positions)
qed

lemma add_reader_frame [simp]:
  "log_shape (add_reader log j) = log_shape log" "reads_as (add_reader log j) = reads_as log"
  "log_shape (del_reader log j) = log_shape log" "reads_as (del_reader log j) = reads_as log"
  "log_head (add_reader log j) = log_head log" "log_head (del_reader log j) = log_head log"
  by (auto simp: add_reader_def del_reader_def log_shape_def reads_as_def intro!: ext)

lemma log_inv_add_reader: "log_inv log \<Longrightarrow> log_inv (add_reader log j)"
  by (auto simp: log_inv_def) (auto simp: add_reader_def)

lemma log_inv_del_reader: "log_inv log \<Longrightarrow> log_inv (del_reader log j)"
  by (auto simp: log_inv_def) (auto simp: del_reader_def)

lemma find_del_reader: "j \<noteq> i \<Longrightarrow> find_reader (del_reader log j) i = find_reader log i"
proof -
  assume "j \<noteq> i"
  then have "find (\<lambda>r. reader_id r = i) (filter (\<lambda>r. reader_id r \<noteq> j) rs) =
      find (\<lambda>r. reader_id r = i) rs" for rs
    by (induction rs) auto
  then show ?thesis by (simp add: find_reader_def del_reader_def)
qed

lemma find_append:
  "find P (xs @ ys) = (case find P xs of None \<Rightarrow> find P ys | Some x \<Rightarrow> Some x)"
  by (induction xs) auto

lemma find_flush_reader:
  "find_reader log i = Some r \<Longrightarrow> \<exists>r'. find_reader (flush_log log) i = Some r' \<and> r_off r' = w_off log"
proof -
  have "find (\<lambda>r. reader_id r = i) (map (\<lambda>r. r\<lparr>r_off := w\<rparr>) rs) =
      map_option (\<lambda>r. r\<lparr>r_off := w\<rparr>) (find (\<lambda>r. reader_id r = i) rs)" for rs :: "logger_reader list" and w
    by (induction rs) auto
  then show "find_reader log i = Some r \<Longrightarrow> \<exists>r'. find_reader (flush_log log) i = Some r' \<and> r_off r' = w_off log"
    by (auto simp: find_reader_def flush_log_def)
qed

lemma logger_step_inv: "logger_step i log ev log' \<Longrightarrow> log_inv log \<Longrightarrow> log_inv log'"
proof (induction rule: logger_step.induct)
  case (write_ok um hdr ki_left iov log log' n msg)
  then show ?case by (auto intro: write_ok_step(1))
next
  case (write_empty um hdr iov log log' n)
  then show ?case by (simp add: logger_aio_write_def)
next
  case (write_fails um hdr ki_left iov log log' e)
  then show ?case by (auto intro: write_fail_step(1))
next
  case (read_ok um log nonblock sig buf count um' log' n bs)
  then show ?case by (auto intro: logger_read_inv)
next
  case (read_other um log j nonblock sig buf count um' log' res)
  then show ?case by (auto intro: logger_read_inv)
qed (simp_all add: log_inv_flush log_inv_add_reader log_inv_del_reader)

inductive_cases logger_step_WroteE: "logger_step i log (Wrote m) log'"
inductive_cases logger_step_GotE: "logger_step i log (Got m) log'"
inductive_cases logger_step_SilentE: "logger_step i log Silent log'"

lemma reader_pending_write:
  assumes "log_inv log" and "reader_pending i log ms" and "logger_step i log (Wrote m) log'"
  shows "\<exists>kept. suffix kept ms \<and> reader_pending i log' (kept @ [m])"
proof -
  obtain r es where r: "find_reader log i = Some r" "reads_as log (r_off r) es"
      "ms = map encode_entry es"
    using assms(2) by (auto simp: reader_pending_def)
  from assms(3) obtain um hdr iov n msg where
    m: "m = encode_entry (new_entry hdr msg)"
    and run: "logger_aio_write um hdr (sum_list (map snd iov)) iov log = (log', Inr n)"
    and n: "0 < n" and msg: "map Some msg = take n (iov_bytes um iov)"
    by (auto elim: logger_step_WroteE)
  from write_ok_step(3) [OF assms(1) run refl n msg r(1,2)]
  have "reader_pending i log' (map encode_entry (kept_entries log (sizeof_logger_entry + n) es) @ [m])"
    by (force simp: reader_pending_def m)
  moreover have "suffix (map encode_entry (kept_entries log (sizeof_logger_entry + n) es)) ms"
    using kept_entries_suffix by (auto simp: r(3) map_mono_suffix)
  ultimately show ?thesis by blast
qed

lemma reader_pending_read:
  assumes "log_inv log" and "reader_pending i log ms" and "logger_step i log (Got m) log'"
  shows "\<exists>rest. ms = m # rest \<and> reader_pending i log' rest"
proof -
  obtain r es where r: "find_reader log i = Some r" "reads_as log (r_off r) es"
      "ms = map encode_entry es"
    using assms(2) by (auto simp: reader_pending_def)
  from assms(3) obtain um nonblock sig buf count um' n where
    run: "logger_read um log i nonblock sig buf count = Some (um', log', Read_returns (Inr n))"
    and m: "map (ubyte um') [buf ..< buf + n] = map Some m"
    by (auto elim: logger_step_GotE)
  show ?thesis
  proof (rule logger_read_step [OF assms(1) r(1,2) run])
    fix e fs k q
    assume "Read_returns (Inr n) = Read_returns (Inr k)" and "es = e # fs"
      and bytes: "map (ubyte um') [buf ..< buf + k] = map Some (encode_entry e)"
      and "log' = set_reader log q" and "reader_id q = i" and "reads_as log (r_off q) fs"
    then have "map Some m = map Some (encode_entry e)" using m by simp
    then have "m = encode_entry e" by (metis list.inj_map_strong option.inject)
    moreover have "reader_pending i log' (map encode_entry fs)"
      using find_set_reader [OF r(1) \<open>reader_id q = i\<close>] \<open>log' = _\<close> \<open>reads_as log (r_off q) fs\<close>
      by (auto simp: reader_pending_def)
    ultimately show ?thesis using \<open>es = e # fs\<close> r(3) by auto
  qed simp
qed

lemma reader_pending_silent:
  assumes "log_inv log" and "reader_pending i log ms" and "logger_step i log Silent log'"
  shows "\<exists>kept. suffix kept ms \<and> reader_pending i log' kept"
proof -
  obtain r es where r: "find_reader log i = Some r" "reads_as log (r_off r) es"
      "ms = map encode_entry es"
    using assms(2) by (auto simp: reader_pending_def)
  have keep: "\<exists>kept. suffix kept ms \<and> reader_pending i log' kept"
    if "find_reader log' i = Some r'" "reads_as log' (r_off r') fs" "suffix fs es" for r' fs
    using that r(3) by (intro exI [of _ "map encode_entry fs"])
      (auto simp: reader_pending_def map_mono_suffix)
  from assms(3) show ?thesis
  proof (cases rule: logger_step.cases)
    case write_empty
    then show ?thesis using keep [of r es] r by (simp add: logger_aio_write_def)
  next
    case write_fails
    then show ?thesis using write_fail_step(4) [OF assms(1) _ r(1,2)] keep by blast
  next
    case (read_other um j nonblock sig buf count um' res)
    show ?thesis
    proof (cases "j = i")
      case True
      with read_other have run: "logger_read um log i nonblock sig buf count = Some (um', log', res)"
        and nores: "\<forall>n. res \<noteq> Read_returns (Inr n)" by auto
      from logger_read_step [OF assms(1) r(1,2) run] nores have "log' = log \<or> log' = set_reader log r"
        by blast
      then show ?thesis
        using keep [of r es] r find_set_reader [OF r(1), of r] find_reader_Some [OF r(1)] by auto
    next
      case False
      obtain q where q: "find_reader log j = Some q"
        using read_other(1) by (auto simp: logger_read_def split: option.splits)
      then obtain fs where fs: "reads_as log (r_off q) fs"
        using assms(1) find_reader_Some [OF q] by (auto simp: log_inv_def)
      have "log' = log \<or> (\<exists>q'. log' = set_reader log q' \<and> reader_id q' = j)"
        using logger_read_step [OF assms(1) q fs read_other(1)] find_reader_Some [OF q] by metis
      then show ?thesis
        using keep [of r es] r find_set_reader [OF r(1)] False by auto
    qed
  next
    case flush
    have "log_shape log" using assms(1) by (simp add: log_inv_def)
    then show ?thesis
      using flush find_flush_reader [OF r(1)] reads_as_flush keep [of _ "[]"] by fastforce
  next
    case (opens j)
    then have "find_reader log' i = Some r"
      using r(1) by (simp add: find_reader_def add_reader_def find_append)
    then show ?thesis using keep [of r es] r opens by simp
  next
    case (releases j)
    then show ?thesis using keep [of r es] r by (simp add: find_del_reader)
  qed
qed

interpretation logger_fifo: lossy_fifo log_inv "reader_pending i" "logger_step i" for i
proof
  show "log_inv log \<Longrightarrow> logger_step i log ev log' \<Longrightarrow> log_inv log'" for log ev log'
    by (rule logger_step_inv)
qed (fact reader_pending_write reader_pending_read reader_pending_silent)+

lemma write_from_user_readable:
  assumes "log_shape log" and "readable um buf count"
  shows "\<exists>log'. do_write_log_from_user um log buf count = (log', Inr count)"
proof -
  define len where "len = min count (log_size log - w_off log)"
  have "readable um buf len" "readable um (buf + len) (count - len)"
    using readable_sub [OF assms(2), of 0 len] readable_sub [OF assms(2), of len "count - len"]
    by (simp_all add: len_def)
  then have "snd (copy_from_user um buf len) = 0"
      "snd (copy_from_user um (buf + len) (count - len)) = 0"
    by (auto dest: copy_from_user_readable)
  moreover have "len = 0 \<Longrightarrow> count = 0"
    using assms(1) by (auto simp: len_def log_shape_def)
  ultimately show ?thesis
    by (auto simp: do_write_log_from_user_def Let_def len_def [symmetric] split: prod.splits)
qed

lemma write_segments_readable:
  assumes "log_shape log" and "hlen - ret \<le> log_size log" and "ret \<le> hlen"
    and "\<forall>(base, len) \<in> set iov. readable um base len"
  shows "\<exists>log' r. write_segments um orig hlen log ret iov = (log', Inr r)"
  using assms
proof (induction iov arbitrary: log ret)
  case (Cons seg iov)
  obtain base l where seg: "seg = (base, l)" by fastforce
  define len where "len = min l (hlen - ret)"
  have "readable um (base + 0) len"
    using Cons.prems(4) seg by (intro readable_sub [of um base l]) (auto simp: len_def)
  then obtain log1 where w: "do_write_log_from_user um log base len = (log1, Inr len)"
    using write_from_user_readable [OF Cons.prems(1)] by fastforce
  then obtain bs where bs: "log1 = put_bytes log bs"
      "map (ubyte um) [base ..< base + len] = map Some bs"
    using write_from_user_cases [OF Cons.prems(1) w] by auto
  have "length bs = len" using arg_cong [OF bs(2), of length] by simp
  then have "log_shape log1" "hlen - (ret + len) \<le> log_size log1" "ret + len \<le> hlen"
    using Cons.prems(1,2,3) bs(1) by (auto simp: len_def intro!: log_shape_put)
  with Cons.IH [of log1 "ret + len"] Cons.prems(4) show ?case
    using w by (auto simp: seg len_def [symmetric] Let_def)
qed simp

lemma logger_write_succeeds:
  assumes "log_inv log" and "ki_left = sum_list (map snd iov)"
    and "\<forall>(base, len) \<in> set iov. readable um base len"
  shows "\<exists>log'. logger_aio_write um hdr ki_left iov log =
    (log', Inr (min ki_left LOGGER_ENTRY_MAX_PAYLOAD))"
proof (cases "ki_left = 0")
  case True
  then show ?thesis by (simp add: logger_aio_write_def)
next
  case False
  let ?h = "min ki_left LOGGER_ENTRY_MAX_PAYLOAD"
  have shape: "log_shape log" using assms(1) by (simp add: log_inv_def)
  have size: "2 * LOGGER_ENTRY_MAX_LEN \<le> log_size log" by (rule log_shape_size [OF shape])
  let ?l = "fix_up_readers log (sizeof_logger_entry + ?h)"
  let ?hd = "encode_header (hdr\<lparr>e_len := of_nat ?h\<rparr>)"
  have shape2: "log_shape (put_bytes ?l ?hd)"
    using shape size by (intro log_shape_put) (auto simp: sizeof_logger_entry_def LOGGER_ENTRY_MAX_LEN_def)
  have le: "?h - 0 \<le> log_size (put_bytes ?l ?hd)"
    using size header_bounds(1) [of ?h] by simp
  obtain log' r where "write_segments um (w_off log) ?h (put_bytes ?l ?hd) 0 iov = (log', Inr r)"
    using write_segments_readable [OF shape2 le _ assms(3)] by fastforce
  moreover have ne: "?h \<noteq> 0"
    using False by (auto simp: min_def LOGGER_ENTRY_MAX_PAYLOAD_def LOGGER_ENTRY_MAX_LEN_def
        sizeof_logger_entry_def)
  ultimately have run: "logger_aio_write um hdr ki_left iov log = (log', Inr r)"
    unfolding logger_aio_write_def Let_def if_not_P [OF ne] logger_aio_write_locked_def
    by (simp add: do_write_log_put shape)
  have "r = ?h"
    using logger_write_ok_put [OF shape, of ?h iov um "w_off log" hdr log' r]
      logger_aio_write_locked_eq [OF run] False assms(2) by auto
  with run show ?thesis by auto
qed

text \<open>With a lock held from the read of \<open>orig\<close> on, an entry once written stays written. The
  code takes the mutex only afterwards.\<close>

lemma stale_orig_drops_entry:
  assumes inv: "log_inv log" and reads: "reads_as log x es"
    and run1: "logger_aio_write um1 hdr1 ki1 iov1 log = (log1, Inr n1)" and "0 < n1"
    and total: "ki1 = sum_list (map snd iov1)"
    and h2: "hlen2 \<le> LOGGER_ENTRY_MAX_PAYLOAD"
    and run2: "logger_aio_write_locked um2 (w_off log) hdr2 hlen2 iov2 log1 = (log2, Inl e)"
    and room: "length (encode_all es) + (sizeof_logger_entry + n1) + (sizeof_logger_entry + hlen2)
      < log_size log"
  shows "\<exists>ent. reads_as log1 x (es @ [ent]) \<and> reads_as log2 x es"
proof -
  let ?k1 = "sizeof_logger_entry + n1" and ?k2 = "sizeof_logger_entry + hlen2"
  have shape: "log_shape log" using inv by (simp add: log_inv_def)
  have ki: "0 < ki1"
    using run1 \<open>0 < n1\<close> by (cases ki1) (auto simp: logger_aio_write_def)
  note w = logger_aio_write_locked_eq [OF run1 ki]
  obtain msg where m: "n1 = min ki1 LOGGER_ENTRY_MAX_PAYLOAD" "length msg = n1"
      "wf_entry (new_entry hdr1 msg)"
      "log1 = put_bytes (fix_up_readers log ?k1) (encode_entry (new_entry hdr1 msg))"
    using logger_write_ok_put [OF shape _ w(2) _ w(1)] total by auto
  let ?e = "new_entry hdr1 msg"
  have len: "length (encode_entry ?e) = ?k1"
    using m(2) by (simp add: length_encode_entry new_entry_def)
  have fit: "length (encode_all es) + length (encode_entry ?e) < log_size log"
    using room len by simp
  have r1: "reads_as log1 x (es @ [?e])"
    unfolding m(4) using reads_as_put [of "fix_up_readers log ?k1" x es ?e] shape reads m(3) fit by simp
  have shape1: "log_shape log1"
    using shape fit by (auto simp: m(4) intro!: log_shape_put)
  obtain bs where bs: "length bs \<le> ?k2" "log2 = (clobber (fix_up_readers log1 ?k2) bs)\<lparr>w_off := w_off log\<rparr>"
    using logger_write_fail_clobber [OF shape1 h2 run2] by blast
  have both: "length (encode_entry ?e) + length bs \<le> log_size (fix_up_readers log ?k1)"
    using room len bs(1) by simp
  have "log_buf log2 = log_buf (clobber (fix_up_readers log ?k1) (encode_entry ?e @ bs))"
    using ring_put_append [of "w_off log" "log_buf log" "encode_entry ?e" bs] both shape
    by (simp add: bs(2) m(4) log_shape_def)
  moreover have "w_off log2 = w_off log" "log_size log2 = log_size log"
    using bs(2) by (simp_all add: m(4))
  moreover have "reads_as (clobber (fix_up_readers log ?k1) (encode_entry ?e @ bs)) x es"
    using shape reads room len bs(1) by (intro reads_as_clobber) auto
  ultimately have "reads_as log2 x es"
    by (simp add: reads_as_def)
  with r1 show ?thesis by blast
qed

lemma log_len_pending:
  assumes "log_shape log" and "reads_as log (r_off r) es"
  shows "log_len log r = length (encode_all es)"
proof -
  have "log_len log r = (if ring_dist (log_size log) (w_off log) (r_off r) = 0 then 0
      else log_size log - ring_dist (log_size log) (w_off log) (r_off r))"
    using assms by (auto simp: log_len_def ring_dist_def log_shape_def reads_as_def)
  then show ?thesis
    using reads_as_dist [OF assms] assms(2) by (cases "es = []") (auto simp: reads_as_def)
qed

lemma log_inv_device:
  assumes "sz = 2 ^ k" and "LOGGER_ENTRY_MAX_LEN < sz"
  shows "log_inv (define_logger_device sz)" and "reads_as (define_logger_device sz) 0 []"
  using assms
  by (auto simp: log_inv_def log_shape_def define_logger_device_def reads_as_empty
      intro!: exI [of _ "[]"])

lemma log_inv_devices: "log_inv (logger_devices l)"
proof -
  have "log_inv (define_logger_device 65536)" "log_inv (define_logger_device 262144)"
    using log_inv_device(1) [of 65536 16] log_inv_device(1) [of 262144 18]
    by (simp_all add: LOGGER_ENTRY_MAX_LEN_def)
  then show ?thesis by (cases l) (simp_all add: logger_devices_def)
qed

section \<open>Properties\<close>

lemma logger_read_succeeds:
  assumes inv: "log_inv log" and r: "find_reader log i = Some r"
    and reads: "reads_as log (r_off r) (e # es)"
    and count: "length (encode_entry e) \<le> count" and w: "writable um buf (length (encode_entry e))"
  shows "\<exists>um' log'. logger_read um log i nonblock sig buf count =
    Some (um', log', Read_returns (Inr (length (encode_entry e))))"
proof -
  have shape: "log_shape log" using inv by (simp add: log_inv_def)
  note front = reads_as_front [OF shape reads]
  have x: "r_off r < log_size log" using reads by (simp add: reads_as_def)
  have "get_entry_len log (r_off r) = length (encode_entry e)"
    by (rule get_entry_len_reads [OF shape reads])
  moreover obtain um' q where
    "do_read_log_to_user um log r buf (length (encode_entry e)) = (um', q, Inr (length (encode_entry e)))"
    using do_read_completes [OF shape x front(2) w] by blast
  ultimately show ?thesis
    using r front(4) count
    by (auto simp: logger_read_def logger_read_wait_def logger_read_entry_def Let_def)
qed

text \<open>
  C1. Over any run of driver calls, what a reader of a log gets (each read yields the bytes of
  one entry), followed by what is still pending for it, is a subsequence of what was pending
  at the start followed by what was written: nothing is invented, torn, reordered or
  delivered twice, whatever the writers overwrite and whatever other readers do.
\<close>

theorem logger_reader_subsequence:
  assumes "trace (logger_step i) log evs log'" and "log_inv log" and "reader_pending i log ms"
  shows "\<exists>rest. reader_pending i log' rest \<and> subseq (got evs @ rest) (ms @ written evs)"
  using assms by (rule logger_fifo.trace_subseq)

text \<open>
  C2. A successful write of a non-empty vector returns the number \<open>n\<close> of payload bytes kept, keeps
  the invariant, and appends exactly one entry, with the caller's bytes, to what every reader
  and the start head can read. A position whose pending entries leave room for the new one loses
  nothing; one whose pending entries and the new entry do not fit (with a byte to spare) in the
  ring loses the shortest prefix of its entries that has at least the size of the new entry,
  header included, counted from the position itself (all of them, if together they are shorter).
  This can be more than what the new entry overwrites.
\<close>

theorem logger_write_appends:
  assumes "log_inv log" and "logger_aio_write um hdr ki_left iov log = (log', Inr n)"
    and "ki_left = sum_list (map snd iov)" and "0 < ki_left"
  shows "n = min ki_left LOGGER_ENTRY_MAX_PAYLOAD \<and> log_inv log' \<and>
    (\<exists>msg. map Some msg = take n (iov_bytes um iov) \<and>
      length (positions log') = length (positions log) \<and>
      (\<forall>k < length (positions log). \<forall>es. reads_as log (positions log ! k) es \<longrightarrow>
        reads_as log' (positions log' ! k)
          ((if length (encode_all es) + (sizeof_logger_entry + n) < log_size log then es
            else drop_covering (sizeof_logger_entry + n) es) @ [new_entry hdr msg])))"
proof -
  let ?h = "min ki_left LOGGER_ENTRY_MAX_PAYLOAD"
  note w = logger_aio_write_locked_eq [OF assms(2,4)]
  have shape: "log_shape log" using assms(1) by (simp add: log_inv_def)
  have le: "?h \<le> LOGGER_ENTRY_MAX_PAYLOAD" "?h \<le> sum_list (map snd iov)"
    by (simp_all add: assms(3))
  obtain msg where m: "map Some msg = take ?h (iov_bytes um iov)" "n = ?h"
      "positions log' = map (pull_forward log (sizeof_logger_entry + ?h)) (positions log)"
      "\<And>x es. reads_as log x es \<Longrightarrow> reads_as log' (pull_forward log (sizeof_logger_entry + ?h) x)
        (kept_entries log (sizeof_logger_entry + ?h) es @ [new_entry hdr msg])"
    using logger_write_ok_positions [OF shape le(1) w(2) le(2) w(1)] by metis
  have "0 < n" using m(2) w(2) by simp
  then have "log_inv log'"
    using write_ok_step(1) [OF assms(1,2,3)] by simp
  then show ?thesis
    unfolding kept_entries_def [symmetric] using m by (intro conjI exI [of _ msg]) simp_all
qed

text \<open>
  C23. Writing never blocks and never fails for lack of room: if the user's memory is readable
  the call returns, having kept at most \<open>LOGGER_ENTRY_MAX_PAYLOAD\<close> bytes.
\<close>

theorem logger_write_total:
  assumes "log_inv log" and "ki_left = sum_list (map snd iov)"
    and "\<forall>(base, len) \<in> set iov. readable um base len"
  shows "\<exists>log'. logger_aio_write um hdr ki_left iov log =
    (log', Inr (min ki_left LOGGER_ENTRY_MAX_PAYLOAD))"
  using assms by (rule logger_write_succeeds)

text \<open>
  C24. A write that fails does so with \<open>EFAULT\<close>, restores the write offset and keeps the
  invariant, although the ring already holds a part of the entry: every reader still reads a
  suffix of what it could read before.
\<close>

theorem logger_write_fault:
  assumes "log_inv log" and "logger_aio_write um hdr ki_left iov log = (log', Inl e)"
    and "find_reader log i = Some r" and "reads_as log (r_off r) es"
  shows "e = EFAULT \<and> w_off log' = w_off log \<and> log_inv log' \<and>
    (\<exists>r' kept. find_reader log' i = Some r' \<and> suffix kept es \<and> reads_as log' (r_off r') kept)"
  using write_fail_step [OF assms(1,2)] assms(3,4) by blast

text \<open>
  C15. A read on a log with a pending entry and a large enough, writable buffer returns the
  length of that entry, leaves exactly its bytes in the buffer and advances the reader past
  it; the ring, its offsets and all other readers stay as they were. With a smaller buffer it
  fails with \<open>EINVAL\<close> and changes neither user memory nor the log (each open file has a reader
  of its own).
\<close>

theorem logger_read_one_entry:
  assumes "log_inv log" and "find_reader log i = Some r" and "reads_as log (r_off r) (e # es)"
    and "writable um buf (length (encode_entry e))"
  shows "if length (encode_entry e) \<le> count
    then \<exists>um' log' r'. logger_read um log i nonblock sig buf count =
        Some (um', log', Read_returns (Inr (length (encode_entry e)))) \<and>
      map (ubyte um') [buf ..< buf + length (encode_entry e)] = map Some (encode_entry e) \<and>
      find_reader log' i = Some r' \<and> reads_as log' (r_off r') es \<and> log_inv log' \<and>
      same_but_reader i log log'
    else \<exists>log'. logger_read um log i nonblock sig buf count =
        Some (um, log', Read_returns (Inl EINVAL)) \<and> find_reader log' i = Some r \<and> log_inv log' \<and>
      same_but_reader i log log' \<and> (distinct (map reader_id (readers log)) \<longrightarrow> log' = log)"
proof (cases "length (encode_entry e) \<le> count")
  case True
  obtain um' log' where run: "logger_read um log i nonblock sig buf count =
      Some (um', log', Read_returns (Inr (length (encode_entry e))))"
    using logger_read_succeeds [OF assms(1,2,3) True assms(4)] by blast
  show ?thesis
  proof (rule logger_read_step [OF assms(1,2,3) run])
    fix e' fs n q
    assume c: "e # es = e' # fs" "n = length (encode_entry e')"
      "map (ubyte um') [buf ..< buf + n] = map Some (encode_entry e')"
      "log' = set_reader log q" "reader_id q = i" "reads_as log (r_off q) fs" "log_inv log'"
    then show ?thesis
      using True run find_set_reader [OF assms(2) c(5)] same_but_set_reader [OF c(5)] by auto
  qed simp
next
  case False
  have shape: "log_shape log" using assms(1) by (simp add: log_inv_def)
  note front = reads_as_front [OF shape assms(3)]
  have "logger_read um log i nonblock sig buf count =
      Some (um, set_reader log r, Read_returns (Inl EINVAL))"
    using assms(2) False front(4) get_entry_len_reads [OF shape assms(3)]
    by (simp add: logger_read_def logger_read_wait_def logger_read_entry_def Let_def)
  then show ?thesis
    using False find_set_reader [OF assms(2) find_reader_Some(2) [OF assms(2)]]
      log_inv_set_reader [OF assms(1,3)] same_but_set_reader [OF find_reader_Some(2) [OF assms(2)]]
      set_same_reader [OF assms(2)] by auto
qed

text \<open>
  C25. \<open>clock_interval a b c\<close> decides whether \<open>c\<close> lies on the way from just after \<open>a\<close> up to
  and including \<open>b\<close>, for offsets of a ring of any size and any forward distance below that size.
  The end \<open>b\<close> counts although the comment on the function asks for a strict \<open>c < b\<close>.
\<close>

theorem clock_interval_spec:
  assumes "a < n" and "c < n" and "len < n" and "b = (a + len) mod n"
  shows "clock_interval a b c \<longleftrightarrow> (\<exists>d. 0 < d \<and> d \<le> len \<and> c = (a + d) mod n)"
proof -
  have "(\<exists>d. 0 < d \<and> d \<le> len \<and> c = (a + d) mod n) \<longleftrightarrow>
      0 < ring_dist n a c \<and> ring_dist n a c \<le> len"
  proof
    assume "0 < ring_dist n a c \<and> ring_dist n a c \<le> len"
    moreover have "(a + ring_dist n a c) mod n = c"
      using assms(1,2) by (auto simp: ring_dist_def)
    ultimately show "\<exists>d. 0 < d \<and> d \<le> len \<and> c = (a + d) mod n"
      by (metis)
  next
    assume "\<exists>d. 0 < d \<and> d \<le> len \<and> c = (a + d) mod n"
    then obtain d where d: "0 < d" "d \<le> len" "c = (a + d) mod n" by blast
    then have "ring_dist n a c = d"
      using assms(1,3) by (cases "a + d < n") (auto simp: ring_dist_def mod_if)
    then show "0 < ring_dist n a c \<and> ring_dist n a c \<le> len" using d by simp
  qed
  then show ?thesis using clock_interval_dist [OF assms] by simp
qed

text \<open>
  C26. The value \<open>orig\<close> that a failing write restores is read before the mutex is taken. If
  another write completes in between, its entry, already acknowledged to its writer and
  readable, is gone after the failure.
\<close>

theorem logger_stale_orig_loses_entry:
  assumes "log_inv log" and "reads_as log x es"
    and "logger_aio_write um1 hdr1 ki1 iov1 log = (log1, Inr n1)" and "0 < n1"
    and "ki1 = sum_list (map snd iov1)" and "hlen2 \<le> LOGGER_ENTRY_MAX_PAYLOAD"
    and "logger_aio_write_locked um2 (w_off log) hdr2 hlen2 iov2 log1 = (log2, Inl e)"
    and "length (encode_all es) + (sizeof_logger_entry + n1) + (sizeof_logger_entry + hlen2)
      < log_size log"
  shows "\<exists>ent. reads_as log1 x (es @ [ent]) \<and> reads_as log2 x es"
  using assms by (rule stale_orig_drops_entry)

text \<open>
  C27. The queries of \<open>logger_ioctl\<close> and \<open>logger_poll\<close> agree with the entries pending for the
  reader: the log length is their total size, the next entry length is the size of the first
  one (0 if there is none), and the file polls readable iff there is one.
\<close>

theorem logger_queries:
  assumes "log_shape (st l)" and "private_data file = Reader l i"
    and "find_reader (st l) i = Some r" and "reads_as (st l) (r_off r) es"
  shows "logger_ioctl st file LOGGER_GET_LOG_LEN = Some (st, Inr (length (encode_all es))) \<and>
    logger_ioctl st file LOGGER_GET_NEXT_ENTRY_LEN =
      Some (st, Inr (case es of [] \<Rightarrow> 0 | e # _ \<Rightarrow> length (encode_entry e))) \<and>
    map_option pollin (logger_poll st file) = Some (es \<noteq> [])"
proof (cases es)
  case Nil
  then have "w_off (st l) = r_off r" using assms(4) by (simp add: reads_as_empty)
  then show ?thesis
    using assms log_len_pending [OF assms(1,4)] Nil
    by (simp add: logger_ioctl_def logger_poll_def file_get_log_def)
next
  case (Cons e fs)
  note reads = assms(4) [unfolded Cons]
  show ?thesis
    using assms(2,3) log_len_pending [OF assms(1) reads] reads_as_front(4) [OF assms(1) reads]
      get_entry_len_reads [OF assms(1) reads]
    by (simp add: logger_ioctl_def logger_poll_def file_get_log_def Cons)
qed

text \<open>
  C28. The four logs start in the invariant; opening and releasing files and every ioctl keep
  it for every log.
\<close>

theorem logger_device_ops_inv:
  assumes "\<And>l. log_inv (st l)"
  shows "log_inv (logger_devices l) \<and> log_inv (logger_release st f l) \<and>
    (case logger_open minors st minor fr fw nb km of
       Inl e \<Rightarrow> e = ENODEV \<or> e = ENOMEM
     | Inr (st', f') \<Rightarrow> log_inv (st' l)) \<and>
    (case logger_ioctl st f cmd of None \<Rightarrow> True | Some (st', res) \<Rightarrow> log_inv (st' l))"
proof (intro conjI)
  show "log_inv (logger_devices l)" by (rule log_inv_devices)
  show "log_inv (logger_release st f l)"
    using assms by (simp add: logger_release_def log_inv_del_reader split: private_data.split)
  show "case logger_open minors st minor fr fw nb km of
       Inl e \<Rightarrow> e = ENODEV \<or> e = ENOMEM | Inr (st', f') \<Rightarrow> log_inv (st' l)"
    using assms by (auto simp: logger_open_def log_inv_add_reader split: option.splits)
  show "case logger_ioctl st f cmd of None \<Rightarrow> True | Some (st', res) \<Rightarrow> log_inv (st' l)"
    using assms by (cases cmd) (auto simp: logger_ioctl_def Let_def log_inv_flush
        split: private_data.splits option.splits)
qed

section \<open>Witnesses\<close>

text \<open>A log of 8 KiB with one reader, a user memory full of \<open>A\<close>s and one that always faults.\<close>

definition demo_log :: logger_log where
  "demo_log = add_reader (define_logger_device 8192) 7"

definition demo_mem :: user_mem where
  "demo_mem = \<lparr>ubyte = (\<lambda>_. Some 65), uwritable = (\<lambda>_. True), addr_limit = 100000\<rparr>"

definition fault_mem :: user_mem where
  "fault_mem = \<lparr>ubyte = (\<lambda>_. None), uwritable = (\<lambda>_. False), addr_limit = 100000\<rparr>"

definition demo_hdr :: logger_entry where
  "demo_hdr = \<lparr>e_len = 0, e_pad = 0, e_pid = 10, e_tid = 11, e_sec = 12, e_nsec = 13, e_msg = []\<rparr>"

abbreviation demo_entry :: logger_entry where
  "demo_entry \<equiv> new_entry demo_hdr [65, 65, 65]"

lemma demo_log_facts:
  "log_inv demo_log" "find_reader demo_log 7 = Some \<lparr>reader_id = 7, r_off = 0\<rparr>"
  "reads_as demo_log 0 []" "w_off demo_log = 0" "log_size demo_log = 8192"
  "positions demo_log = [0, 0]"
  using log_inv_device [of 8192 13]
  by (auto simp: demo_log_def log_inv_add_reader LOGGER_ENTRY_MAX_LEN_def)
    (auto simp: add_reader_def find_reader_def define_logger_device_def positions_def)

lemma demo_pending: "reader_pending 7 demo_log []"
  using demo_log_facts by (auto simp: reader_pending_def)

lemma demo_readable: "\<forall>(base, len) \<in> set [(0, 3)]. readable demo_mem base len"
  by (simp add: readable_def access_ok_def demo_mem_def)

lemma payload_const: "LOGGER_ENTRY_MAX_PAYLOAD = 4076"
  by (simp add: LOGGER_ENTRY_MAX_PAYLOAD_def LOGGER_ENTRY_MAX_LEN_def sizeof_logger_entry_def)

lemma demo_write: "\<exists>log1. logger_aio_write demo_mem demo_hdr 3 [(0, 3)] demo_log = (log1, Inr 3)"
  using logger_write_succeeds [OF demo_log_facts(1) _ demo_readable, of 3 demo_hdr]
  by (simp add: payload_const)

lemma demo_iov: "map Some [65, 65, 65] = take 3 (iov_bytes demo_mem [(0, 3)])"
  by (simp add: demo_mem_def upt_rec)

lemma demo_step:
  assumes "logger_aio_write demo_mem demo_hdr 3 [(0, 3)] demo_log = (log1, Inr 3)"
  shows "logger_step 7 demo_log (Wrote (encode_entry demo_entry)) log1"
  by (rule logger_step.write_ok [OF assms _ _ demo_iov]) simp_all

lemma demo_log1:
  assumes "logger_aio_write demo_mem demo_hdr 3 [(0, 3)] demo_log = (log1, Inr 3)"
  shows "log_inv log1" and "\<exists>r. find_reader log1 7 = Some r \<and> reads_as log1 (r_off r) [demo_entry]"
proof -
  have t: "3 = sum_list (map snd [(0::nat, 3::nat)])" by simp
  note w = write_ok_step [OF demo_log_facts(1) assms t]
  show "log_inv log1" using w(1) by simp
  have "suffix (kept_entries demo_log n []) []" for n by (rule kept_entries_suffix)
  then show "\<exists>r. find_reader log1 7 = Some r \<and> reads_as log1 (r_off r) [demo_entry]"
    using w(3) [OF _ demo_iov demo_log_facts(2), of "[]"] demo_log_facts(3) by simp
qed

lemma demo_writable: "writable demo_mem 500 n" if "n < 1000"
  using that by (simp add: writable_def access_ok_def demo_mem_def)

lemma demo_entry_len: "length (encode_entry demo_entry) = 23"
  by (simp add: length_encode_entry new_entry_def sizeof_logger_entry_def)

theorem logger_read_one_entry_witness:
  "\<exists>log1 um' log2 r'. logger_aio_write demo_mem demo_hdr 3 [(0, 3)] demo_log = (log1, Inr 3) \<and>
     logger_read demo_mem log1 7 False False 500 100 =
       Some (um', log2, Read_returns (Inr (length (encode_entry demo_entry)))) \<and>
     map (ubyte um') [500 ..< 500 + length (encode_entry demo_entry)] =
       map Some (encode_entry demo_entry) \<and>
     find_reader log2 7 = Some r' \<and> reads_as log2 (r_off r') [] \<and> log_inv log2"
proof -
  obtain log1 where w: "logger_aio_write demo_mem demo_hdr 3 [(0, 3)] demo_log = (log1, Inr 3)"
    using demo_write by blast
  obtain r where r: "find_reader log1 7 = Some r" "reads_as log1 (r_off r) [demo_entry]"
    using demo_log1(2) [OF w] by blast
  have wr: "writable demo_mem 500 (length (encode_entry demo_entry))"
    by (simp add: demo_entry_len demo_writable)
  have le: "length (encode_entry demo_entry) \<le> 100" by (simp add: demo_entry_len)
  show ?thesis
    using logger_read_one_entry [OF demo_log1(1) [OF w] r wr, of 100 False False,
        unfolded if_P [OF le]] w by blast
qed

theorem logger_reader_subsequence_witness:
  "\<exists>log2. trace (logger_step 7) demo_log
      [Wrote (encode_entry demo_entry), Got (encode_entry demo_entry)] log2 \<and>
    (\<exists>rest. reader_pending 7 log2 rest \<and>
      subseq (encode_entry demo_entry # rest) [encode_entry demo_entry])"
proof -
  obtain log1 where w: "logger_aio_write demo_mem demo_hdr 3 [(0, 3)] demo_log = (log1, Inr 3)"
    using demo_write by blast
  obtain r where r: "find_reader log1 7 = Some r" "reads_as log1 (r_off r) [demo_entry]"
    using demo_log1(2) [OF w] by blast
  have wr: "writable demo_mem 500 (length (encode_entry demo_entry))"
    by (simp add: demo_entry_len demo_writable)
  obtain um' log2 where rd: "logger_read demo_mem log1 7 False False 500 100 =
      Some (um', log2, Read_returns (Inr (length (encode_entry demo_entry))))"
    using logger_read_succeeds [OF demo_log1(1) [OF w] r _ wr, of 100 False False]
    by (auto simp: demo_entry_len)
  have bytes: "map (ubyte um') [500 ..< 500 + length (encode_entry demo_entry)] =
      map Some (encode_entry demo_entry)"
    by (rule logger_read_step [OF demo_log1(1) [OF w] r rd]) auto
  have t: "trace (logger_step 7) demo_log
      [Wrote (encode_entry demo_entry), Got (encode_entry demo_entry)] log2"
    using demo_step [OF w] logger_step.read_ok [OF rd bytes] by auto
  show ?thesis
    using logger_reader_subsequence [OF t demo_log_facts(1) demo_pending] t by auto
qed

theorem logger_write_appends_witness:
  "\<exists>log1. logger_aio_write demo_mem demo_hdr 3 [(0, 3)] demo_log = (log1, Inr 3) \<and>
     log_inv log1 \<and> reads_as log1 (positions log1 ! 0) [demo_entry]"
proof -
  obtain log1 where w: "logger_aio_write demo_mem demo_hdr 3 [(0, 3)] demo_log = (log1, Inr 3)"
    using demo_write by blast
  have t: "3 = sum_list (map snd [(0::nat, 3::nat)])" by simp
  obtain msg where m: "map Some msg = take 3 (iov_bytes demo_mem [(0, 3)])" "log_inv log1"
    and all: "\<forall>k < length (positions demo_log). \<forall>es. reads_as demo_log (positions demo_log ! k) es \<longrightarrow>
      reads_as log1 (positions log1 ! k)
        ((if length (encode_all es) + (sizeof_logger_entry + 3) < log_size demo_log then es
          else drop_covering (sizeof_logger_entry + 3) es) @ [new_entry demo_hdr msg])"
    using logger_write_appends [OF demo_log_facts(1) w t] by fastforce
  have reads: "reads_as log1 (positions log1 ! 0) [new_entry demo_hdr msg]"
    using all [rule_format, of 0 "[]"] demo_log_facts(3)
    by (simp add: demo_log_facts(5,6) sizeof_logger_entry_def)
  have "msg = [65, 65, 65]"
    using m(1) demo_iov by (metis list.inj_map_strong option.inject)
  with m reads w show ?thesis by blast
qed

theorem logger_write_total_witness:
  "\<exists>log1. logger_aio_write demo_mem demo_hdr 3 [(0, 3)] demo_log = (log1, Inr 3)"
  using logger_write_total [OF demo_log_facts(1) _ demo_readable, of 3 demo_hdr]
  by (simp add: payload_const)

lemma write_from_user_faults:
  assumes "log_shape log" and "0 < count"
  shows "\<exists>log'. do_write_log_from_user fault_mem log buf count = (log', Inl EFAULT)"
proof -
  define len where "len = min count (log_size log - w_off log)"
  have "len \<noteq> 0" using assms by (auto simp: len_def log_shape_def)
  then obtain k where "len = Suc k" by (cases len) auto
  then have "snd (copy_from_user fault_mem buf len) \<noteq> 0"
    by (simp add: copy_from_user_def fault_mem_def)
  then show ?thesis
    using \<open>len \<noteq> 0\<close>
    by (auto simp: do_write_log_from_user_def Let_def len_def [symmetric] split: prod.splits)
qed

lemma locked_write_faults:
  assumes "log_shape log" and "0 < h"
  shows "\<exists>log'. logger_aio_write_locked fault_mem orig hdr h [(base, h)] log = (log', Inl EFAULT)"
proof -
  define l where "l = put_bytes (fix_up_readers log (sizeof_logger_entry + h))
    (encode_header (hdr\<lparr>e_len := of_nat h\<rparr>))"
  have shape: "log_shape l"
    unfolding l_def using assms log_shape_size [OF assms(1)]
    by (intro log_shape_put) (auto simp: sizeof_logger_entry_def LOGGER_ENTRY_MAX_LEN_def)
  then obtain log' where "do_write_log_from_user fault_mem l base h = (log', Inl EFAULT)"
    using write_from_user_faults assms(2) by blast
  then have "write_segments fault_mem orig h l 0 [(base, h)] = (log'\<lparr>w_off := orig\<rparr>, Inl EFAULT)"
    by simp
  moreover have "do_write_log (fix_up_readers log (sizeof_logger_entry + h))
      (encode_header (hdr\<lparr>e_len := of_nat h\<rparr>)) = l"
    unfolding l_def using assms(1) by (intro do_write_log_put) simp
  ultimately show ?thesis
    unfolding logger_aio_write_locked_def Let_def by auto
qed

lemma demo_shape: "log_shape demo_log"
  using demo_log_facts(1) by (simp add: log_inv_def)

theorem logger_write_fault_witness:
  "\<exists>log'. logger_aio_write fault_mem demo_hdr 3 [(0, 3)] demo_log = (log', Inl EFAULT) \<and>
     w_off log' = 0 \<and> log_inv log'"
proof -
  obtain log' where "logger_aio_write_locked fault_mem (w_off demo_log) demo_hdr 3 [(0, 3)] demo_log
      = (log', Inl EFAULT)"
    using locked_write_faults [OF demo_shape, of 3 "w_off demo_log" demo_hdr 0] by auto
  then have w: "logger_aio_write fault_mem demo_hdr 3 [(0, 3)] demo_log = (log', Inl EFAULT)"
    by (simp add: logger_aio_write_def payload_const)
  show ?thesis
    using logger_write_fault [OF demo_log_facts(1) w demo_log_facts(2), of "[]"] demo_log_facts w
    by auto
qed

theorem clock_interval_spec_witness:
  "clock_interval 6 2 1 \<and> (\<exists>d. 0 < d \<and> d \<le> 4 \<and> (1::nat) = (6 + d) mod 8)"
proof -
  have "clock_interval 6 2 1" by (simp add: clock_interval_def)
  then show ?thesis using clock_interval_spec [of 6 8 1 4 2] by simp
qed

theorem logger_stale_orig_loses_entry_witness:
  "\<exists>log1 log2 ent. logger_aio_write demo_mem demo_hdr 3 [(0, 3)] demo_log = (log1, Inr 3) \<and>
     logger_aio_write_locked fault_mem 0 demo_hdr 3 [(0, 3)] log1 = (log2, Inl EFAULT) \<and>
     reads_as log1 0 [ent] \<and> reads_as log2 0 []"
proof -
  obtain log1 where w: "logger_aio_write demo_mem demo_hdr 3 [(0, 3)] demo_log = (log1, Inr 3)"
    using demo_write by blast
  have "log_shape log1" using demo_log1(1) [OF w] by (simp add: log_inv_def)
  then obtain log2 where f: "logger_aio_write_locked fault_mem (w_off demo_log) demo_hdr 3 [(0, 3)] log1
      = (log2, Inl EFAULT)"
    using locked_write_faults [of log1 3 "w_off demo_log" demo_hdr 0] by auto
  show ?thesis
    using logger_stale_orig_loses_entry [OF demo_log_facts(1,3) w _ _ _ f] w f
    by (auto simp: demo_log_facts(4,5) payload_const sizeof_logger_entry_def)
qed

theorem logger_queries_witness:
  "logger_ioctl (\<lambda>_. demo_log) \<lparr>private_data = Reader Log_main 7, fmode_write = False, o_nonblock = True\<rparr>
     LOGGER_GET_LOG_LEN = Some (\<lambda>_. demo_log, Inr 0)"
  using logger_queries [of "\<lambda>_. demo_log" Log_main
      "\<lparr>private_data = Reader Log_main 7, fmode_write = False, o_nonblock = True\<rparr>" 7
      "\<lparr>reader_id = 7, r_off = 0\<rparr>" "[]"] demo_shape demo_log_facts
  by simp

theorem logger_device_ops_inv_witness:
  "log_inv (logger_release logger_devices
     \<lparr>private_data = Writer Log_radio, fmode_write = True, o_nonblock = False\<rparr> Log_main)"
  using logger_device_ops_inv [of logger_devices] log_inv_devices by blast

end
