(* ===== verification/KList.thy ===== *)
theory KList
  imports KPrelude "HOL-Library.Multiset"
begin

text \<open>
  The doubly linked circular lists of \<open>include/linux/list.h\<close>.

  The first part is the pointer level: a memory of \<open>next\<close> and \<open>prev\<close> fields indexed by the
  address of the \<open>struct list_head\<close>, and the inline functions of the header as sequences of
  stores in source order. The second part relates such a memory to HOL lists: \<open>list_rep m h xs\<close>
  says that the list with head \<open>h\<close> holds the entries \<open>xs\<close>. The locale \<open>kernel_list\<close> is the
  interface the drivers rely on when their models keep a list as a HOL list; it is interpreted
  on the pointer level at the end.
\<close>

section \<open>The functions of list.h\<close>

record list_mem =
  nxt :: "nat \<Rightarrow> nat"
  prv :: "nat \<Rightarrow> nat"

definition set_nxt :: "nat \<Rightarrow> nat \<Rightarrow> list_mem \<Rightarrow> list_mem" where
  "set_nxt a b m = m\<lparr>nxt := (nxt m)(a := b)\<rparr>"

definition set_prv :: "nat \<Rightarrow> nat \<Rightarrow> list_mem \<Rightarrow> list_mem" where
  "set_prv a b m = m\<lparr>prv := (prv m)(a := b)\<rparr>"

definition INIT_LIST_HEAD :: "list_mem \<Rightarrow> nat \<Rightarrow> list_mem" where
  "INIT_LIST_HEAD m l = set_prv l l (set_nxt l l m)"

definition list_add_between :: "list_mem \<Rightarrow> nat \<Rightarrow> nat \<Rightarrow> nat \<Rightarrow> list_mem" where
  "list_add_between m new p n =
     set_nxt p new (set_prv new p (set_nxt new n (set_prv n new m)))"

definition list_add :: "list_mem \<Rightarrow> nat \<Rightarrow> nat \<Rightarrow> list_mem" where
  "list_add m new head = list_add_between m new head (nxt m head)"

definition list_add_tail :: "list_mem \<Rightarrow> nat \<Rightarrow> nat \<Rightarrow> list_mem" where
  "list_add_tail m new head = list_add_between m new (prv m head) head"

definition list_del_between :: "list_mem \<Rightarrow> nat \<Rightarrow> nat \<Rightarrow> list_mem" where
  "list_del_between m p n = set_nxt p n (set_prv n p m)"

definition LIST_POISON1 :: nat where
  "LIST_POISON1 = 0x00100100"

definition LIST_POISON2 :: nat where
  "LIST_POISON2 = 0x00200200"

definition list_del :: "list_mem \<Rightarrow> nat \<Rightarrow> list_mem" where
  "list_del m entry =
     set_prv entry LIST_POISON2 (set_nxt entry LIST_POISON1
       (list_del_between m (prv m entry) (nxt m entry)))"

definition list_replace :: "list_mem \<Rightarrow> nat \<Rightarrow> nat \<Rightarrow> list_mem" where
  "list_replace m old new =
     (let m1 = set_nxt new (nxt m old) m;
          m2 = set_prv (nxt m1 new) new m1;
          m3 = set_prv new (prv m2 old) m2
      in set_nxt (prv m3 new) new m3)"

definition list_replace_init :: "list_mem \<Rightarrow> nat \<Rightarrow> nat \<Rightarrow> list_mem" where
  "list_replace_init m old new = INIT_LIST_HEAD (list_replace m old new) old"

definition list_del_init :: "list_mem \<Rightarrow> nat \<Rightarrow> list_mem" where
  "list_del_init m entry =
     INIT_LIST_HEAD (list_del_between m (prv m entry) (nxt m entry)) entry"

definition list_move :: "list_mem \<Rightarrow> nat \<Rightarrow> nat \<Rightarrow> list_mem" where
  "list_move m l head = list_add (list_del_between m (prv m l) (nxt m l)) l head"

definition list_move_tail :: "list_mem \<Rightarrow> nat \<Rightarrow> nat \<Rightarrow> list_mem" where
  "list_move_tail m l head = list_add_tail (list_del_between m (prv m l) (nxt m l)) l head"

definition list_is_last :: "list_mem \<Rightarrow> nat \<Rightarrow> nat \<Rightarrow> bool" where
  "list_is_last m l head \<longleftrightarrow> nxt m l = head"

definition list_empty :: "list_mem \<Rightarrow> nat \<Rightarrow> bool" where
  "list_empty m head \<longleftrightarrow> nxt m head = head"

definition list_empty_careful :: "list_mem \<Rightarrow> nat \<Rightarrow> bool" where
  "list_empty_careful m head \<longleftrightarrow> nxt m head = head \<and> nxt m head = prv m head"

definition list_rotate_left :: "list_mem \<Rightarrow> nat \<Rightarrow> list_mem" where
  "list_rotate_left m head =
     (if \<not> list_empty m head then list_move_tail m (nxt m head) head else m)"

definition list_is_singular :: "list_mem \<Rightarrow> nat \<Rightarrow> bool" where
  "list_is_singular m head \<longleftrightarrow> \<not> list_empty m head \<and> nxt m head = prv m head"

definition list_cut_position_raw :: "list_mem \<Rightarrow> nat \<Rightarrow> nat \<Rightarrow> nat \<Rightarrow> list_mem" where
  "list_cut_position_raw m l head entry =
     (let new_first = nxt m entry;
          m1 = set_nxt l (nxt m head) m;
          m2 = set_prv (nxt m1 l) l m1;
          m3 = set_prv l entry m2;
          m4 = set_nxt entry l m3;
          m5 = set_nxt head new_first m4
      in set_prv new_first head m5)"

definition list_cut_position :: "list_mem \<Rightarrow> nat \<Rightarrow> nat \<Rightarrow> nat \<Rightarrow> list_mem" where
  "list_cut_position m l head entry =
     (if list_empty m head then m
      else if list_is_singular m head \<and> (nxt m head \<noteq> entry \<and> head \<noteq> entry) then m
      else if entry = head then INIT_LIST_HEAD m l
      else list_cut_position_raw m l head entry)"

definition list_splice_between :: "list_mem \<Rightarrow> nat \<Rightarrow> nat \<Rightarrow> nat \<Rightarrow> list_mem" where
  "list_splice_between m l p n =
     (let first = nxt m l; last = prv m l
      in set_prv n last (set_nxt last n (set_nxt p first (set_prv first p m))))"

definition list_splice :: "list_mem \<Rightarrow> nat \<Rightarrow> nat \<Rightarrow> list_mem" where
  "list_splice m l head =
     (if \<not> list_empty m l then list_splice_between m l head (nxt m head) else m)"

definition list_splice_tail :: "list_mem \<Rightarrow> nat \<Rightarrow> nat \<Rightarrow> list_mem" where
  "list_splice_tail m l head =
     (if \<not> list_empty m l then list_splice_between m l (prv m head) head else m)"

definition list_splice_init :: "list_mem \<Rightarrow> nat \<Rightarrow> nat \<Rightarrow> list_mem" where
  "list_splice_init m l head =
     (if \<not> list_empty m l
      then INIT_LIST_HEAD (list_splice_between m l head (nxt m head)) l else m)"

definition list_splice_tail_init :: "list_mem \<Rightarrow> nat \<Rightarrow> nat \<Rightarrow> list_mem" where
  "list_splice_tail_init m l head =
     (if \<not> list_empty m l
      then INIT_LIST_HEAD (list_splice_between m l (prv m head) head) l else m)"

text \<open>
  \<open>list_for_each\<close>: the cursors the loop visits. The loop ends only if it meets the head
  again, so the walk has fuel and \<open>None\<close> stands for running out of it.
\<close>

fun list_for_each_from :: "nat \<Rightarrow> list_mem \<Rightarrow> nat \<Rightarrow> nat \<Rightarrow> nat list option" where
  "list_for_each_from 0 m head pos = None"
| "list_for_each_from (Suc fuel) m head pos =
     (if pos = head then Some []
      else map_option ((#) pos) (list_for_each_from fuel m head (nxt m pos)))"

definition list_for_each :: "nat \<Rightarrow> list_mem \<Rightarrow> nat \<Rightarrow> nat list option" where
  "list_for_each fuel m head = list_for_each_from fuel m head (nxt m head)"

lemmas list_mem_simps [klist_simps] = set_nxt_def set_prv_def INIT_LIST_HEAD_def
  list_add_between_def list_del_between_def

section \<open>Pointer lists and HOL lists\<close>

fun links :: "list_mem \<Rightarrow> nat list \<Rightarrow> bool" where
  "links m [] = True"
| "links m [x] = True"
| "links m (x # y # zs) \<longleftrightarrow> nxt m x = y \<and> prv m y = x \<and> links m (y # zs)"

definition list_rep :: "list_mem \<Rightarrow> nat \<Rightarrow> nat list \<Rightarrow> bool" where
  "list_rep m h xs \<longleftrightarrow> distinct (h # xs) \<and> links m (h # xs @ [h])"

lemma links_append:
  "links m (as @ bs) \<longleftrightarrow> links m as \<and> links m bs \<and>
    (as \<noteq> [] \<and> bs \<noteq> [] \<longrightarrow> nxt m (last as) = hd bs \<and> prv m (hd bs) = last as)"
proof (induction as rule: induct_list012)
  case (2 x)
  then show ?case by (cases bs) auto
qed auto

lemma links_cong:
  assumes "\<And>x. x \<in> set (butlast as) \<Longrightarrow> nxt m' x = nxt m x"
    and "\<And>x. x \<in> set (tl as) \<Longrightarrow> prv m' x = prv m x"
  shows "links m' as = links m as"
  using assms by (induction as rule: induct_list012) auto

lemma in_butlast_distinct: "distinct xs \<Longrightarrow> xs \<noteq> [] \<Longrightarrow> last xs \<notin> set (butlast xs)"
  by (cases xs rule: rev_cases) auto

lemma list_rep_distinct: "list_rep m h xs \<Longrightarrow> distinct (h # xs)"
  by (simp add: list_rep_def)

lemma list_rep_empty [simp]: "list_rep (INIT_LIST_HEAD m h) h []"
  by (simp add: list_rep_def klist_simps)

text \<open>A write to fields of other nodes keeps a list.\<close>

lemma list_rep_frame:
  assumes "list_rep m h xs" and "\<And>x. x \<in> set (h # xs) \<Longrightarrow> nxt m' x = nxt m x"
    and "\<And>x. x \<in> set (h # xs) \<Longrightarrow> prv m' x = prv m x"
  shows "list_rep m' h xs"
proof -
  have "links m' (h # xs @ [h]) = links m (h # xs @ [h])"
    using assms(2,3) by (intro links_cong) (auto simp: butlast_append dest: in_set_butlastD)
  then show ?thesis using assms(1) by (simp add: list_rep_def)
qed

text \<open>
  A list cut at any point: the links of both halves, and the link between them. Every
  operation below changes only that link or the two links around an entry.
\<close>

lemma list_rep_split:
  "list_rep m h (us @ vs) \<longleftrightarrow> distinct (h # us @ vs) \<and> links m (h # us) \<and> links m (vs @ [h]) \<and>
    nxt m (last (h # us)) = hd (vs @ [h]) \<and> prv m (hd (vs @ [h])) = last (h # us)"
  using links_append [of m "h # us" "vs @ [h]"] by (auto simp: list_rep_def)

lemma list_rep_prv:
  assumes "list_rep m h (us @ vs)"
  shows "prv m (hd (vs @ [h])) = last (h # us)" and "nxt m (last (h # us)) = hd (vs @ [h])"
  using assms by (simp_all add: list_rep_split)

lemma links_left_cong:
  assumes "links m (h # us)" and "\<And>x. x \<in> set (butlast (h # us)) \<Longrightarrow> nxt m' x = nxt m x"
    and "\<And>x. x \<in> set us \<Longrightarrow> prv m' x = prv m x"
  shows "links m' (h # us)"
  using links_cong [of "h # us" m' m] assms by auto

lemma links_right_cong:
  assumes "links m (vs @ [h])" and "\<And>x. x \<in> set vs \<Longrightarrow> nxt m' x = nxt m x"
    and "\<And>x. x \<in> set (tl (vs @ [h])) \<Longrightarrow> prv m' x = prv m x"
  shows "links m' (vs @ [h])"
  using links_cong [of "vs @ [h]" m' m] assms by auto

lemma hd_in_ring: "hd (vs @ [h]) \<in> set (h # vs)"
  by (cases vs) auto

lemma last_in_ring: "last (h # us) \<in> set (h # us)"
  by simp

lemma halves_kept:
  assumes "links m (h # us)" and "links m (vs @ [h])" and "distinct (h # us @ vs)"
    and "\<And>x. x \<in> set (h # us @ vs) \<Longrightarrow> x \<noteq> last (h # us) \<Longrightarrow> nxt m' x = nxt m x"
    and "\<And>x. x \<in> set (h # us @ vs) \<Longrightarrow> x \<noteq> hd (vs @ [h]) \<Longrightarrow> prv m' x = prv m x"
  shows "links m' (h # us)" and "links m' (vs @ [h])"
proof -
  show "links m' (h # us)"
  proof (rule links_left_cong [OF assms(1)])
    fix x assume x: "x \<in> set (butlast (h # us))"
    have "x \<noteq> last (h # us)"
      using x assms(3) in_butlast_distinct [of "h # us"] by auto
    moreover have "x \<in> set (h # us)" using x in_set_butlastD by fast
    ultimately show "nxt m' x = nxt m x" using assms(4) [of x] by auto
  next
    fix x assume x: "x \<in> set us"
    have "hd (vs @ [h]) \<in> set (vs @ [h])" by (cases vs) auto
    then have "x \<noteq> hd (vs @ [h])" using x assms(3) by auto
    then show "prv m' x = prv m x" using x assms(5) by simp
  qed
  show "links m' (vs @ [h])"
  proof (rule links_right_cong [OF assms(2)])
    fix x assume x: "x \<in> set vs"
    moreover have "set (h # us) \<inter> set vs = {}" using assms(3) by auto
    ultimately have "x \<noteq> last (h # us)" using last_in_ring [of h us] by blast
    then show "nxt m' x = nxt m x" using x assms(4) by simp
  next
    fix x assume "x \<in> set (tl (vs @ [h]))"
    then have x: "x \<in> set (h # us @ vs)" "x \<noteq> hd (vs @ [h])"
      using assms(3) by (cases vs; auto)+
    then show "prv m' x = prv m x" using assms(5) by simp
  qed
qed

lemma relink_mid:
  assumes "links m (h # us)" and "links m (vs @ [h])" and "distinct (h # us @ ms @ vs)"
    and "ms \<noteq> []" and "links m' ms"
    and "nxt m' (last (h # us)) = hd ms" and "prv m' (hd ms) = last (h # us)"
    and "nxt m' (last ms) = hd (vs @ [h])" and "prv m' (hd (vs @ [h])) = last ms"
    and "\<And>x. x \<in> set (h # us @ vs) \<Longrightarrow> x \<noteq> last (h # us) \<Longrightarrow> nxt m' x = nxt m x"
    and "\<And>x. x \<in> set (h # us @ vs) \<Longrightarrow> x \<noteq> hd (vs @ [h]) \<Longrightarrow> prv m' x = prv m x"
  shows "list_rep m' h (us @ ms @ vs)"
proof -
  have "links m' (h # us)" "links m' (vs @ [h])"
    using halves_kept [OF assms(1,2) _ assms(10,11)] assms(3) by auto
  then have "links m' ((h # us) @ ms @ vs @ [h])"
    unfolding links_append using assms(4-9) by (auto simp: hd_append)
  then show ?thesis using assms(3) by (simp add: list_rep_def)
qed

lemma relink_join:
  assumes "links m (h # us)" and "links m (vs @ [h])" and "distinct (h # us @ vs)"
    and "nxt m' (last (h # us)) = hd (vs @ [h])" and "prv m' (hd (vs @ [h])) = last (h # us)"
    and "\<And>x. x \<in> set (h # us @ vs) \<Longrightarrow> x \<noteq> last (h # us) \<Longrightarrow> nxt m' x = nxt m x"
    and "\<And>x. x \<in> set (h # us @ vs) \<Longrightarrow> x \<noteq> hd (vs @ [h]) \<Longrightarrow> prv m' x = prv m x"
  shows "list_rep m' h (us @ vs)"
  unfolding list_rep_split using halves_kept [OF assms(1-3) assms(6,7)] assms(3-5) by simp

text \<open>Insertion between two neighbours, and the two ways the header uses it.\<close>

lemma list_add_between_rep:
  assumes "list_rep m h (us @ vs)" and "new \<notin> set (h # us @ vs)"
  shows "list_rep (list_add_between m new (last (h # us)) (hd (vs @ [h]))) h (us @ new # vs)"
proof -
  let ?p = "last (h # us)" let ?n = "hd (vs @ [h])"
  note split = assms(1) [unfolded list_rep_split]
  have ne: "?p \<noteq> new" "?n \<noteq> new"
    using assms(2) hd_in_ring [of vs h] last_in_ring [of h us] by auto
  have "list_rep (list_add_between m new ?p ?n) h (us @ [new] @ vs)"
    by (rule relink_mid [of m]) (use split assms(2) ne in \<open>auto simp: klist_simps\<close>)
  then show ?thesis by simp
qed

lemma list_add_rep:
  assumes "list_rep m h xs" and "new \<notin> set (h # xs)"
  shows "list_rep (list_add m new h) h (new # xs)"
  using list_add_between_rep [of m h "[]" xs new] list_rep_prv(2) [of m h "[]" xs] assms
  by (simp add: list_add_def)

text \<open>
  \<open>list_add_tail m new p\<close> inserts before \<open>p\<close>; with the head as \<open>p\<close> that is the end of the list.
\<close>

definition insert_before :: "'a \<Rightarrow> 'a \<Rightarrow> 'a list \<Rightarrow> 'a list" where
  "insert_before new p xs = takeWhile (\<lambda>x. x \<noteq> p) xs @ new # dropWhile (\<lambda>x. x \<noteq> p) xs"

lemma insert_before_notin [klist_simps]: "p \<notin> set xs \<Longrightarrow> insert_before new p xs = xs @ [new]"
proof -
  assume "p \<notin> set xs"
  then have "\<forall>x \<in> set xs. x \<noteq> p" by auto
  then show ?thesis by (simp add: insert_before_def)
qed

lemma insert_before_split [klist_simps]:
  "p \<notin> set us \<Longrightarrow> insert_before new p (us @ p # vs) = us @ new # p # vs"
  by (induction us) (auto simp: insert_before_def)

lemma set_insert_before [simp]: "set (insert_before new p xs) = insert new (set xs)"
proof -
  have "set xs = set (takeWhile (\<lambda>x. x \<noteq> p) xs) \<union> set (dropWhile (\<lambda>x. x \<noteq> p) xs)"
    by (metis set_append takeWhile_dropWhile_id)
  then show ?thesis by (auto simp: insert_before_def)
qed

lemma distinct_insert_before [simp]:
  "distinct (insert_before new p xs) \<longleftrightarrow> new \<notin> set xs \<and> distinct xs"
proof -
  have "mset (insert_before new p xs) = mset (new # xs)"
    unfolding insert_before_def by (metis mset.simps(2) mset_append takeWhile_dropWhile_id
        union_mset_add_mset_right)
  then show ?thesis by (metis distinct.simps(2) mset_eq_imp_distinct_iff)
qed

lemma list_add_tail_rep:
  assumes "list_rep m h xs" and "new \<notin> set (h # xs)" and "p \<in> set (h # xs)"
  shows "list_rep (list_add_tail m new p) h (insert_before new p xs)"
proof (cases "p = h")
  case True
  then have "p \<notin> set xs" using assms(1) by (simp add: list_rep_def)
  moreover have "list_rep (list_add_tail m new h) h (xs @ [new])"
    using list_add_between_rep [of m h xs "[]" new] list_rep_prv(1) [of m h xs "[]"] assms(1,2)
    by (simp add: list_add_tail_def)
  ultimately show ?thesis using True by (simp add: klist_simps)
next
  case False
  then obtain us vs where xs: "xs = us @ p # vs" "p \<notin> set us"
    using assms(3) split_list_first [of p xs] by auto
  then have "list_rep (list_add_tail m new p) h (us @ new # p # vs)"
    using list_add_between_rep [of m h us "p # vs" new] list_rep_prv(1) [of m h us "p # vs"]
      assms(1,2) by (simp add: list_add_tail_def)
  then show ?thesis using xs by (simp add: klist_simps)
qed

text \<open>Removal, replacement and moves.\<close>

lemma list_rep_entry:
  assumes "list_rep m h (us @ e # vs)"
  shows "prv m e = last (h # us)" and "nxt m e = hd (vs @ [h])"
    and "links m (h # us)" and "links m (vs @ [h])" and "distinct (h # us @ e # vs)"
proof -
  note split = assms [unfolded list_rep_split]
  have "links m ([e] @ vs @ [h])" using split by simp
  then show "nxt m e = hd (vs @ [h])" "links m (vs @ [h])"
    unfolding links_append by simp_all
qed (use assms in \<open>simp_all add: list_rep_split\<close>)

lemma list_del_between_rep:
  assumes "list_rep m h (us @ e # vs)"
  shows "list_rep (list_del_between m (prv m e) (nxt m e)) h (us @ vs)"
proof -
  note e = list_rep_entry [OF assms]
  show ?thesis
    by (rule relink_join [OF e(3,4)]) (use e in \<open>auto simp: klist_simps\<close>)
qed

lemma list_del_rep:
  assumes "list_rep m h xs" and "e \<in> set xs"
  shows "list_rep (list_del m e) h (remove1 e xs)"
proof -
  obtain us vs where xs: "xs = us @ e # vs" "e \<notin> set us"
    using assms(2) split_list_first by metis
  note rep = assms(1) [unfolded xs(1)]
  have "list_rep (list_del m e) h (us @ vs)"
    by (rule list_rep_frame [OF list_del_between_rep [OF rep]])
      (use list_rep_entry(5) [OF rep] in \<open>auto simp: list_del_def klist_simps\<close>)
  then show ?thesis using xs by (simp add: remove1_append)
qed

lemma list_del_init_rep:
  assumes "list_rep m h xs" and "e \<in> set xs"
  shows "list_rep (list_del_init m e) h (remove1 e xs)" and "list_rep (list_del_init m e) e []"
proof -
  obtain us vs where xs: "xs = us @ e # vs" "e \<notin> set us"
    using assms(2) split_list_first by metis
  note rep = assms(1) [unfolded xs(1)]
  have "list_rep (list_del_init m e) h (us @ vs)"
    by (rule list_rep_frame [OF list_del_between_rep [OF rep]])
      (use list_rep_entry(5) [OF rep] in \<open>auto simp: list_del_init_def klist_simps\<close>)
  then show "list_rep (list_del_init m e) h (remove1 e xs)" using xs by (simp add: remove1_append)
qed (simp add: list_del_init_def)

lemma list_replace_rep:
  assumes "list_rep m h (us @ old # vs)" and "new \<notin> set (h # us @ old # vs)"
  shows "list_rep (list_replace m old new) h (us @ new # vs)"
proof -
  note e = list_rep_entry [OF assms(1)]
  have ne: "last (h # us) \<noteq> new" "hd (vs @ [h]) \<noteq> new" "old \<noteq> new" "old \<noteq> hd (vs @ [h])"
    using assms(2) e(5) hd_in_ring [of vs h] last_in_ring [of h us] by auto
  have "list_rep (list_replace m old new) h (us @ [new] @ vs)"
    by (rule relink_mid [OF e(3,4)])
      (use e assms(2) ne in \<open>auto simp: list_replace_def Let_def klist_simps\<close>)
  then show ?thesis by simp
qed

lemma list_move_same:
  assumes "list_rep m h xs" and "e \<in> set xs"
  shows "list_rep (list_move m e h) h (e # remove1 e xs)"
    and "list_rep (list_move_tail m e h) h (remove1 e xs @ [e])"
proof -
  obtain us vs where xs: "xs = us @ e # vs" "e \<notin> set us"
    using assms(2) split_list_first by metis
  note rep = assms(1) [unfolded xs(1)]
  have r: "remove1 e xs = us @ vs" using xs by (simp add: remove1_append)
  have "e \<notin> set (h # us @ vs)" using list_rep_entry(5) [OF rep] by auto
  then show "list_rep (list_move m e h) h (e # remove1 e xs)"
      "list_rep (list_move_tail m e h) h (remove1 e xs @ [e])"
    using list_add_rep [OF list_del_between_rep [OF rep]]
      list_add_tail_rep [OF list_del_between_rep [OF rep], of e h]
      list_rep_entry(5) [OF rep]
    by (simp_all add: list_move_def list_move_tail_def r klist_simps del: list_mem_simps)
qed

lemma list_rotate_left_rep:
  "list_rep m h (x # xs) \<Longrightarrow> list_rep (list_rotate_left m h) h (xs @ [x])"
  "list_rep m h [] \<Longrightarrow> list_rotate_left m h = m"
proof -
  assume rep: "list_rep m h (x # xs)"
  have "nxt m h = x" "x \<noteq> h" using rep by (auto simp: list_rep_def)
  then show "list_rep (list_rotate_left m h) h (xs @ [x])"
    using list_move_same(2) [OF rep, of x] by (simp add: list_rotate_left_def list_empty_def)
qed (simp add: list_rotate_left_def list_empty_def list_rep_def)

text \<open>Tests.\<close>

lemma list_empty_rep: "list_rep m h xs \<Longrightarrow> list_empty m h \<longleftrightarrow> xs = []"
  by (cases xs) (auto simp: list_rep_def list_empty_def)

lemma list_is_last_rep:
  assumes "list_rep m h xs" and "e \<in> set xs"
  shows "list_is_last m e h \<longleftrightarrow> e = last xs"
proof -
  obtain us vs where xs: "xs = us @ e # vs" "e \<notin> set us"
    using assms(2) split_list_first by metis
  note e = list_rep_entry [OF assms(1) [unfolded xs(1)]]
  show ?thesis using e(2,5) xs(1) by (cases vs) (auto simp: list_is_last_def)
qed

lemma list_is_singular_rep:
  assumes "list_rep m h xs"
  shows "list_is_singular m h \<longleftrightarrow> length xs = 1"
proof (cases xs)
  case (Cons x ys)
  have "nxt m h = x" "prv m h = last xs"
    using list_rep_prv(2) [of m h "[]" xs] list_rep_prv(1) [of m h xs "[]"] assms Cons by auto
  then show ?thesis
    using assms Cons list_empty_rep [OF assms]
    by (cases ys) (auto simp: list_is_singular_def list_rep_def)
qed (use list_empty_rep [OF assms] in \<open>simp add: list_is_singular_def\<close>)

lemma list_for_each_from_rep:
  assumes "list_rep m h (us @ vs)" and "length vs < fuel"
  shows "list_for_each_from fuel m h (hd (vs @ [h])) = Some vs"
  using assms
proof (induction vs arbitrary: us fuel)
  case Nil
  then show ?case by (cases fuel) auto
next
  case (Cons v vs)
  obtain f where f: "fuel = Suc f" "length vs < f" using Cons.prems(2) by (cases fuel) auto
  note e = list_rep_entry [OF Cons.prems(1)]
  have "list_for_each_from f m h (hd (vs @ [h])) = Some vs"
    using Cons.IH [of "us @ [v]" f] Cons.prems(1) f by simp
  then show ?case using e(2,5) f by auto
qed

lemma list_for_each_rep:
  "list_rep m h xs \<Longrightarrow> length xs < fuel \<Longrightarrow> list_for_each fuel m h = Some xs"
  using list_for_each_from_rep [of m h "[]" xs fuel] list_rep_prv(2) [of m h "[]" xs]
  by (simp add: list_for_each_def)

text \<open>Splicing and cutting.\<close>

lemma list_rep_ends:
  assumes "list_rep m l ys" and "ys \<noteq> []"
  shows "nxt m l = hd ys" and "prv m l = last ys" and "links m ys" and "\<not> list_empty m l"
proof -
  have "links m ([l] @ ys @ [l])" using assms(1) by (simp add: list_rep_def)
  then show "nxt m l = hd ys" "prv m l = last ys" "links m ys"
    unfolding links_append using assms(2) by auto
qed (use list_empty_rep [OF assms(1)] assms(2) in simp)

lemma list_splice_between_rep:
  assumes "list_rep m h (us @ vs)" and "list_rep m l ys" and "ys \<noteq> []"
    and "set (h # us @ vs) \<inter> set (l # ys) = {}"
  shows "list_rep (list_splice_between m l (last (h # us)) (hd (vs @ [h]))) h (us @ ys @ vs)"
proof -
  define p where "p = last (h # us)"
  define n where "n = hd (vs @ [h])"
  define m' where "m' = list_splice_between m l p n"
  note split = assms(1) [unfolded list_rep_split, folded p_def n_def]
  note ends = list_rep_ends [OF assms(2,3)]
  have d: "distinct (l # ys)" using assms(2) by (rule list_rep_distinct)
  have pn: "p \<in> set (h # us @ vs)" "n \<in> set (h # us @ vs)"
    using hd_in_ring [of vs h] last_in_ring [of h us] by (auto simp: p_def n_def)
  have y: "hd ys \<in> set ys" "last ys \<in> set ys" using assms(3) by auto
  have ne: "p \<notin> set ys" "n \<notin> set ys" "hd ys \<notin> set (h # us @ vs)" "last ys \<notin> set (h # us @ vs)"
    using pn y assms(4) by auto
  have nxt: "nxt m' = (nxt m)(p := hd ys, last ys := n)"
    and prv: "prv m' = (prv m)(hd ys := p, n := last ys)"
    by (simp_all add: m'_def list_splice_between_def Let_def ends klist_simps)
  have "links m' ys = links m ys"
  proof (rule links_cong)
    fix x assume x: "x \<in> set (butlast ys)"
    then have "x \<noteq> last ys" "x \<in> set ys"
      using in_butlast_distinct [of ys] d assms(3) by (auto dest: in_set_butlastD)
    then show "nxt m' x = nxt m x" using ne(1) by (auto simp: nxt)
  next
    fix x assume x: "x \<in> set (tl ys)"
    then have "x \<noteq> hd ys" "x \<in> set ys" using d assms(3) by (cases ys; auto)+
    then show "prv m' x = prv m x" using ne(2) by (auto simp: prv)
  qed
  then have "links m' ys" using ends(3) by simp
  moreover have "distinct (h # us @ ys @ vs)" using split d assms(4) by auto
  moreover have "hd ys \<noteq> n" "last ys \<noteq> p" using ne y by auto
  ultimately have "list_rep m' h (us @ ys @ vs)"
    using split assms(3) ne
    by (intro relink_mid [of m h us vs ys m', folded p_def n_def])
      (simp_all add: nxt prv del: last.simps, auto)
  then show ?thesis by (simp only: m'_def p_def n_def)
qed

lemma list_splice_rep:
  assumes "list_rep m h xs" and "list_rep m l ys" and "set (h # xs) \<inter> set (l # ys) = {}"
  shows "list_rep (list_splice m l h) h (ys @ xs)"
    and "list_rep (list_splice_tail m l h) h (xs @ ys)"
proof -
  have "list_rep (list_splice m l h) h (ys @ xs) \<and> list_rep (list_splice_tail m l h) h (xs @ ys)"
  proof (cases "ys = []")
    case True
    then show ?thesis
      using assms(1) list_empty_rep [OF assms(2)] by (simp add: list_splice_def list_splice_tail_def)
  next
    case False
    then show ?thesis
      using list_splice_between_rep [of m h "[]" xs l ys]
        list_splice_between_rep [of m h xs "[]" l ys]
        list_rep_prv(2) [of m h "[]" xs] list_rep_prv(1) [of m h xs "[]"] assms
        list_empty_rep [OF assms(2)]
      by (simp add: list_splice_def list_splice_tail_def)
  qed
  then show "list_rep (list_splice m l h) h (ys @ xs)" "list_rep (list_splice_tail m l h) h (xs @ ys)"
    by simp_all
qed

lemma INIT_LIST_HEAD_frame:
  "list_rep m h xs \<Longrightarrow> l \<notin> set (h # xs) \<Longrightarrow> list_rep (INIT_LIST_HEAD m l) h xs"
  by (erule list_rep_frame) (auto simp: klist_simps)

lemma list_splice_init_rep:
  assumes "list_rep m h xs" and "list_rep m l ys" and "set (h # xs) \<inter> set (l # ys) = {}"
  shows "list_rep (list_splice_init m l h) h (ys @ xs)" and "list_rep (list_splice_init m l h) l []"
    and "list_rep (list_splice_tail_init m l h) h (xs @ ys)"
    and "list_rep (list_splice_tail_init m l h) l []"
proof -
  have l: "l \<notin> set (h # ys @ xs)" "l \<notin> set (h # xs @ ys)"
    using assms(3) list_rep_distinct [OF assms(2)] by auto
  have eqs: "list_splice_init m l h = (if ys = [] then m else INIT_LIST_HEAD (list_splice m l h) l)"
    "list_splice_tail_init m l h = (if ys = [] then m else INIT_LIST_HEAD (list_splice_tail m l h) l)"
    using list_empty_rep [OF assms(2)]
    by (simp_all add: list_splice_init_def list_splice_tail_init_def list_splice_def
        list_splice_tail_def)
  show "list_rep (list_splice_init m l h) h (ys @ xs)"
      "list_rep (list_splice_tail_init m l h) h (xs @ ys)"
    using list_splice_rep [OF assms] l assms(1) INIT_LIST_HEAD_frame
    by (auto simp: eqs)
  show "list_rep (list_splice_init m l h) l []" "list_rep (list_splice_tail_init m l h) l []"
    using assms(2) by (auto simp: eqs)
qed

lemma list_cut_position_rep:
  assumes "list_rep m h (us @ e # vs)" and "l \<notin> set (h # us @ e # vs)"
  shows "list_rep (list_cut_position m l h e) l (us @ [e])"
    and "list_rep (list_cut_position m l h e) h vs"
proof -
  note d = list_rep_entry [OF assms(1)]
  have ends: "nxt m h = hd (us @ [e])" "\<not> list_empty m h"
    using list_rep_ends [OF assms(1)] by (cases us; simp)+
  have "\<not> (list_is_singular m h \<and> nxt m h \<noteq> e \<and> h \<noteq> e)"
    using list_is_singular_rep [OF assms(1)] ends(1) by (cases us) auto
  then have cut: "list_cut_position m l h e = list_cut_position_raw m l h e"
    using ends(2) d(5) by (auto simp: list_cut_position_def)
  let ?m = "list_cut_position_raw m l h e" and ?f = "hd (us @ [e])" and ?n = "hd (vs @ [h])"
  have f: "?f \<in> set (us @ [e])" by (cases us) auto
  have n: "?n \<in> set (h # vs)" by (rule hd_in_ring)
  have ne: "l \<noteq> ?f" "l \<noteq> ?n" "e \<noteq> h" "?f \<noteq> h" "e \<noteq> ?n" "?f \<noteq> ?n" "l \<noteq> e" "l \<noteq> h"
    using f n d(5) assms(2) by auto
  have nxt: "nxt ?m = (nxt m)(l := ?f, e := l, h := ?n)"
    and prv: "prv ?m = (prv m)(?f := l, l := e, ?n := h)"
    using ends(1) d(2) ne by (auto simp: list_cut_position_raw_def Let_def klist_simps)
  have pre: "links m (us @ [e])"
    using assms(1) links_append [of m "[h]" "us @ e # vs @ [h]"]
      links_append [of m "us @ [e]" "vs @ [h]"] by (simp add: list_rep_def)
  have "links ?m (us @ [e]) = links m (us @ [e])"
    by (rule links_cong) (use d(5) assms(2) n in \<open>cases us; auto simp: nxt prv butlast_append\<close>)+
  then have "links ?m (us @ [e])" using pre by simp
  then have "links ?m ([l] @ (us @ [e]) @ [l])"
    unfolding links_append [of _ "[l]"] links_append [of _ "us @ [e]"]
    using ne by (cases us) (auto simp: nxt prv)
  then show "list_rep (list_cut_position m l h e) l (us @ [e])"
    using cut d(5) assms(2) by (auto simp: list_rep_def)
  have "links ?m (vs @ [h]) = links m (vs @ [h])"
    by (rule links_cong) (use d(5) assms(2) f in \<open>cases vs; auto simp: nxt prv butlast_append\<close>)+
  then have "links ?m (vs @ [h])" using d(4) by simp
  then have "links ?m ([h] @ vs @ [h])"
    unfolding links_append [of _ "[h]"] using ne by (auto simp: nxt prv)
  then show "list_rep (list_cut_position m l h e) h vs"
    using cut d(5) by (auto simp: list_rep_def)
qed

section \<open>The interface\<close>

text \<open>
  What a driver relies on: a store \<open>'m\<close> holds lists named by their heads; entries are added
  before a position or at the front, removed, and walked, and an operation on one list keeps
  every list that shares no node with it. The lemmas of the locale lift this to a whole family
  of disjoint lists, which is what a driver has (an LRU list and one list per object).
\<close>

locale kernel_list =
  fixes rep :: "'m \<Rightarrow> nat \<Rightarrow> nat list \<Rightarrow> bool"
    and add_tail add_head :: "'m \<Rightarrow> nat \<Rightarrow> nat \<Rightarrow> 'm"
    and del :: "'m \<Rightarrow> nat \<Rightarrow> 'm"
    and walk :: "nat \<Rightarrow> 'm \<Rightarrow> nat \<Rightarrow> nat list option"
  assumes rep_distinct: "rep m h xs \<Longrightarrow> distinct (h # xs)"
    and rep_add_tail: "rep m h xs \<Longrightarrow> x \<notin> set (h # xs) \<Longrightarrow> p \<in> set (h # xs) \<Longrightarrow>
      rep (add_tail m x p) h (insert_before x p xs)"
    and rep_add_head: "rep m h xs \<Longrightarrow> x \<notin> set (h # xs) \<Longrightarrow> rep (add_head m x h) h (x # xs)"
    and rep_del: "rep m h xs \<Longrightarrow> x \<in> set xs \<Longrightarrow> rep (del m x) h (remove1 x xs)"
    and rep_walk: "rep m h xs \<Longrightarrow> length xs < fuel \<Longrightarrow> walk fuel m h = Some xs"
    and frame_add_tail: "rep m h xs \<Longrightarrow> rep m k ys \<Longrightarrow> set (h # xs) \<inter> set (k # ys) = {} \<Longrightarrow>
      p \<in> set (h # xs) \<Longrightarrow> x \<notin> set (k # ys) \<Longrightarrow> rep (add_tail m x p) k ys"
    and frame_add_head: "rep m h xs \<Longrightarrow> rep m k ys \<Longrightarrow> set (h # xs) \<inter> set (k # ys) = {} \<Longrightarrow>
      x \<notin> set (k # ys) \<Longrightarrow> rep (add_head m x h) k ys"
    and frame_del: "rep m h xs \<Longrightarrow> rep m k ys \<Longrightarrow> set (h # xs) \<inter> set (k # ys) = {} \<Longrightarrow>
      x \<in> set xs \<Longrightarrow> rep (del m x) k ys"
begin

definition family :: "'m \<Rightarrow> (nat \<rightharpoonup> nat list) \<Rightarrow> bool" where
  "family m L \<longleftrightarrow> (\<forall>h xs. L h = Some xs \<longrightarrow> rep m h xs) \<and>
     (\<forall>h xs k ys. L h = Some xs \<longrightarrow> L k = Some ys \<longrightarrow> h \<noteq> k \<longrightarrow> set (h # xs) \<inter> set (k # ys) = {})"

definition nodes :: "(nat \<rightharpoonup> nat list) \<Rightarrow> nat set" where
  "nodes L = {x. \<exists>h xs. L h = Some xs \<and> x \<in> set (h # xs)}"

lemma family_add_tail:
  assumes "family m L" and "L h = Some xs" and "x \<notin> nodes L" and "p \<in> set (h # xs)"
  shows "family (add_tail m x p) (L(h \<mapsto> insert_before x p xs))"
proof -
  have x: "x \<notin> set (k # ys)" if "L k = Some ys" for k ys
    using assms(3) that unfolding nodes_def by blast
  have "rep (add_tail m x p) h (insert_before x p xs)"
    using assms x by (intro rep_add_tail) (auto simp: family_def)
  moreover have "rep (add_tail m x p) k ys" if "L k = Some ys" "k \<noteq> h" for k ys
    by (rule frame_add_tail [of m h xs])
      (use assms x [OF that(1)] that in \<open>auto simp: family_def\<close>)
  ultimately show ?thesis
    using assms(1,2) x unfolding family_def by (auto split: if_splits)
qed

lemma family_add_head:
  assumes "family m L" and "L h = Some xs" and "x \<notin> nodes L"
  shows "family (add_head m x h) (L(h \<mapsto> x # xs))"
proof -
  have x: "x \<notin> set (k # ys)" if "L k = Some ys" for k ys
    using assms(3) that unfolding nodes_def by blast
  have "rep (add_head m x h) h (x # xs)"
    using assms(1,2) x [OF assms(2)] by (intro rep_add_head) (auto simp: family_def)
  moreover have "rep (add_head m x h) k ys" if "L k = Some ys" "k \<noteq> h" for k ys
    by (rule frame_add_head [of m h xs])
      (use assms x [OF that(1)] that in \<open>auto simp: family_def\<close>)
  ultimately show ?thesis
    using assms(1,2) x unfolding family_def by (auto split: if_splits)
qed

lemma family_del:
  assumes "family m L" and "L h = Some xs" and "x \<in> set xs"
  shows "family (del m x) (L(h \<mapsto> remove1 x xs))"
proof -
  have "rep (del m x) h (remove1 x xs)"
    using assms by (intro rep_del) (auto simp: family_def)
  moreover have "rep (del m x) k ys" if "L k = Some ys" "k \<noteq> h" for k ys
    by (rule frame_del [of m h xs]) (use assms that in \<open>auto simp: family_def\<close>)
  moreover have "set (remove1 x xs) \<subseteq> set xs" by (rule set_remove1_subset)
  ultimately show ?thesis
    using assms(1,2) unfolding family_def by (auto split: if_splits) blast+
qed

lemma family_walk:
  "family m L \<Longrightarrow> L h = Some xs \<Longrightarrow> length xs < fuel \<Longrightarrow> walk fuel m h = Some xs"
  by (simp add: family_def rep_walk)

end

lemma list_add_between_frame:
  "list_rep m k ys \<Longrightarrow> {new, p, n} \<inter> set (k # ys) = {} \<Longrightarrow> list_rep (list_add_between m new p n) k ys"
  by (erule list_rep_frame) (auto simp: klist_simps)

lemma ring_neighbours:
  assumes "list_rep m h xs" and "p \<in> set (h # xs)"
  shows "prv m p \<in> set (h # xs)" and "nxt m p \<in> set (h # xs)"
proof -
  have "prv m p \<in> set (h # xs) \<and> nxt m p \<in> set (h # xs)"
  proof (cases "p = h")
    case True
    show ?thesis
      using list_rep_prv(2) [of m h "[]" xs] list_rep_prv(1) [of m h xs "[]"] assms(1)
        hd_in_ring [of xs h] last_in_ring [of h xs] True by auto
  next
    case False
    then obtain us vs where xs: "xs = us @ p # vs" using assms(2) split_list by fastforce
    show ?thesis
      using list_rep_entry(1,2) [OF assms(1) [unfolded xs]] hd_in_ring [of vs h]
        last_in_ring [of h us] xs by auto
  qed
  then show "prv m p \<in> set (h # xs)" "nxt m p \<in> set (h # xs)" by simp_all
qed

interpretation list_h: kernel_list list_rep list_add_tail list_add list_del list_for_each
proof unfold_locales
  fix m h k x p and xs ys :: "nat list"
  assume rep: "list_rep m h xs" "list_rep m k ys" and disj: "set (h # xs) \<inter> set (k # ys) = {}"
  show "list_rep (list_add_tail m x p) k ys" if "p \<in> set (h # xs)" "x \<notin> set (k # ys)"
    unfolding list_add_tail_def
    by (rule list_add_between_frame [OF rep(2)])
      (use that disj ring_neighbours(1) [OF rep(1) that(1)] in blast)
  show "list_rep (list_add m x h) k ys" if "x \<notin> set (k # ys)"
    unfolding list_add_def
    by (rule list_add_between_frame [OF rep(2)])
      (use that disj ring_neighbours(2) [OF rep(1), of h] in auto)
  show "list_rep (list_del m x) k ys" if "x \<in> set xs"
    by (rule list_rep_frame [OF rep(2)])
      (use that disj ring_neighbours [OF rep(1), of x] in \<open>auto simp: list_del_def klist_simps\<close>)
qed (fact list_rep_distinct list_add_tail_rep list_add_rep list_del_rep list_for_each_rep)+

section \<open>Properties\<close>

text \<open>
  C17. The functions of list.h implement lists: on a memory whose nodes represent the list
  \<open>us @ e # vs\<close> under the head \<open>h\<close>, insertion at the front, at the end and before an entry,
  removal, replacement, moving to the front or the end and cutting after an entry give memories
  that represent the corresponding HOL lists, and the walk visits exactly the entries in order.
\<close>

theorem list_ops_refine:
  assumes "list_rep m h (us @ e # vs)" and "x \<notin> set (h # us @ e # vs)"
  shows "list_rep (list_add m x h) h (x # us @ e # vs) \<and>
      list_rep (list_add_tail m x h) h (us @ e # vs @ [x]) \<and>
      list_rep (list_add_tail m x e) h (us @ x # e # vs) \<and>
      list_rep (list_del m e) h (us @ vs) \<and>
      list_rep (list_del_init m e) h (us @ vs) \<and> list_rep (list_del_init m e) e [] \<and>
      list_rep (list_replace m e x) h (us @ x # vs) \<and>
      list_rep (list_move m e h) h (e # us @ vs) \<and>
      list_rep (list_move_tail m e h) h (us @ vs @ [e]) \<and>
      list_rep (list_cut_position m x h e) x (us @ [e]) \<and>
      list_rep (list_cut_position m x h e) h vs \<and>
      (length (us @ e # vs) < fuel \<longrightarrow> list_for_each fuel m h = Some (us @ e # vs))"
proof (intro conjI impI)
  have d: "e \<notin> set us" "h \<notin> set us" "h \<noteq> e" "h \<notin> set vs"
    using list_rep_distinct [OF assms(1)] by auto
  have e: "e \<in> set (us @ e # vs)" "remove1 e (us @ e # vs) = us @ vs"
    using d(1) by (simp_all add: remove1_append)
  show "list_rep (list_add m x h) h (x # us @ e # vs)" by (rule list_add_rep [OF assms])
  show "list_rep (list_add_tail m x h) h (us @ e # vs @ [x])"
    using list_add_tail_rep [OF assms, of h] d by (simp add: klist_simps)
  show "list_rep (list_add_tail m x e) h (us @ x # e # vs)"
    using list_add_tail_rep [OF assms, of e] d by (simp add: klist_simps)
  show "list_rep (list_del m e) h (us @ vs)" using list_del_rep [OF assms(1) e(1)] e(2) by simp
  show "list_rep (list_del_init m e) h (us @ vs)" "list_rep (list_del_init m e) e []"
    using list_del_init_rep [OF assms(1) e(1)] e(2) by simp_all
  show "list_rep (list_replace m e x) h (us @ x # vs)" by (rule list_replace_rep [OF assms])
  show "list_rep (list_move m e h) h (e # us @ vs)" "list_rep (list_move_tail m e h) h (us @ vs @ [e])"
    using list_move_same [OF assms(1) e(1)] e(2) by simp_all
  show "list_rep (list_cut_position m x h e) x (us @ [e])" "list_rep (list_cut_position m x h e) h vs"
    using list_cut_position_rep [OF assms] by simp_all
qed (rule list_for_each_rep [OF assms(1)])

text \<open>
  C29. In a memory that holds several lists without common nodes, adding an unused node to one
  list, or removing an entry from it, changes that list as on HOL lists and keeps all others.
\<close>

theorem list_family_refine:
  assumes "list_h.family m L" and "L h = Some xs"
  shows "(x \<notin> list_h.nodes L \<and> p \<in> set (h # xs) \<longrightarrow>
      list_h.family (list_add_tail m x p) (L(h \<mapsto> insert_before x p xs))) \<and>
    (x \<notin> list_h.nodes L \<longrightarrow> list_h.family (list_add m x h) (L(h \<mapsto> x # xs))) \<and>
    (x \<in> set xs \<longrightarrow> list_h.family (list_del m x) (L(h \<mapsto> remove1 x xs)))"
  using list_h.family_add_tail [OF assms] list_h.family_add_head [OF assms]
    list_h.family_del [OF assms] by simp_all

text \<open>A memory with the list 1, 2, 3 under the head 0 and an empty list with the head 9.\<close>

definition demo_lists :: list_mem where
  "demo_lists = list_add_tail (list_add_tail (list_add_tail
     (INIT_LIST_HEAD (INIT_LIST_HEAD \<lparr>nxt = \<lambda>_. 0, prv = \<lambda>_. 0\<rparr> 9) 0) 1 0) 2 0) 3 0"

lemma demo_lists_rep: "list_rep demo_lists 0 ([1] @ 2 # [3])" "list_rep demo_lists 9 []"
  by (simp_all add: demo_lists_def list_rep_def list_add_tail_def klist_simps)

theorem list_ops_refine_witness:
  "list_rep (list_del demo_lists 2) 0 ([1] @ [3]) \<and> list_rep (list_add demo_lists 7 0) 0 [7, 1, 2, 3] \<and>
   list_for_each 4 demo_lists 0 = Some [1, 2, 3]"
  using list_ops_refine [OF demo_lists_rep(1), of 7] by simp

theorem list_family_refine_witness:
  "list_h.family (list_add_tail demo_lists 5 0) [9 \<mapsto> [], 0 \<mapsto> [1, 2, 3, 5]]"
proof -
  have "list_h.family demo_lists [9 \<mapsto> [], 0 \<mapsto> [1, 2, 3]]"
    using demo_lists_rep by (auto simp: list_h.family_def)
  from list_family_refine [OF this, of 0 "[1, 2, 3]" 5 0] show ?thesis
    by (simp add: list_h.nodes_def insert_before_def split: if_splits)
qed

end
