(* ===== verification/Ashmem.thy ===== *)
theory Ashmem
  imports KList
begin

text \<open>
  The anonymous shared memory driver, \<open>mm/ashmem.c\<close>.

  The driver keeps, for every open file, an area with a list of unpinned page ranges, and one
  LRU list of all unpinned ranges that have not been purged. Ranges sit on two lists at once,
  so they have identities here: \<open>ranges\<close> is the store of \<open>struct ashmem_range\<close>, and the lists
  hold identities in list order (\<open>list_add_tail\<close> before a range is \<open>insert_before\<close>, see KList).
  Page numbers, sizes and \<open>lru_count\<close> are 32-bit words. The calls of \<open>vmtruncate_range\<close> are
  recorded in \<open>truncations\<close>. The shared memory file system behind the areas is not part of the
  driver: its \<open>read\<close>, \<open>llseek\<close> and \<open>shmem_file_setup\<close> are parameters.
\<close>

section \<open>State\<close>

definition ASHMEM_NAME_LEN :: nat where
  "ASHMEM_NAME_LEN = 256"

definition ascii :: "string \<Rightarrow> u8 list" where
  "ascii s = map of_char s"

definition ASHMEM_NAME_PREFIX :: "u8 list" where
  "ASHMEM_NAME_PREFIX = ascii ''dev/ashmem/''"

definition ASHMEM_NAME_PREFIX_LEN :: nat where
  "ASHMEM_NAME_PREFIX_LEN = length ASHMEM_NAME_PREFIX"

definition ASHMEM_FULL_NAME_LEN :: nat where
  "ASHMEM_FULL_NAME_LEN = ASHMEM_NAME_LEN + ASHMEM_NAME_PREFIX_LEN"

definition ASHMEM_NAME_DEF :: "u8 list" where
  "ASHMEM_NAME_DEF = ascii ''dev/ashmem''"

definition ASHMEM_NOT_PURGED :: u32 where
  "ASHMEM_NOT_PURGED = 0"

definition ASHMEM_WAS_PURGED :: u32 where
  "ASHMEM_WAS_PURGED = 1"

definition ASHMEM_IS_UNPINNED :: u32 where
  "ASHMEM_IS_UNPINNED = 0"

definition ASHMEM_IS_PINNED :: u32 where
  "ASHMEM_IS_PINNED = 1"

record ashmem_area =
  area_name :: "u8 list"
  unpinned_list :: "nat list"
  area_file :: "nat option"
  area_size :: u32
  prot_mask :: u32

record ashmem_range =
  range_asma :: nat
  pgstart :: u32
  pgend :: u32
  purged :: u32

datatype vfile = Ashmem_file nat | Shmem_file nat

record ashmem_state =
  areas :: "nat \<rightharpoonup> ashmem_area"
  ranges :: "nat \<Rightarrow> ashmem_range"
  ashmem_lru_list :: "nat list"
  lru_count :: u32
  next_range :: nat
  next_file :: nat
  file_count :: "vfile \<Rightarrow> int"
  shmem_pos :: "nat \<Rightarrow> u64"
  truncations :: "(nat option \<times> u64 \<times> u64) list"

text \<open>An area as \<open>kmem_cache_zalloc\<close> returns it; it also stands for an area that does not exist.\<close>

definition zero_area :: ashmem_area where
  "zero_area = \<lparr>area_name = replicate ASHMEM_FULL_NAME_LEN 0, unpinned_list = [], area_file = None,
     area_size = 0, prot_mask = 0\<rparr>"

definition area :: "ashmem_state \<Rightarrow> nat \<Rightarrow> ashmem_area" where
  "area st a = (case areas st a of None \<Rightarrow> zero_area | Some A \<Rightarrow> A)"

definition upd_area :: "(ashmem_area \<Rightarrow> ashmem_area) \<Rightarrow> nat \<Rightarrow> ashmem_state \<Rightarrow> ashmem_state" where
  "upd_area f a st = st\<lparr>areas := (areas st)(a \<mapsto> f (area st a))\<rparr>"

definition upd_range :: "(ashmem_range \<Rightarrow> ashmem_range) \<Rightarrow> nat \<Rightarrow> ashmem_state \<Rightarrow> ashmem_state" where
  "upd_range f r st = st\<lparr>ranges := (ranges st)(r := f (ranges st r))\<rparr>"

section \<open>Ranges\<close>

definition range_size :: "ashmem_range \<Rightarrow> u32" where
  "range_size r = pgend r - pgstart r + 1"

definition range_on_lru :: "ashmem_range \<Rightarrow> bool" where
  "range_on_lru r \<longleftrightarrow> purged r = ASHMEM_NOT_PURGED"

definition page_range_subsumes_range :: "ashmem_range \<Rightarrow> u32 \<Rightarrow> u32 \<Rightarrow> bool" where
  "page_range_subsumes_range r s e \<longleftrightarrow> pgstart r \<ge> s \<and> pgend r \<le> e"

definition page_range_subsumed_by_range :: "ashmem_range \<Rightarrow> u32 \<Rightarrow> u32 \<Rightarrow> bool" where
  "page_range_subsumed_by_range r s e \<longleftrightarrow> pgstart r \<le> s \<and> pgend r \<ge> e"

definition page_in_range :: "ashmem_range \<Rightarrow> u32 \<Rightarrow> bool" where
  "page_in_range r p \<longleftrightarrow> pgstart r \<le> p \<and> pgend r \<ge> p"

definition page_range_in_range :: "ashmem_range \<Rightarrow> u32 \<Rightarrow> u32 \<Rightarrow> bool" where
  "page_range_in_range r s e \<longleftrightarrow>
     page_in_range r s \<or> page_in_range r e \<or> page_range_subsumes_range r s e"

definition range_before_page :: "ashmem_range \<Rightarrow> u32 \<Rightarrow> bool" where
  "range_before_page r p \<longleftrightarrow> pgend r < p"

definition lru_add :: "nat \<Rightarrow> ashmem_state \<Rightarrow> ashmem_state" where
  "lru_add r st = st\<lparr>ashmem_lru_list := ashmem_lru_list st @ [r],
                     lru_count := lru_count st + range_size (ranges st r)\<rparr>"

definition lru_del :: "nat \<Rightarrow> ashmem_state \<Rightarrow> ashmem_state" where
  "lru_del r st = st\<lparr>ashmem_lru_list := remove1 r (ashmem_lru_list st),
                     lru_count := lru_count st - range_size (ranges st r)\<rparr>"

text \<open>
  \<open>km\<close> says whether \<open>kmem_cache_zalloc\<close> succeeds; \<open>prev\<close> is the entry the new range goes in
  front of, \<open>None\<close> the head of the area's list.
\<close>

definition range_alloc :: "bool \<Rightarrow> nat \<Rightarrow> nat option \<Rightarrow> u32 \<Rightarrow> u32 \<Rightarrow> u32 \<Rightarrow> ashmem_state \<Rightarrow>
    ashmem_state \<times> (errno + u32)" where
  "range_alloc km a prev pur s e st =
     (if \<not> km then (st, Inl ENOMEM)
      else
        let r = next_range st;
            st1 = st\<lparr>ranges := (ranges st)(r := \<lparr>range_asma = a, pgstart = s, pgend = e, purged = pur\<rparr>),
                     next_range := Suc r\<rparr>;
            st2 = upd_area (\<lambda>A. A\<lparr>unpinned_list :=
                      (case prev of None \<Rightarrow> unpinned_list A @ [r]
                       | Some p \<Rightarrow> insert_before r p (unpinned_list A))\<rparr>) a st1;
            st3 = (if range_on_lru (ranges st2 r) then lru_add r st2 else st2)
        in (st3, Inr 0))"

text \<open>\<open>list_del\<close> unlinks a range from whichever area's list it is on.\<close>

definition unpinned_del :: "nat \<Rightarrow> ashmem_state \<Rightarrow> ashmem_state" where
  "unpinned_del r st = st\<lparr>areas := (\<lambda>a. map_option
     (\<lambda>A. A\<lparr>unpinned_list := remove1 r (unpinned_list A)\<rparr>) (areas st a))\<rparr>"

definition range_del :: "nat \<Rightarrow> ashmem_state \<Rightarrow> ashmem_state" where
  "range_del r st =
     (let st1 = unpinned_del r st
      in if range_on_lru (ranges st1 r) then lru_del r st1 else st1)"

definition range_shrink :: "nat \<Rightarrow> u32 \<Rightarrow> u32 \<Rightarrow> ashmem_state \<Rightarrow> ashmem_state" where
  "range_shrink r s e st =
     (let pre = range_size (ranges st r);
          st1 = upd_range (\<lambda>R. R\<lparr>pgstart := s, pgend := e\<rparr>) r st
      in if range_on_lru (ranges st1 r)
         then st1\<lparr>lru_count := lru_count st1 - (pre - range_size (ranges st1 r))\<rparr> else st1)"

section \<open>Pin and unpin\<close>

text \<open>
  \<open>list_for_each_entry_safe\<close> walks the list as it was; the loop bodies remove the current entry,
  or insert before it and leave the loop, so the walk is a recursion over the initial list.
\<close>

fun pin_loop :: "bool \<Rightarrow> nat \<Rightarrow> u32 \<Rightarrow> u32 \<Rightarrow> nat list \<Rightarrow> u32 \<Rightarrow> ashmem_state \<Rightarrow> ashmem_state \<times> u32" where
  "pin_loop km a s e [] ret st = (st, ret)"
| "pin_loop km a s e (r # rs) ret st =
     (let R = ranges st r in
      if range_before_page R s then (st, ret)
      else if page_range_in_range R s e then
        let ret' = ret OR purged R in
        if page_range_subsumes_range R s e then
          pin_loop km a s e rs ret' (range_del r st)
        else if pgstart R \<ge> s then
          pin_loop km a s e rs ret' (range_shrink r (e + 1) (pgend R) st)
        else if pgend R \<le> e then
          pin_loop km a s e rs ret' (range_shrink r (pgstart R) (s - 1) st)
        else
          (let (st1, _) = range_alloc km a (Some r) (purged R) (e + 1) (pgend R) st
           in (range_shrink r (pgstart R) (s - 1) st1, ret'))
      else pin_loop km a s e rs ret st)"

definition ashmem_pin :: "bool \<Rightarrow> nat \<Rightarrow> u32 \<Rightarrow> u32 \<Rightarrow> ashmem_state \<Rightarrow> ashmem_state \<times> u32" where
  "ashmem_pin km a s e st = pin_loop km a s e (unpinned_list (area st a)) ASHMEM_NOT_PURGED st"

datatype unpin_action = Covered | Merge nat | Insert_before nat | Insert_at_end

fun unpin_scan :: "(nat \<Rightarrow> ashmem_range) \<Rightarrow> u32 \<Rightarrow> u32 \<Rightarrow> nat list \<Rightarrow> unpin_action" where
  "unpin_scan rng s e [] = Insert_at_end"
| "unpin_scan rng s e (r # rs) =
     (if range_before_page (rng r) s then Insert_before r
      else if page_range_subsumed_by_range (rng r) s e then Covered
      else if page_range_in_range (rng r) s e then Merge r
      else unpin_scan rng s e rs)"

lemma unpin_scan_Merge: "unpin_scan rng s e rs = Merge r \<Longrightarrow> r \<in> set rs"
  by (induction rs) (auto split: if_splits)

lemma unpin_scan_Insert: "unpin_scan rng s e rs = Insert_before r \<Longrightarrow> r \<in> set rs"
  by (induction rs) (auto split: if_splits)

lemma areas_range_del [simp]: "areas (range_del r st) = areas (unpinned_del r st)"
  by (simp add: range_del_def lru_del_def Let_def)

lemma unpinned_range_del [simp]:
  "unpinned_list (area (range_del r st) a) = remove1 r (unpinned_list (area st a))"
  by (simp add: area_def unpinned_del_def zero_area_def split: option.split)

lemma length_remove1_less: "x \<in> set xs \<Longrightarrow> length (remove1 x xs) < length xs"
  by (induction xs) auto

text \<open>The walk of \<open>ashmem_unpin\<close> restarts after every merge, with one range less on the list.\<close>

function unpin_restart :: "bool \<Rightarrow> nat \<Rightarrow> u32 \<Rightarrow> u32 \<Rightarrow> u32 \<Rightarrow> ashmem_state \<Rightarrow>
    ashmem_state \<times> (errno + u32)" where
  "unpin_restart km a s e pur st =
     (case unpin_scan (ranges st) s e (unpinned_list (area st a)) of
        Covered \<Rightarrow> (st, Inr 0)
      | Merge r \<Rightarrow>
          unpin_restart km a (min (pgstart (ranges st r)) s) (max (pgend (ranges st r)) e)
            (pur OR purged (ranges st r)) (range_del r st)
      | Insert_before r \<Rightarrow> range_alloc km a (Some r) pur s e st
      | Insert_at_end \<Rightarrow> range_alloc km a None pur s e st)"
  by pat_completeness auto
termination
  by (relation "measure (\<lambda>(km, a, s, e, pur, st). length (unpinned_list (area st a)))")
    (auto dest: unpin_scan_Merge length_remove1_less)

declare unpin_restart.simps [simp del]

definition ashmem_unpin :: "bool \<Rightarrow> nat \<Rightarrow> u32 \<Rightarrow> u32 \<Rightarrow> ashmem_state \<Rightarrow>
    ashmem_state \<times> (errno + u32)" where
  "ashmem_unpin km a s e st = unpin_restart km a s e ASHMEM_NOT_PURGED st"

fun pin_status_loop :: "(nat \<Rightarrow> ashmem_range) \<Rightarrow> u32 \<Rightarrow> u32 \<Rightarrow> nat list \<Rightarrow> u32" where
  "pin_status_loop rng s e [] = ASHMEM_IS_PINNED"
| "pin_status_loop rng s e (r # rs) =
     (if range_before_page (rng r) s then ASHMEM_IS_PINNED
      else if page_range_in_range (rng r) s e then ASHMEM_IS_UNPINNED
      else pin_status_loop rng s e rs)"

definition ashmem_get_pin_status :: "nat \<Rightarrow> u32 \<Rightarrow> u32 \<Rightarrow> ashmem_state \<Rightarrow> u32" where
  "ashmem_get_pin_status a s e st = pin_status_loop (ranges st) s e (unpinned_list (area st a))"

section \<open>The shrinker\<close>

text \<open>\<open>nr\<close> is a signed \<open>int\<close>: the loop leaves when it is not positive.\<close>

fun shrink_loop :: "nat list \<Rightarrow> u32 \<Rightarrow> ashmem_state \<Rightarrow> ashmem_state" where
  "shrink_loop [] nr st = st"
| "shrink_loop (r # rs) nr st =
     (let R = ranges st r;
          start = ucast (pgstart R * PAGE_SIZE);
          end' = ucast ((pgend R + 1) * PAGE_SIZE - 1);
          st1 = st\<lparr>truncations := truncations st @ [(area_file (area st (range_asma R)), start, end')]\<rparr>;
          st2 = upd_range (\<lambda>R. R\<lparr>purged := ASHMEM_WAS_PURGED\<rparr>) r st1;
          st3 = lru_del r st2;
          nr' = nr - range_size R
      in if sint nr' \<le> 0 then st3 else shrink_loop rs nr' st3)"

definition ashmem_shrink :: "u32 \<Rightarrow> bool \<Rightarrow> ashmem_state \<Rightarrow> ashmem_state \<times> u32" where
  "ashmem_shrink nr gfp_fs st =
     (if nr \<noteq> 0 \<and> \<not> gfp_fs then (st, - 1)
      else if nr = 0 then (st, lru_count st)
      else let st' = shrink_loop (ashmem_lru_list st) nr st in (st', lru_count st'))"

section \<open>Files\<close>

definition PROT_READ :: u32 where "PROT_READ = 1"
definition PROT_WRITE :: u32 where "PROT_WRITE = 2"
definition PROT_EXEC :: u32 where "PROT_EXEC = 4"

definition PROT_MASK :: u32 where
  "PROT_MASK = PROT_EXEC OR PROT_READ OR PROT_WRITE"

text \<open>
  \<open>mem\<close> is the result of \<open>kmem_cache_zalloc\<close>: \<open>None\<close>, or the address of memory for an area.
\<close>

definition ashmem_open :: "errno option \<Rightarrow> nat option \<Rightarrow> ashmem_state \<Rightarrow> ashmem_state \<times> (errno + nat)" where
  "ashmem_open generic_file_open mem st =
     (case generic_file_open of
        Some e \<Rightarrow> (st, Inl e)
      | None \<Rightarrow>
          (case mem of
             None \<Rightarrow> (st, Inl ENOMEM)
           | Some a \<Rightarrow>
               (st\<lparr>areas := (areas st)(a \<mapsto> zero_area\<lparr>unpinned_list := [],
                    area_name := memcpy_at (area_name zero_area) 0 ASHMEM_NAME_PREFIX,
                    prot_mask := PROT_MASK\<rparr>)\<rparr>, Inr a)))"

definition fput :: "vfile \<Rightarrow> ashmem_state \<Rightarrow> ashmem_state" where
  "fput f st = st\<lparr>file_count := (file_count st)(f := file_count st f - 1)\<rparr>"

definition get_file :: "vfile \<Rightarrow> ashmem_state \<Rightarrow> ashmem_state" where
  "get_file f st = st\<lparr>file_count := (file_count st)(f := file_count st f + 1)\<rparr>"

definition ashmem_release :: "nat \<Rightarrow> ashmem_state \<Rightarrow> ashmem_state" where
  "ashmem_release a st =
     (let st1 = fold range_del (unpinned_list (area st a)) st;
          st2 = (case area_file (area st1 a) of None \<Rightarrow> st1 | Some f \<Rightarrow> fput (Shmem_file f) st1)
      in st2\<lparr>areas := (areas st2)(a := None)\<rparr>)"

text \<open>
  \<open>ret\<close> is an \<open>int\<close> in both functions below; the result of the file system's \<open>llseek\<close> is a
  64-bit offset.
\<close>

definition ashmem_read ::
    "(nat \<Rightarrow> user_mem \<Rightarrow> nat \<Rightarrow> u32 \<Rightarrow> u64 \<Rightarrow> user_mem \<times> u64 \<times> u32) \<Rightarrow> nat \<Rightarrow> user_mem \<Rightarrow> nat \<Rightarrow> u32 \<Rightarrow>
     u64 \<Rightarrow> ashmem_state \<Rightarrow> ashmem_state \<times> user_mem \<times> u64 \<times> u32" where
  "ashmem_read shmem_read a um buf len pos st =
     (if area_size (area st a) = 0 then (st, um, pos, 0)
      else case area_file (area st a) of
        None \<Rightarrow> (st, um, pos, neg_errno EBADF)
      | Some f \<Rightarrow>
          (let (um', pos', ret) = shmem_read f um buf len pos in
           if sint ret < 0 then (st, um', pos', ret)
           else (st\<lparr>shmem_pos := (shmem_pos st)(f := pos')\<rparr>, um', pos', ret)))"

definition ashmem_llseek ::
    "(nat \<Rightarrow> u64 \<Rightarrow> u64 \<Rightarrow> u32 \<Rightarrow> u64 \<times> u64) \<Rightarrow> nat \<Rightarrow> u64 \<Rightarrow> u64 \<Rightarrow> u32 \<Rightarrow> ashmem_state \<Rightarrow>
     ashmem_state \<times> u64 \<times> u64" where
  "ashmem_llseek shmem_llseek a f_pos off origin st =
     (if area_size (area st a) = 0 then (st, f_pos, neg_errno EINVAL)
      else case area_file (area st a) of
        None \<Rightarrow> (st, f_pos, neg_errno EBADF)
      | Some f \<Rightarrow>
          (let (pos', res) = shmem_llseek f (shmem_pos st f) off origin;
               ret = (ucast res :: u32);
               st' = st\<lparr>shmem_pos := (shmem_pos st)(f := pos')\<rparr>
           in if sint ret < 0 then (st', f_pos, scast ret)
              else (st', shmem_pos st' f, scast ret)))"

section \<open>Mapping\<close>

definition calc_vm_trans :: "u32 \<Rightarrow> u32 \<Rightarrow> u32 \<Rightarrow> u32" where
  "calc_vm_trans x bit1 bit2 =
     (if bit1 \<le> bit2 then (x AND bit1) * (bit2 div bit1) else (x AND bit1) div (bit1 div bit2))"

definition calc_vm_prot_bits :: "u32 \<Rightarrow> u32" where
  "calc_vm_prot_bits prot =
     calc_vm_trans prot PROT_READ VM_READ OR calc_vm_trans prot PROT_WRITE VM_WRITE OR
     calc_vm_trans prot PROT_EXEC VM_EXEC OR 0"

definition calc_vm_may_flags :: "u32 \<Rightarrow> u32" where
  "calc_vm_may_flags prot =
     calc_vm_trans prot PROT_READ VM_MAYREAD OR calc_vm_trans prot PROT_WRITE VM_MAYWRITE OR
     calc_vm_trans prot PROT_EXEC VM_MAYEXEC"

record vm_area =
  vm_flags :: u32
  vm_file :: "vfile option"
  vm_ops_shmem :: bool

definition fput_opt :: "vfile option \<Rightarrow> ashmem_state \<Rightarrow> ashmem_state" where
  "fput_opt f st = (case f of None \<Rightarrow> st | Some f \<Rightarrow> fput f st)"

definition shmem_set_file :: "vm_area \<Rightarrow> vfile \<Rightarrow> ashmem_state \<Rightarrow> ashmem_state \<times> vm_area" where
  "shmem_set_file vma f st =
     (fput_opt (vm_file vma) st, vma\<lparr>vm_file := Some f, vm_ops_shmem := True\<rparr>)"

text \<open>The backing file is created by the first mapping.\<close>

definition ashmem_backing ::
    "(u8 list \<Rightarrow> u32 \<Rightarrow> u32 \<Rightarrow> errno option) \<Rightarrow> nat \<Rightarrow> u32 \<Rightarrow> ashmem_state \<Rightarrow> ashmem_state \<times> (errno + nat)" where
  "ashmem_backing shmem_file_setup a flags st =
     (case area_file (area st a) of
        Some f \<Rightarrow> (st, Inr f)
      | None \<Rightarrow>
          (let A = area st a;
               nm = (if area_name A ! ASHMEM_NAME_PREFIX_LEN \<noteq> 0 then area_name A
                     else ASHMEM_NAME_DEF @ [0])
           in case shmem_file_setup nm (area_size A) flags of
                Some e \<Rightarrow> (st, Inl e)
              | None \<Rightarrow>
                  let f = next_file st;
                      st1 = st\<lparr>next_file := Suc f,
                               file_count := (file_count st)(Shmem_file f := 1)\<rparr>
                  in (upd_area (\<lambda>A. A\<lparr>area_file := Some f\<rparr>) a st1, Inr f)))"

definition ashmem_mmap ::
    "(u8 list \<Rightarrow> u32 \<Rightarrow> u32 \<Rightarrow> errno option) \<Rightarrow> nat \<Rightarrow> vm_area \<Rightarrow> ashmem_state \<Rightarrow>
     ashmem_state \<times> vm_area \<times> (errno + u32)" where
  "ashmem_mmap shmem_file_setup a vma st =
     (if area_size (area st a) = 0 then (st, vma, Inl EINVAL)
      else if (vm_flags vma AND NOT (calc_vm_prot_bits (prot_mask (area st a))))
                AND calc_vm_prot_bits PROT_MASK \<noteq> 0 then (st, vma, Inl EPERM)
      else
        let vma1 = vma\<lparr>vm_flags := vm_flags vma AND
                         NOT (calc_vm_may_flags (NOT (prot_mask (area st a))))\<rparr>
        in case ashmem_backing shmem_file_setup a (vm_flags vma1) st of
             (st1, Inl e) \<Rightarrow> (st1, vma1, Inl e)
           | (st1, Inr f) \<Rightarrow>
               (let st2 = get_file (Shmem_file f) st1;
                    (st3, vma2) =
                      (if vm_flags vma1 AND VM_SHARED \<noteq> 0 then shmem_set_file vma1 (Shmem_file f) st2
                       else (fput_opt (vm_file vma1) st2, vma1\<lparr>vm_file := Some (Shmem_file f)\<rparr>))
                in (st3, vma2\<lparr>vm_flags := vm_flags vma2 OR VM_CAN_NONLINEAR\<rparr>, Inr 0)))"

section \<open>Control\<close>

definition READ_IMPLIES_EXEC :: u32 where "READ_IMPLIES_EXEC = 0x0400000"

definition set_prot_mask :: "u32 \<Rightarrow> nat \<Rightarrow> u32 \<Rightarrow> ashmem_state \<Rightarrow> ashmem_state \<times> (errno + u32)" where
  "set_prot_mask personality a prot st =
     (if prot_mask (area st a) AND prot \<noteq> prot then (st, Inl EINVAL)
      else
        let prot' = (if prot AND PROT_READ \<noteq> 0 \<and> personality AND READ_IMPLIES_EXEC \<noteq> 0
                     then prot OR PROT_EXEC else prot)
        in (upd_area (\<lambda>A. A\<lparr>prot_mask := prot'\<rparr>) a st, Inr 0))"

definition set_name :: "user_mem \<Rightarrow> nat \<Rightarrow> nat \<Rightarrow> ashmem_state \<Rightarrow> ashmem_state \<times> (errno + u32)" where
  "set_name um a p st =
     (if area_file (area st a) \<noteq> None then (st, Inl EINVAL)
      else
        let (bs, left) = copy_from_user um p ASHMEM_NAME_LEN;
            nm = memcpy_at (area_name (area st a)) ASHMEM_NAME_PREFIX_LEN bs
        in (upd_area (\<lambda>A. A\<lparr>area_name := nm[ASHMEM_FULL_NAME_LEN - 1 := 0]\<rparr>) a st,
            if left \<noteq> 0 then Inl EFAULT else Inr 0))"

text \<open>The bytes of a C string with its terminator: \<open>strlen\<close> plus one of them.\<close>

definition c_string :: "u8 list \<Rightarrow> u8 list" where
  "c_string bs = takeWhile (\<lambda>b. b \<noteq> 0) bs @ [0]"

definition get_name :: "user_mem \<Rightarrow> nat \<Rightarrow> nat \<Rightarrow> ashmem_state \<Rightarrow> user_mem \<times> (errno + u32)" where
  "get_name um a p st =
     (let nm = area_name (area st a);
          bs = (if nm ! ASHMEM_NAME_PREFIX_LEN \<noteq> 0 then c_string (drop ASHMEM_NAME_PREFIX_LEN nm)
                else ASHMEM_NAME_DEF @ [0]);
          (um', left) = copy_to_user um p bs
      in (um', if left \<noteq> 0 then Inl EFAULT else Inr 0))"

datatype ashmem_cmd =
    ASHMEM_SET_NAME | ASHMEM_GET_NAME | ASHMEM_SET_SIZE | ASHMEM_GET_SIZE
  | ASHMEM_SET_PROT_MASK | ASHMEM_GET_PROT_MASK | ASHMEM_PIN | ASHMEM_UNPIN
  | ASHMEM_GET_PIN_STATUS | ASHMEM_PURGE_ALL_CACHES | ASHMEM_other

record ashmem_pin_arg =
  pin_offset :: u32
  pin_len :: u32

text \<open>The checks of \<open>ashmem_pin_unpin\<close>: the page interval, or the error.\<close>

definition pin_bounds :: "u32 \<Rightarrow> ashmem_pin_arg \<Rightarrow> errno + u32 \<times> u32" where
  "pin_bounds sz pin =
     (let off = pin_offset pin;
          len = (if pin_len pin = 0 then PAGE_ALIGN sz - off else pin_len pin)
      in if (off OR len) AND NOT PAGE_MASK \<noteq> 0 then Inl EINVAL
         else if - 1 - off < len then Inl EINVAL
         else if PAGE_ALIGN sz < off + len then Inl EINVAL
         else let s = off div PAGE_SIZE in Inr (s, s + (len div PAGE_SIZE) - 1))"

definition ashmem_pin_unpin :: "bool \<Rightarrow> user_mem \<Rightarrow> nat \<Rightarrow> ashmem_cmd \<Rightarrow> nat \<Rightarrow> ashmem_state \<Rightarrow>
    ashmem_state \<times> (errno + u32)" where
  "ashmem_pin_unpin km um a cmd p st =
     (if area_file (area st a) = None then (st, Inl EINVAL)
      else
        let (bs, left) = copy_from_user um p 8 in
        if left \<noteq> 0 then (st, Inl EFAULT)
        else
          let pin = \<lparr>pin_offset = of_le32 (take 4 bs), pin_len = of_le32 (drop 4 bs)\<rparr>
          in case pin_bounds (area_size (area st a)) pin of
               Inl e \<Rightarrow> (st, Inl e)
             | Inr (s, e) \<Rightarrow>
                 (case cmd of
                    ASHMEM_PIN \<Rightarrow> (let (st', ret) = ashmem_pin km a s e st in (st', Inr ret))
                  | ASHMEM_UNPIN \<Rightarrow> ashmem_unpin km a s e st
                  | ASHMEM_GET_PIN_STATUS \<Rightarrow> (st, Inr (ashmem_get_pin_status a s e st))
                  | _ \<Rightarrow> (st, Inl EINVAL)))"

text \<open>What \<open>ashmem_ioctl\<close> reads of the calling task.\<close>

record ashmem_task =
  personality :: u32
  cap_sys_admin :: bool

definition ashmem_ioctl :: "ashmem_task \<Rightarrow> bool \<Rightarrow> user_mem \<Rightarrow> nat \<Rightarrow> ashmem_cmd \<Rightarrow> u32 \<Rightarrow> ashmem_state \<Rightarrow>
    ashmem_state \<times> user_mem \<times> (errno + u32)" where
  "ashmem_ioctl task km um a cmd arg st =
     (case cmd of
        ASHMEM_SET_NAME \<Rightarrow> (let (st', r) = set_name um a (unat arg) st in (st', um, r))
      | ASHMEM_GET_NAME \<Rightarrow> (let (um', r) = get_name um a (unat arg) st in (st, um', r))
      | ASHMEM_SET_SIZE \<Rightarrow>
          if area_file (area st a) = None
          then (upd_area (\<lambda>A. A\<lparr>area_size := arg\<rparr>) a st, um, Inr 0) else (st, um, Inl EINVAL)
      | ASHMEM_GET_SIZE \<Rightarrow> (st, um, Inr (area_size (area st a)))
      | ASHMEM_SET_PROT_MASK \<Rightarrow>
          (let (st', r) = set_prot_mask (personality task) a arg st in (st', um, r))
      | ASHMEM_GET_PROT_MASK \<Rightarrow> (st, um, Inr (prot_mask (area st a)))
      | ASHMEM_PURGE_ALL_CACHES \<Rightarrow>
          if cap_sys_admin task
          then (let (st1, ret) = ashmem_shrink 0 True st;
                    (st2, _) = ashmem_shrink ret True st1
                in (st2, um, Inr ret))
          else (st, um, Inl EPERM)
      | ASHMEM_other \<Rightarrow> (st, um, Inl ENOTTY)
      | _ \<Rightarrow> (let (st', r) = ashmem_pin_unpin km um a cmd (unat arg) st in (st', um, r)))"

definition ashmem_init :: ashmem_state where
  "ashmem_init = \<lparr>areas = Map.empty, ranges = (\<lambda>_. \<lparr>range_asma = 0, pgstart = 0, pgend = 0, purged = 0\<rparr>),
     ashmem_lru_list = [], lru_count = 0, next_range = 0, next_file = 0,
     file_count = (\<lambda>_. 0), shmem_pos = (\<lambda>_. 0), truncations = []\<rparr>"

end
