(* ===== verification/Ashmem_Ranges.thy ===== *)
theory Ashmem_Ranges
  imports Ashmem
begin

text \<open>
  The unpinned ranges of the shared memory driver: the invariant of the lists (ranges of an area
  sorted downwards without overlap, the LRU list holds exactly the ranges that are not purged,
  \<open>lru_count\<close> is their total size) and that every operation keeps it; the sets of unpinned and of
  purged pages of an area and what pinning, unpinning and shrinking do to them.
\<close>

section \<open>Invariant\<close>

definition page_bounds :: "u32 \<Rightarrow> u32 \<Rightarrow> bool" where
  "page_bounds s e \<longleftrightarrow> s \<le> e \<or> 0 < s \<and> e = s - 1"

definition pages :: "ashmem_range \<Rightarrow> u32 set" where
  "pages R = {pgstart R .. pgend R}"

abbreviation ulist :: "ashmem_state \<Rightarrow> nat \<Rightarrow> nat list" where
  "ulist st a \<equiv> unpinned_list (area st a)"

definition ranges_ok :: "ashmem_state \<Rightarrow> nat \<Rightarrow> bool" where
  "ranges_ok st a \<longleftrightarrow> distinct (ulist st a) \<and>
     (\<forall>r \<in> set (ulist st a). r < next_range st \<and> range_asma (ranges st r) = a \<and>
        page_bounds (pgstart (ranges st r)) (pgend (ranges st r)) \<and>
        purged (ranges st r) \<in> {ASHMEM_NOT_PURGED, ASHMEM_WAS_PURGED}) \<and>
     sorted_wrt (\<lambda>r r'. pgend (ranges st r') < pgstart (ranges st r)) (ulist st a) \<and>
     (ulist st a \<noteq> [] \<longrightarrow> area_file (area st a) \<noteq> None)"

definition lru_ok :: "ashmem_state \<Rightarrow> bool" where
  "lru_ok st \<longleftrightarrow> distinct (ashmem_lru_list st) \<and>
     set (ashmem_lru_list st) = {r. (\<exists>a. r \<in> set (ulist st a)) \<and> range_on_lru (ranges st r)} \<and>
     lru_count st = sum_list (map (\<lambda>r. range_size (ranges st r)) (ashmem_lru_list st))"

definition ash_inv :: "ashmem_state \<Rightarrow> bool" where
  "ash_inv st \<longleftrightarrow> (\<forall>a. ranges_ok st a) \<and> lru_ok st"

text \<open>What the helpers do to each part of the state.\<close>

lemma area_cong: "areas st = areas st' \<Longrightarrow> area st = area st'"
  by (simp add: area_def fun_eq_iff)

lemma area_upd_area: "area (upd_area f a st) b = (if b = a then f (area st a) else area st b)"
  by (simp add: area_def upd_area_def)

lemma range_del_simps [simp]:
  "ranges (range_del r st) = ranges st"
  "next_range (range_del r st) = next_range st"
  "ashmem_lru_list (range_del r st) =
     (if range_on_lru (ranges st r) then remove1 r (ashmem_lru_list st) else ashmem_lru_list st)"
  "lru_count (range_del r st) =
     (if range_on_lru (ranges st r) then lru_count st - range_size (ranges st r) else lru_count st)"
  "truncations (range_del r st) = truncations st"
  by (simp_all add: range_del_def lru_del_def unpinned_del_def Let_def)

lemma area_file_range_del [simp]: "area_file (area (range_del r st) a) = area_file (area st a)"
  by (simp add: area_def unpinned_del_def split: option.split)

lemma range_shrink_simps [simp]:
  "areas (range_shrink r s e st) = areas st"
  "area (range_shrink r s e st) = area st"
  "ranges (range_shrink r s e st) = (ranges st)(r := (ranges st r)\<lparr>pgstart := s, pgend := e\<rparr>)"
  "next_range (range_shrink r s e st) = next_range st"
  "ashmem_lru_list (range_shrink r s e st) = ashmem_lru_list st"
  "lru_count (range_shrink r s e st) =
     (if range_on_lru (ranges st r)
      then lru_count st - (range_size (ranges st r) - (e - s + 1)) else lru_count st)"
  "truncations (range_shrink r s e st) = truncations st"
  by (auto simp: range_shrink_def upd_range_def Let_def range_on_lru_def range_size_def
      intro: area_cong)

definition insert_at :: "nat \<Rightarrow> nat option \<Rightarrow> nat list \<Rightarrow> nat list" where
  "insert_at r prev xs = (case prev of None \<Rightarrow> xs @ [r] | Some p \<Rightarrow> insert_before r p xs)"

lemma range_alloc_fail [simp]: "range_alloc False a prev pur s e st = (st, Inl ENOMEM)"
  by (simp add: range_alloc_def)

lemma snd_range_alloc [simp]: "snd (range_alloc True a prev pur s e st) = Inr 0"
  by (simp add: range_alloc_def Let_def)

lemma range_alloc_simps [simp]:
  "ulist (fst (range_alloc True a prev pur s e st)) b =
     (if b = a then insert_at (next_range st) prev (ulist st a) else ulist st b)"
  "area_file (area (fst (range_alloc True a prev pur s e st)) b) = area_file (area st b)"
  "ranges (fst (range_alloc True a prev pur s e st)) =
     (ranges st)(next_range st := \<lparr>range_asma = a, pgstart = s, pgend = e, purged = pur\<rparr>)"
  "next_range (fst (range_alloc True a prev pur s e st)) = Suc (next_range st)"
  "ashmem_lru_list (fst (range_alloc True a prev pur s e st)) =
     (if pur = ASHMEM_NOT_PURGED then ashmem_lru_list st @ [next_range st] else ashmem_lru_list st)"
  "lru_count (fst (range_alloc True a prev pur s e st)) =
     (if pur = ASHMEM_NOT_PURGED then lru_count st + (e - s + 1) else lru_count st)"
  "truncations (fst (range_alloc True a prev pur s e st)) = truncations st"
  by (auto simp: range_alloc_def Let_def lru_add_def range_on_lru_def range_size_def insert_at_def
      upd_area_def area_def split: option.split)

lemma range_shrink_alloc_commute:
  assumes "r \<noteq> next_range st"
  shows "range_shrink r s' e' (fst (range_alloc km a prev pur s e st)) =
    fst (range_alloc km a prev pur s e (range_shrink r s' e' st))"
  using assms
  by (cases km; cases prev) (simp_all add: range_shrink_def range_alloc_def Let_def upd_area_def area_def
      lru_add_def upd_range_def range_on_lru_def range_size_def fun_upd_twist algebra_simps)

text \<open>The invariant under the helpers.\<close>

lemma ash_invD:
  assumes "ash_inv st" and "r \<in> set (ulist st a)"
  shows "r < next_range st" "range_asma (ranges st r) = a"
    "page_bounds (pgstart (ranges st r)) (pgend (ranges st r))"
    "purged (ranges st r) = ASHMEM_NOT_PURGED \<or> purged (ranges st r) = ASHMEM_WAS_PURGED"
    "area_file (area st a) \<noteq> None"
  using assms unfolding ash_inv_def ranges_ok_def by (metis empty_iff insert_iff list.set(1))+

lemma ash_inv_area:
  assumes "ash_inv st"
  shows "distinct (ulist st a)"
    "sorted_wrt (\<lambda>r r'. pgend (ranges st r') < pgstart (ranges st r)) (ulist st a)"
  using assms by (simp_all add: ash_inv_def ranges_ok_def)

lemma ulist_disjoint:
  "ash_inv st \<Longrightarrow> r \<in> set (ulist st a) \<Longrightarrow> r \<in> set (ulist st b) \<Longrightarrow> a = b"
  using ash_invD(2) by blast

lemma range_del_inv:
  assumes "ash_inv st" and "r \<in> set (ulist st a)"
  shows "ash_inv (range_del r st)"
proof -
  have "ranges_ok (range_del r st) b" for b
    using assms(1) unfolding ash_inv_def ranges_ok_def
    by (auto simp: sorted_wrt_remove1 dest: set_remove1_subset [THEN subsetD] remove1_not_Nil)
  moreover have "lru_ok (range_del r st)"
  proof -
    have d: "distinct (ulist st b)" for b using assms(1) by (rule ash_inv_area)
    have l: "lru_ok st" using assms(1) by (simp add: ash_inv_def)
    have "range_on_lru (ranges st r) \<Longrightarrow> r \<in> set (ashmem_lru_list st)"
      using l assms(2) by (auto simp: lru_ok_def)
    moreover have "range_on_lru (ranges st r) \<or> r \<notin> set (ashmem_lru_list st)"
      using l by (auto simp: lru_ok_def)
    ultimately show ?thesis
      using l d by (auto simp: lru_ok_def sum_list_remove1)
  qed
  ultimately show ?thesis by (simp add: ash_inv_def)
qed


lemma range_shrink_inv:
  assumes "ash_inv st" and r: "r \<in> set (ulist st a)" and "pgstart (ranges st r) \<le> s"
    and "e \<le> pgend (ranges st r)" and "page_bounds s e"
  shows "ash_inv (range_shrink r s e st)"
proof -
  let ?st = "range_shrink r s e st"
  have le: "pgstart (ranges st x) \<le> pgstart (ranges ?st x)" "pgend (ranges ?st x) \<le> pgend (ranges st x)"
    for x using assms by simp_all
  have "ranges_ok ?st b" for b
  proof -
    have ok: "ranges_ok st b" using assms(1) by (simp add: ash_inv_def)
    have "sorted_wrt (\<lambda>r r'. pgend (ranges st r') < pgstart (ranges st r)) (ulist st b)"
      using ok by (simp add: ranges_ok_def)
    then have "sorted_wrt (\<lambda>r r'. pgend (ranges ?st r') < pgstart (ranges ?st r)) (ulist st b)"
      by (rule sorted_wrt_mono_rel [rotated]) (meson le order.strict_trans1 order.strict_trans2)
    then show ?thesis using ok assms(5) unfolding ranges_ok_def by simp
  qed
  moreover have "lru_ok ?st"
  proof -
    have l: "lru_ok st" using assms(1) by (simp add: ash_inv_def)
    then have d: "distinct (ashmem_lru_list st)"
      and mem: "r \<in> set (ashmem_lru_list st) \<longleftrightarrow> range_on_lru (ranges st r)"
      using r by (auto simp: lru_ok_def)
    define f where "f = (\<lambda>x. range_size (ranges st x))"
    define g where "g = (\<lambda>x. range_size (ranges ?st x))"
    have gf: "g x = f x" if "x \<noteq> r" for x using that by (simp add: f_def g_def)
    have gr: "g r = e - s + 1" by (simp add: g_def range_size_def)
    have "sum_list (map g (ashmem_lru_list st)) =
        (if range_on_lru (ranges st r) then lru_count st - (f r - g r) else lru_count st)"
    proof (cases "range_on_lru (ranges st r)")
      case True
      then show ?thesis
        using sum_list_upd [of r "ashmem_lru_list st" g f] mem d gf l
        by (simp add: lru_ok_def f_def)
    next
      case False
      then have "map g (ashmem_lru_list st) = map f (ashmem_lru_list st)"
        using mem gf by (intro map_cong) metis+
      then have "sum_list (map g (ashmem_lru_list st)) = sum_list (map f (ashmem_lru_list st))"
        by (rule arg_cong)
      then show ?thesis using l False by (simp add: lru_ok_def f_def)
    qed
    moreover have "range_on_lru (ranges ?st x) = range_on_lru (ranges st x)" for x
      by (simp add: range_on_lru_def)
    ultimately show ?thesis
      using l unfolding lru_ok_def g_def [symmetric] by (simp add: f_def gr)
  qed
  ultimately show ?thesis by (simp add: ash_inv_def)
qed

lemma range_alloc_inv:
  assumes "ash_inv st" and "area_file (area st a) \<noteq> None" and "page_bounds s e"
    and pur: "pur = ASHMEM_NOT_PURGED \<or> pur = ASHMEM_WAS_PURGED"
    and list: "ulist st a = us @ vs" "insert_at (next_range st) prev (ulist st a) = us @ next_range st # vs"
    and "\<And>r. r \<in> set us \<Longrightarrow> e < pgstart (ranges st r)" and "\<And>r. r \<in> set vs \<Longrightarrow> pgend (ranges st r) < s"
  shows "ash_inv (fst (range_alloc True a prev pur s e st))"
proof -
  let ?st = "fst (range_alloc True a prev pur s e st)" and ?n = "next_range st"
  have old: "r \<noteq> ?n" if "r \<in> set (ulist st b)" for r b
    using ash_invD(1) [OF assms(1) that] by simp
  have "ranges_ok ?st b" for b
  proof (cases "b = a")
    case False
    have ok: "ranges_ok st b" using assms(1) by (simp add: ash_inv_def)
    have "sorted_wrt (\<lambda>r r'. pgend (ranges st r') < pgstart (ranges st r)) (ulist st b)"
      using ok by (simp add: ranges_ok_def)
    then have "sorted_wrt (\<lambda>r r'. pgend (ranges ?st r') < pgstart (ranges ?st r)) (ulist st b)"
      by (rule sorted_wrt_cong_on) (use old in auto)
    then show ?thesis using ok False old by (auto simp: ranges_ok_def less_Suc_eq)
  next
    case True
    have ok: "ranges_ok st a" using assms(1) by (simp add: ash_inv_def)
    have n: "?n \<notin> set us" "?n \<notin> set vs" by (metis Un_iff list(1) old set_append)+
    have srt: "sorted_wrt (\<lambda>r r'. pgend (ranges st r') < pgstart (ranges st r)) (us @ vs)"
      using ok list(1) by (simp add: ranges_ok_def)
    have "sorted_wrt (\<lambda>r r'. pgend (ranges ?st r') < pgstart (ranges ?st r)) us"
        "sorted_wrt (\<lambda>r r'. pgend (ranges ?st r') < pgstart (ranges ?st r)) vs"
      using srt n by (auto simp: sorted_wrt_append elim!: sorted_wrt_cong_on)
    then have "sorted_wrt (\<lambda>r r'. pgend (ranges ?st r') < pgstart (ranges ?st r)) (us @ ?n # vs)"
      using srt n assms(7,8) by (auto simp: sorted_wrt_append)
    then show ?thesis
      using ok True old list n assms(2-4) by (auto simp: ranges_ok_def less_Suc_eq)
  qed
  moreover have "lru_ok ?st"
  proof -
    have l: "lru_ok st" using assms(1) by (simp add: ash_inv_def)
    have n: "?n \<notin> set (ashmem_lru_list st)" using l old by (auto simp: lru_ok_def)
    have "map (\<lambda>r. range_size (ranges ?st r)) (ashmem_lru_list st) =
        map (\<lambda>r. range_size (ranges st r)) (ashmem_lru_list st)"
      using n by (intro map_cong) auto
    from arg_cong [OF this, of sum_list]
    have sum: "sum_list (map (\<lambda>r. range_size (ranges ?st r)) (ashmem_lru_list st)) = lru_count st"
      using l by (simp only: lru_ok_def)
    have ids: "(\<exists>b. x \<in> set (ulist ?st b)) \<longleftrightarrow> x = ?n \<or> (\<exists>b. x \<in> set (ulist st b))" for x
      using list by (auto split: if_splits) (metis Un_iff set_append)+
    have on: "range_on_lru (ranges ?st x) \<longleftrightarrow> (if x = ?n then pur = ASHMEM_NOT_PURGED
        else range_on_lru (ranges st x))" for x
      by (simp add: range_on_lru_def)
    have "?n \<notin> set (ulist st b)" for b using old by blast
    then have set: "set (ashmem_lru_list ?st) = {r. (\<exists>a. r \<in> set (ulist ?st a)) \<and> range_on_lru (ranges ?st r)}"
      unfolding ids on using l by (auto simp: lru_ok_def)
    have "lru_count ?st = sum_list (map (\<lambda>r. range_size (ranges ?st r)) (ashmem_lru_list ?st))"
      using sum by (simp add: range_size_def)
    then show ?thesis unfolding lru_ok_def using set l n by (simp add: lru_ok_def)
  qed
  ultimately show ?thesis by (simp add: ash_inv_def)
qed

section \<open>Pin\<close>

definition list_pages :: "(u32 \<Rightarrow> bool) \<Rightarrow> (nat \<Rightarrow> ashmem_range) \<Rightarrow> nat list \<Rightarrow> u32 set" where
  "list_pages P rng rs = (\<Union>r \<in> {r \<in> set rs. P (purged (rng r))}. pages (rng r))"

lemma list_pages_simps [simp]:
  "list_pages P rng [] = {}"
  "list_pages P rng (r # rs) = (if P (purged (rng r)) then pages (rng r) else {}) \<union> list_pages P rng rs"
  "list_pages P rng (xs @ ys) = list_pages P rng xs \<union> list_pages P rng ys"
  by (auto simp: list_pages_def)

lemma list_pages_cong:
  "(\<And>r. r \<in> set rs \<Longrightarrow> rng' r = rng r) \<Longrightarrow> list_pages P rng' rs = list_pages P rng rs"
  unfolding list_pages_def by (rule arg_cong [where f = Union]) (auto intro!: image_cong)

lemma list_pages_upd [simp]: "r \<notin> set rs \<Longrightarrow> list_pages P (rng(r := R)) rs = list_pages P rng rs"
  by (rule list_pages_cong) auto

lemma not_in_range:
  assumes "\<not> range_before_page R s" and "\<not> page_range_in_range R s e"
  shows "e < pgstart R" and "pages R \<inter> {s..e} = {}"
  using assms by (auto simp: range_before_page_def page_range_in_range_def page_in_range_def
      page_range_subsumes_range_def pages_def)

lemma subsumed_pages: "page_range_subsumes_range R s e \<Longrightarrow> pages R - {s..e} = {}"
  by (auto simp: page_range_subsumes_range_def pages_def)

lemma shrink_front:
  assumes "page_bounds s e" and "page_range_in_range R s e" and "\<not> page_range_subsumes_range R s e"
    and "s \<le> pgstart R"
  shows "pages R - {s..e} = {e + 1 .. pgend R}" and "pgstart R \<le> e + 1" and "e + 1 \<le> pgend R"
proof -
  have e: "e < pgend R" using assms(3,4) by (auto simp: page_range_subsumes_range_def)
  have in_r: "pgstart R \<le> e \<or> pgstart R = s"
    using assms(2-4) by (auto simp: page_range_in_range_def page_in_range_def)
  have se: "s \<le> e \<or> (0 < s \<and> e = s - 1)" using assms(1) by (simp add: page_bounds_def)
  have lt: "pgstart R \<le> e \<or> e < pgstart R \<and> pgstart R = s \<and> e + 1 = s"
    using in_r se by (auto simp: word_pred_less [of 0])
  show "e + 1 \<le> pgend R" using e by (simp add: word_Suc_le)
  show "pgstart R \<le> e + 1"
    using lt word_less_Suc [OF e] by auto
  show "pages R - {s..e} = {e + 1 .. pgend R}"
  proof (cases "pgstart R \<le> e")
    case True
    then show ?thesis
      unfolding word_interval_inc [OF e] using assms(4) by (auto simp: pages_def)
  next
    case False
    then have "pages R = {e + 1 .. pgend R}" "{s..e} = {}" using lt by (auto simp: pages_def)
    then show ?thesis by simp
  qed
qed

lemma shrink_rear:
  assumes "\<not> range_before_page R s" and "pgstart R < s" and "pgend R \<le> e"
  shows "pages R - {s..e} = {pgstart R .. s - 1}" and "s - 1 \<le> pgend R" and "pgstart R \<le> s - 1"
proof -
  have s: "s \<le> pgend R" using assms(1) by (simp add: range_before_page_def)
  show "pages R - {s..e} = {pgstart R .. s - 1}"
    unfolding word_interval_dec [OF assms(2)] using s assms by (auto simp: pages_def)
  show "pgstart R \<le> s - 1" using assms(2) by (simp add: word_le_pred)
  show "s - 1 \<le> pgend R" using s word_le_pred [OF assms(2), of "pgend R"] by auto
qed

lemma punch_hole:
  assumes "page_bounds s e" and "\<not> range_before_page R s" and "pgstart R < s" and "e < pgend R"
  shows "pages R - {s..e} = {e + 1 .. pgend R} \<union> {pgstart R .. s - 1}"
    and "s - 1 \<le> pgend R" and "pgstart R \<le> s - 1" and "e + 1 \<le> pgend R" and "s - 1 < e + 1"
proof -
  have s: "s \<le> pgend R" using assms(2) by (simp add: range_before_page_def)
  have less: "s - 1 < x \<longleftrightarrow> s \<le> x" for x using word_le_pred [OF assms(3), of x] by auto
  have e: "s \<le> e + 1"
    using assms(1) word_less_Suc [OF assms(4)] by (auto simp: page_bounds_def)
  show "pages R - {s..e} = {e + 1 .. pgend R} \<union> {pgstart R .. s - 1}"
  proof (cases "s \<le> e")
    case True
    then show ?thesis
      unfolding word_interval_dec [OF assms(3)] word_interval_inc [OF assms(4)]
      using assms(3,4) by (auto simp: pages_def)
  next
    case False
    then have "e = s - 1" using assms(1) by (simp add: page_bounds_def)
    then have iff: "e < x \<longleftrightarrow> s \<le> x" for x using less [of x] by (simp only:)
    have "{e <.. pgend R} = {s .. pgend R}" by (simp only: set_eq_iff greaterThanAtMost_iff atLeastAtMost_iff iff simp_thms)
    moreover have "{s..e} = {}" using False by simp
    moreover have "{pgstart R .. pgend R} = {s .. pgend R} \<union> {pgstart R ..< s}"
      using s assms(3) by (auto simp: not_le)
    ultimately show ?thesis
      unfolding word_interval_dec [OF assms(3)] word_interval_inc [OF assms(4)]
      by (simp add: pages_def)
  qed
  show "pgstart R \<le> s - 1" using assms(3) by (simp add: word_le_pred)
  show "s - 1 \<le> pgend R" using s word_le_pred [OF assms(3), of "pgend R"] by auto
  show "e + 1 \<le> pgend R" using assms(4) by (simp add: word_Suc_le)
  show "s - 1 < e + 1" using e word_le_pred [OF assms(3), of "s - 1"] by auto
qed


text \<open>
  What \<open>pin_loop\<close> leaves of the part \<open>rs\<close> of the area's list it walks, when \<open>us\<close> is the part
  before it.
\<close>

definition pin_rel :: "bool \<Rightarrow> nat \<Rightarrow> u32 \<Rightarrow> u32 \<Rightarrow> nat list \<Rightarrow> nat list \<Rightarrow> ashmem_state \<Rightarrow>
    nat list \<Rightarrow> ashmem_state \<Rightarrow> bool" where
  "pin_rel km a s e us rs st rs' st' \<longleftrightarrow> ash_inv st' \<and>
     ulist st' a = us @ rs' \<and> (\<forall>r \<in> set us. ranges st' r = ranges st r) \<and>
     (\<forall>P. list_pages P (ranges st') rs' \<subseteq> list_pages P (ranges st) rs - {s..e}) \<and>
     (km \<longrightarrow> (\<forall>P. list_pages P (ranges st') rs' = list_pages P (ranges st) rs - {s..e})) \<and>
     (\<forall>b. b \<noteq> a \<longrightarrow> ulist st' b = ulist st b \<and> (\<forall>r \<in> set (ulist st b). ranges st' r = ranges st r)) \<and>
     (\<forall>b. area_file (area st' b) = area_file (area st b)) \<and> truncations st' = truncations st"

lemma pin_relI:
  assumes "ash_inv st'" and "ulist st' a = us @ rs'" and "\<And>r. r \<in> set us \<Longrightarrow> ranges st' r = ranges st r"
    and "\<And>P. list_pages P (ranges st') rs' \<subseteq> list_pages P (ranges st) rs - {s..e}"
    and "\<And>P. km \<Longrightarrow> list_pages P (ranges st') rs' = list_pages P (ranges st) rs - {s..e}"
    and "\<And>b. b \<noteq> a \<Longrightarrow> ulist st' b = ulist st b"
    and "\<And>b r. b \<noteq> a \<Longrightarrow> r \<in> set (ulist st b) \<Longrightarrow> ranges st' r = ranges st r"
    and "\<And>b. area_file (area st' b) = area_file (area st b)" and "truncations st' = truncations st"
  shows "pin_rel km a s e us rs st rs' st'"
  unfolding pin_rel_def using assms by (intro conjI allI impI ballI)

lemma pin_relD:
  assumes "pin_rel km a s e us rs st rs' st'"
  shows "ash_inv st'" and "ulist st' a = us @ rs'" and "\<And>r. r \<in> set us \<Longrightarrow> ranges st' r = ranges st r"
    and "\<And>P. list_pages P (ranges st') rs' \<subseteq> list_pages P (ranges st) rs - {s..e}"
    and "\<And>P. km \<Longrightarrow> list_pages P (ranges st') rs' = list_pages P (ranges st) rs - {s..e}"
    and "\<And>b. b \<noteq> a \<Longrightarrow> ulist st' b = ulist st b"
    and "\<And>b r. b \<noteq> a \<Longrightarrow> r \<in> set (ulist st b) \<Longrightarrow> ranges st' r = ranges st r"
    and "\<And>b. area_file (area st' b) = area_file (area st b)" and "truncations st' = truncations st"
  using assms unfolding pin_rel_def by (simp_all only: simp_thms Ball_def)

lemma pin_rel_refl:
  assumes "ash_inv st" and "ulist st a = us @ rs" and "\<And>r. r \<in> set rs \<Longrightarrow> pages (ranges st r) \<inter> {s..e} = {}"
  shows "pin_rel km a s e us rs st rs st"
proof -
  have "list_pages P (ranges st) rs \<inter> {s..e} = {}" for P
    using assms(3) by (auto simp: list_pages_def)
  then have "list_pages P (ranges st) rs - {s..e} = list_pages P (ranges st) rs" for P by blast
  then show ?thesis using assms(1,2) by (simp add: pin_rel_def)
qed

text \<open>A step that leaves the entry \<open>r\<close> on the list, with its pages outside the request removed.\<close>

lemma pin_rel_keep:
  assumes "pin_rel km a s e (us @ [r]) rs st1 rs' st'" and "r \<notin> set us" and "r \<notin> set rs"
    and "ranges st1 = (ranges st)(r := R)" and "pages R = pages (ranges st r) - {s..e}"
    and "purged R = purged (ranges st r)" and "\<And>b. ulist st1 b = ulist st b"
    and "\<And>b. b \<noteq> a \<Longrightarrow> r \<notin> set (ulist st b)"
    and "\<And>b. area_file (area st1 b) = area_file (area st b)" and "truncations st1 = truncations st"
  shows "pin_rel km a s e us (r # rs) st (r # rs') st'"
proof -
  note p = pin_relD [OF assms(1)]
  have pg: "list_pages P (ranges st1) rs = list_pages P (ranges st) rs" for P
    using assms(3,4) by simp
  have R: "ranges st' r = R" using p(3) [of r] assms(4) by simp
  show ?thesis
  proof (rule pin_relI)
    show "ulist st' a = us @ r # rs'" using p(2) by simp
    show "ranges st' x = ranges st x" if "x \<in> set us" for x
      using p(3) [of x] assms(2,4) that by auto
    show "list_pages P (ranges st') (r # rs') \<subseteq> list_pages P (ranges st) (r # rs) - {s..e}" for P
      using p(4) [of P] unfolding list_pages_simps R assms(5,6) pg by auto
    show "list_pages P (ranges st') (r # rs') = list_pages P (ranges st) (r # rs) - {s..e}" if km for P
      using p(5) [OF that, of P] unfolding list_pages_simps R assms(5,6) pg by auto
    show "ulist st' b = ulist st b" if "b \<noteq> a" for b
      using p(6) [OF that] assms(7) by simp
    show "ranges st' x = ranges st x" if b: "b \<noteq> a" and x: "x \<in> set (ulist st b)" for b x
      using p(7) [OF b, of x] x assms(4,7) assms(8) [OF b] by (cases "x = r") auto
    show "area_file (area st' b) = area_file (area st b)" for b using p(8) assms(9) by simp
    show "truncations st' = truncations st" using p(9) assms(10) by simp
  qed (rule p(1))
qed


lemma ulist_split:
  assumes "ash_inv st" and "ulist st a = us @ r # rs"
  shows "r \<in> set (ulist st a)" and "r \<notin> set us" and "r \<notin> set rs"
    and "\<And>x. x \<in> set rs \<Longrightarrow> pgend (ranges st x) < pgstart (ranges st r)"
    and "\<And>x. x \<in> set us \<Longrightarrow> pgend (ranges st r) < pgstart (ranges st x)"
    and "\<And>b. b \<noteq> a \<Longrightarrow> r \<notin> set (ulist st b)"
  using ash_inv_area [OF assms(1), of a] assms(2) ulist_disjoint [OF assms(1), of r a]
  by (auto simp: sorted_wrt_append)

lemma below_range_start:
  "page_bounds s e \<Longrightarrow> pgend R < s \<Longrightarrow> pages R \<inter> {s..e} = {}"
  by (auto simp: pages_def)

lemma page_bounds_less: "page_bounds a b \<Longrightarrow> b < s \<Longrightarrow> a \<le> s"
  using word_le_pred [of 0 a s] by (auto simp: page_bounds_def not_le)

lemma below_list_pages:
  assumes "\<And>x. x \<in> set rs \<Longrightarrow> pgend (rng x) < s"
  shows "list_pages P rng rs - {s..e} = list_pages P rng rs"
  using assms by (force simp: list_pages_def pages_def)

lemma pin_rel_hole:
  assumes "ash_inv st" and "ulist st a = us @ r # rs" and "page_bounds s e"
    and "\<not> range_before_page (ranges st r) s" and "pgstart (ranges st r) < s" and "e < pgend (ranges st r)"
  defines "st1 \<equiv> range_shrink r (pgstart (ranges st r)) (s - 1) st"
  shows "pin_rel False a s e us (r # rs) st (r # rs) st1"
    and "pin_rel True a s e us (r # rs) st (next_range st # r # rs)
      (fst (range_alloc True a (Some r) (purged (ranges st r)) (e + 1) (pgend (ranges st r)) st1))"
proof -
  let ?R = "ranges st r" let ?n = "next_range st"
  let ?st = "fst (range_alloc True a (Some r) (purged ?R) (e + 1) (pgend ?R) st1)"
  note r = ulist_split [OF assms(1,2)]
  note ok = ash_invD [OF assms(1) r(1)]
  note f = punch_hole [OF assms(3-6)]
  have inv1: "ash_inv st1"
    unfolding st1_def using f
    by (intro range_shrink_inv [OF assms(1) r(1)]) (auto simp: page_bounds_def)
  have n: "x \<noteq> ?n" if "x \<in> set (ulist st b)" for x b using ash_invD(1) [OF assms(1) that] by simp
  have below: "pgend (ranges st x) < s" if "x \<in> set rs" for x
    using r(4) [OF that] assms(5) by simp
  have rest: "list_pages P (ranges st) rs - {s..e} = list_pages P (ranges st) rs" for P
    by (rule below_list_pages) (rule below)
  have pg1: "pages (ranges st1 r) = {pgstart ?R .. s - 1}" "purged (ranges st1 r) = purged ?R"
    by (simp_all add: st1_def pages_def)
  have rest1: "list_pages P (ranges st1) rs = list_pages P (ranges st) rs" for P
    using r(3) by (simp add: st1_def)
  show "pin_rel False a s e us (r # rs) st (r # rs) st1"
  proof (rule pin_relI)
    show "list_pages P (ranges st1) (r # rs) \<subseteq> list_pages P (ranges st) (r # rs) - {s..e}" for P
      unfolding list_pages_simps rest1 pg1 using f(1) rest [of P] by auto
  qed (use inv1 assms(2) r(2,6) in \<open>auto simp: st1_def\<close>)
  have u1: "ulist st1 a = us @ r # rs" using assms(2) by (simp add: st1_def)
  have ins: "insert_at ?n (Some r) (ulist st1 a) = us @ ?n # r # rs"
    using u1 r(2) by (simp add: insert_at_def klist_simps del: list_mem_simps)
  have nn: "next_range st1 = ?n" by (simp add: st1_def)
  have inv: "ash_inv ?st"
  proof (rule range_alloc_inv [OF inv1 _ _ _ u1])
    show "insert_at (next_range st1) (Some r) (ulist st1 a) = us @ next_range st1 # r # rs"
      using ins nn by simp
    show "pgend ?R < pgstart (ranges st1 x)" if "x \<in> set us" for x
      using r(5) [OF that] r(2) that by (auto simp: st1_def)
    show "pgend (ranges st1 x) < e + 1" if x: "x \<in> set (r # rs)" for x
    proof (cases "x = r")
      case True
      then show ?thesis using f(5) by (simp add: st1_def)
    next
      case False
      then have "pgend (ranges st x) < pgstart ?R" using x r(4) by simp
      then have "pgend (ranges st x) < s - 1" using f(3) by simp
      then show ?thesis using False f(5) by (simp add: st1_def)
    qed
  qed (use ok(4,5) f(4) in \<open>auto simp: st1_def page_bounds_def\<close>)
  have new: "ranges ?st ?n = \<lparr>range_asma = a, pgstart = e + 1, pgend = pgend ?R, purged = purged ?R\<rparr>"
    using nn by simp
  have old: "ranges ?st x = ranges st1 x" if "x \<noteq> ?n" for x using that nn by simp
  have rn: "r \<noteq> ?n" using n r(1) by blast
  have "?n \<notin> set rs" using n [of ?n a] assms(2) by auto
  then have rest2: "list_pages P (ranges ?st) rs = list_pages P (ranges st) rs" for P
    using rest1 [of P] nn by simp
  have pgs: "list_pages P (ranges ?st) (?n # r # rs) =
      (if P (purged ?R) then {e + 1 .. pgend ?R} \<union> {pgstart ?R .. s - 1} else {}) \<union> list_pages P (ranges st) rs" for P
    unfolding list_pages_simps rest2 old [OF rn] pg1 new by (simp add: pages_def Un_assoc)
  have eq: "list_pages P (ranges ?st) (?n # r # rs) = list_pages P (ranges st) (r # rs) - {s..e}" for P
  proof -
    have "list_pages P (ranges st) (r # rs) - {s..e} =
        (if P (purged ?R) then pages ?R - {s..e} else {}) \<union> (list_pages P (ranges st) rs - {s..e})"
      by auto
    then show ?thesis unfolding f(1) rest by (simp only: pgs)
  qed
  show "pin_rel True a s e us (r # rs) st (?n # r # rs) ?st"
  proof (rule pin_relI)
    show "ulist ?st a = us @ ?n # r # rs" using ins nn by simp
    show "ranges ?st x = ranges st x" if "x \<in> set us" for x
      using that r(2) n [of x a] assms(2) old [of x] by (auto simp: st1_def)
    show "ranges ?st x = ranges st x" if "b \<noteq> a" "x \<in> set (ulist st b)" for b x
      using that r(6) [OF that(1)] n [OF that(2)] old [of x] by (auto simp: st1_def)
  qed (use inv eq in \<open>auto simp: st1_def\<close>)
qed

text \<open>The cases of the loop body.\<close>

lemma pin_cases [case_names before out sub front rear hole]:
  assumes "range_before_page R s \<Longrightarrow> thesis"
    and "\<not> range_before_page R s \<Longrightarrow> \<not> page_range_in_range R s e \<Longrightarrow> thesis"
    and "\<not> range_before_page R s \<Longrightarrow> page_range_in_range R s e \<Longrightarrow>
      page_range_subsumes_range R s e \<Longrightarrow> thesis"
    and "\<not> range_before_page R s \<Longrightarrow> page_range_in_range R s e \<Longrightarrow>
      \<not> page_range_subsumes_range R s e \<Longrightarrow> s \<le> pgstart R \<Longrightarrow> thesis"
    and "\<not> range_before_page R s \<Longrightarrow> page_range_in_range R s e \<Longrightarrow>
      \<not> page_range_subsumes_range R s e \<Longrightarrow> \<not> s \<le> pgstart R \<Longrightarrow> pgend R \<le> e \<Longrightarrow> thesis"
    and "\<not> range_before_page R s \<Longrightarrow> page_range_in_range R s e \<Longrightarrow>
      \<not> page_range_subsumes_range R s e \<Longrightarrow> \<not> s \<le> pgstart R \<Longrightarrow> \<not> pgend R \<le> e \<Longrightarrow> thesis"
  shows thesis
  using assms by blast

lemma pin_loop_correct:
  assumes "ash_inv st" and "ulist st a = us @ rs" and "page_bounds s e"
  shows "\<exists>rs'. pin_rel km a s e us rs st rs' (fst (pin_loop km a s e rs ret st))"
  using assms
proof (induction rs arbitrary: us ret st)
  case Nil
  then have "pin_rel km a s e us [] st [] st" by (intro pin_rel_refl) auto
  then show ?case by auto
next
  case (Cons r rs)
  let ?R = "ranges st r"
  note r = ulist_split [OF Cons.prems(1,2)]
  note ok = ash_invD [OF Cons.prems(1) r(1)]
  have bounds_ok: "page_bounds x y" if "x \<le> y" for x y using that by (simp add: page_bounds_def)
  show ?case
  proof (cases rule: pin_cases [where R = ?R and s = s and e = e])
    case before
    have "pages (ranges st x) \<inter> {s..e} = {}" if "x \<in> set (r # rs)" for x
    proof (rule below_range_start [OF Cons.prems(3)])
      show "pgend (ranges st x) < s"
        using that before r(4) [of x] page_bounds_less [OF ok(3), of s]
        by (auto simp: range_before_page_def)
    qed
    then have "pin_rel km a s e us (r # rs) st (r # rs) st"
      by (rule pin_rel_refl [OF Cons.prems(1,2)])
    then show ?thesis using before by auto
  next
    case out
    obtain rs' where "pin_rel km a s e (us @ [r]) rs st rs' (fst (pin_loop km a s e rs ret st))"
      using Cons.IH [of st "us @ [r]"] Cons.prems by auto
    then have "pin_rel km a s e us (r # rs) st (r # rs') (fst (pin_loop km a s e rs ret st))"
      using r not_in_range(2) [OF out] by (intro pin_rel_keep [of _ _ _ _ _ _ _ st _ _ st ?R]) auto
    then show ?thesis using out by (auto simp: Let_def)
  next
    case sub
    let ?st = "range_del r st"
    obtain rs' where p: "pin_rel km a s e us rs ?st rs'
        (fst (pin_loop km a s e rs (ret OR purged ?R) ?st))"
      using Cons.IH [of ?st us] range_del_inv [OF Cons.prems(1) r(1)] Cons.prems(2,3) r(2)
      by (auto simp: remove1_append)
    have "pin_rel km a s e us (r # rs) st rs' (fst (pin_loop km a s e rs (ret OR purged ?R) ?st))"
    proof (rule pin_relI)
      note q = pin_relD [OF p]
      have "(if P (purged ?R) then pages ?R else {}) - {s..e} = {}" for P
        using subsumed_pages [OF sub(3)] by auto
      then have pg: "list_pages P (ranges st) (r # rs) - {s..e} = list_pages P (ranges st) rs - {s..e}" for P
        unfolding list_pages_simps by blast
      show "list_pages P (ranges (fst (pin_loop km a s e rs (ret OR purged ?R) ?st))) rs'
          \<subseteq> list_pages P (ranges st) (r # rs) - {s..e}" for P
        unfolding pg using q(4) [of P] by simp
      show "list_pages P (ranges (fst (pin_loop km a s e rs (ret OR purged ?R) ?st))) rs'
          = list_pages P (ranges st) (r # rs) - {s..e}" if km for P
        unfolding pg using q(5) [OF that, of P] by simp
      show "ulist (fst (pin_loop km a s e rs (ret OR purged ?R) ?st)) b = ulist st b" if "b \<noteq> a" for b
        using q(6) [OF that] r(6) [OF that] by (simp add: remove1_idem)
      show "ranges (fst (pin_loop km a s e rs (ret OR purged ?R) ?st)) x = ranges st x"
        if "b \<noteq> a" "x \<in> set (ulist st b)" for b x
        using q(7) [OF that(1), of x] r(6) [OF that(1)] that(2) by (simp add: remove1_idem)
    qed (use pin_relD [OF p] in auto)
    then show ?thesis using sub by (auto simp: Let_def)
  next
    case front
    note f = shrink_front [OF Cons.prems(3) front(2-4)]
    let ?st = "range_shrink r (e + 1) (pgend ?R) st"
    have "ash_inv ?st" using f by (intro range_shrink_inv [OF Cons.prems(1) r(1)]) (auto intro: bounds_ok)
    then obtain rs' where p: "pin_rel km a s e (us @ [r]) rs ?st rs'
        (fst (pin_loop km a s e rs (ret OR purged ?R) ?st))"
      using Cons.IH [of ?st "us @ [r]"] Cons.prems by auto
    have "pin_rel km a s e us (r # rs) st (r # rs') (fst (pin_loop km a s e rs (ret OR purged ?R) ?st))"
      by (rule pin_rel_keep [OF p r(2,3), of st "?R\<lparr>pgstart := e + 1, pgend := pgend ?R\<rparr>"])
        (use r(6) f(1) in \<open>auto simp: pages_def\<close>)
    then show ?thesis using front by (auto simp: Let_def)
  next
    case rear
    then have lt: "pgstart ?R < s" by simp
    note f = shrink_rear [OF rear(1) lt rear(5)]
    let ?st = "range_shrink r (pgstart ?R) (s - 1) st"
    have "ash_inv ?st" using f by (intro range_shrink_inv [OF Cons.prems(1) r(1)]) (auto intro: bounds_ok)
    then obtain rs' where p: "pin_rel km a s e (us @ [r]) rs ?st rs'
        (fst (pin_loop km a s e rs (ret OR purged ?R) ?st))"
      using Cons.IH [of ?st "us @ [r]"] Cons.prems by auto
    have "pin_rel km a s e us (r # rs) st (r # rs') (fst (pin_loop km a s e rs (ret OR purged ?R) ?st))"
      by (rule pin_rel_keep [OF p r(2,3), of st "?R\<lparr>pgstart := pgstart ?R, pgend := s - 1\<rparr>"])
        (use r(6) f(1) in \<open>auto simp: pages_def\<close>)
    then show ?thesis using rear by (auto simp: Let_def)
  next
    case hole
    then have lt: "pgstart ?R < s" "e < pgend ?R" by simp_all
    note p = pin_rel_hole [OF Cons.prems hole(1) lt]
    have "r \<noteq> next_range st" using ok(1) by simp
    then have "fst (pin_loop km a s e (r # rs) ret st) =
        fst (range_alloc km a (Some r) (purged ?R) (e + 1) (pgend ?R)
          (range_shrink r (pgstart ?R) (s - 1) st))"
      using hole by (simp add: Let_def split_beta range_shrink_alloc_commute)
    then show ?thesis using p by (cases km) auto
  qed
qed


text \<open>The result of a pin: whether a purged range was hit.\<close>

definition purge_hit :: "(nat \<Rightarrow> ashmem_range) \<Rightarrow> u32 \<Rightarrow> u32 \<Rightarrow> nat list \<Rightarrow> bool" where
  "purge_hit rng s e rs \<longleftrightarrow> (\<exists>r \<in> set rs. \<not> range_before_page (rng r) s \<and>
     page_range_in_range (rng r) s e \<and> purged (rng r) = ASHMEM_WAS_PURGED)"

lemma purge_hit_Cons:
  "purge_hit rng s e (r # rs) \<longleftrightarrow> \<not> range_before_page (rng r) s \<and>
     page_range_in_range (rng r) s e \<and> purged (rng r) = ASHMEM_WAS_PURGED \<or> purge_hit rng s e rs"
  by (auto simp: purge_hit_def)

lemma purge_hit_below:
  "(\<And>r. r \<in> set rs \<Longrightarrow> pgend (rng r) < s) \<Longrightarrow> \<not> purge_hit rng s e rs"
  by (auto simp: purge_hit_def range_before_page_def)

lemma purge_hit_upd: "r \<notin> set rs \<Longrightarrow> purge_hit (rng(r := R)) s e rs = purge_hit rng s e rs"
  by (auto simp: purge_hit_def)

lemma pin_loop_ret:
  assumes "ash_inv st" and "ulist st a = us @ rs" and "page_bounds s e"
  shows "snd (pin_loop km a s e rs ret st) =
    ret OR (if purge_hit (ranges st) s e rs then ASHMEM_WAS_PURGED else ASHMEM_NOT_PURGED)"
  using assms
proof (induction rs arbitrary: us ret st)
  case Nil
  then show ?case by (simp add: purge_hit_def ASHMEM_NOT_PURGED_def)
next
  case (Cons r rs)
  let ?R = "ranges st r"
  note r = ulist_split [OF Cons.prems(1,2)]
  note ok = ash_invD [OF Cons.prems(1) r(1)]
  have or: "(ret OR purged ?R) OR (if b then ASHMEM_WAS_PURGED else ASHMEM_NOT_PURGED) =
      ret OR (if purged ?R = ASHMEM_WAS_PURGED \<or> b then ASHMEM_WAS_PURGED else ASHMEM_NOT_PURGED)" for b
    using ok(4) by (auto simp: ASHMEM_WAS_PURGED_def ASHMEM_NOT_PURGED_def or.assoc)
  have below: "\<not> purge_hit (ranges st) s e rs" if "pgstart ?R \<le> s"
    by (rule purge_hit_below) (use r(4) that in fastforce)
  have kept: "snd (pin_loop km a s e rs ret' (range_shrink r x y st)) =
      ret' OR (if purge_hit (ranges st) s e rs then ASHMEM_WAS_PURGED else ASHMEM_NOT_PURGED)"
    if "pgstart ?R \<le> x" "y \<le> pgend ?R" "x \<le> y" for x y ret'
  proof -
    have "purge_hit (ranges (range_shrink r x y st)) s e rs = purge_hit (ranges st) s e rs"
      by (simp only: range_shrink_simps purge_hit_upd [OF r(3)])
    moreover have "ash_inv (range_shrink r x y st)"
      using that by (intro range_shrink_inv [OF Cons.prems(1) r(1)]) (auto simp: page_bounds_def)
    ultimately show ?thesis
      using Cons.IH [of "range_shrink r x y st" "us @ [r]" ret'] Cons.prems(2,3)
      by (simp del: range_shrink_simps(3))
  qed
  have del: "snd (pin_loop km a s e rs ret' (range_del r st)) =
      ret' OR (if purge_hit (ranges st) s e rs then ASHMEM_WAS_PURGED else ASHMEM_NOT_PURGED)" for ret'
    using Cons.IH [of "range_del r st" us ret'] Cons.prems(2,3) r(2)
      range_del_inv [OF Cons.prems(1) r(1)] by (simp add: remove1_append)
  show ?case
  proof (cases rule: pin_cases [where R = ?R and s = s and e = e])
    case before
    then have "pgstart ?R \<le> s"
      using page_bounds_less [OF ok(3)] by (simp add: range_before_page_def)
    then show ?thesis using before below by (simp add: purge_hit_Cons ASHMEM_NOT_PURGED_def)
  next
    case out
    then show ?thesis
      using Cons.IH [of st "us @ [r]" ret] Cons.prems by (simp add: purge_hit_Cons Let_def)
  next
    case sub
    then show ?thesis using del or by (simp add: purge_hit_Cons Let_def)
  next
    case front
    then show ?thesis
      using kept [of "e + 1" "pgend ?R"] shrink_front [OF Cons.prems(3) front(2-4)] or
      by (simp add: purge_hit_Cons Let_def)
  next
    case rear
    then show ?thesis
      using kept [of "pgstart ?R" "s - 1"] shrink_rear [of ?R s e] or
      by (simp add: purge_hit_Cons Let_def)
  next
    case hole
    then have "\<not> purge_hit (ranges st) s e rs" using below by simp
    then show ?thesis using hole or [of False]
      by (simp add: purge_hit_Cons Let_def split_beta ASHMEM_NOT_PURGED_def)
  qed
qed


section \<open>Unpin\<close>

abbreviation unpinned_pages :: "ashmem_state \<Rightarrow> nat \<Rightarrow> u32 set" where
  "unpinned_pages st a \<equiv> list_pages (\<lambda>_. True) (ranges st) (ulist st a)"

abbreviation purged_pages :: "ashmem_state \<Rightarrow> nat \<Rightarrow> u32 set" where
  "purged_pages st a \<equiv> list_pages (\<lambda>p. p = ASHMEM_WAS_PURGED) (ranges st) (ulist st a)"

lemma unpin_scan_cases:
  "case unpin_scan rng s e rs of
     Covered \<Rightarrow> \<exists>r \<in> set rs. pgstart (rng r) \<le> s \<and> e \<le> pgend (rng r)
   | Merge r \<Rightarrow> r \<in> set rs \<and> \<not> range_before_page (rng r) s \<and>
       \<not> page_range_subsumed_by_range (rng r) s e \<and> page_range_in_range (rng r) s e
   | Insert_before r \<Rightarrow> \<exists>us vs. rs = us @ r # vs \<and> (\<forall>x \<in> set us. e < pgstart (rng x)) \<and>
       pgend (rng r) < s
   | Insert_at_end \<Rightarrow> \<forall>x \<in> set rs. e < pgstart (rng x)"
proof (induction rs)
  case (Cons r rs)
  show ?case
  proof (cases "range_before_page (rng r) s \<or> page_range_subsumed_by_range (rng r) s e \<or>
      page_range_in_range (rng r) s e")
    case True
    have "\<exists>us vs. r # rs = us @ r # vs \<and> (\<forall>x \<in> set us. e < pgstart (rng x)) \<and> pgend (rng r) < s"
      if "range_before_page (rng r) s"
      using that by (intro exI [of _ "[]"] exI [of _ rs]) (auto simp: range_before_page_def)
    then show ?thesis
      using True by (cases "range_before_page (rng r) s") (auto simp: page_range_subsumed_by_range_def)
  next
    case False
    then have e: "e < pgstart (rng r)" using not_in_range(1) by blast
    show ?thesis
    proof (cases "unpin_scan rng s e rs")
      case (Insert_before x)
      then obtain us vs where "rs = us @ x # vs" "\<forall>x \<in> set us. e < pgstart (rng x)" "pgend (rng x) < s"
        using Cons.IH by auto
      then have "\<exists>us vs. r # rs = us @ x # vs \<and> (\<forall>x \<in> set us. e < pgstart (rng x)) \<and> pgend (rng x) < s"
        using e by (intro exI [of _ "r # us"] exI [of _ vs]) auto
      then show ?thesis using False Insert_before by simp
    qed (use False e Cons.IH in auto)
  qed
qed simp

lemma merge_interval:
  assumes "page_bounds s e" and "\<not> range_before_page R s"
    and "\<not> page_range_subsumed_by_range R s e" and "page_range_in_range R s e"
  shows "{min (pgstart R) s .. max (pgend R) e} = pages R \<union> {s..e}"
    and "page_bounds (min (pgstart R) s) (max (pgend R) e)"
proof -
  have s: "s \<le> pgend R" using assms(2) by (simp add: range_before_page_def)
  consider "pgstart R \<le> s" "pgend R < e" | "s < pgstart R" "pgstart R \<le> e" "e \<le> pgend R"
    | "s \<le> pgstart R" "pgend R \<le> e"
    using assms(3,4) s by (auto simp: page_range_subsumed_by_range_def page_range_in_range_def
        page_in_range_def page_range_subsumes_range_def not_le)
  then have "{min (pgstart R) s .. max (pgend R) e} = pages R \<union> {s..e} \<and>
      page_bounds (min (pgstart R) s) (max (pgend R) e)"
  proof cases
    case 1
    then show ?thesis using s by (auto simp: pages_def page_bounds_def)
  next
    case 2
    then show ?thesis by (auto simp: pages_def page_bounds_def)
  next
    case 3
    then have "min (pgstart R) s = s" "max (pgend R) e = e" by auto
    then show ?thesis using 3 assms(1) by (auto simp: pages_def)
  qed
  then show "{min (pgstart R) s .. max (pgend R) e} = pages R \<union> {s..e}"
      "page_bounds (min (pgstart R) s) (max (pgend R) e)" by simp_all
qed

lemma list_pages_del:
  assumes "ash_inv st" and "r \<in> set (ulist st a)"
  shows "list_pages P (ranges st) (ulist st a) =
      (if P (purged (ranges st r)) then pages (ranges st r) else {}) \<union>
      list_pages P (ranges (range_del r st)) (ulist (range_del r st) a)"
    and "pages (ranges st r) \<inter> list_pages P (ranges (range_del r st)) (ulist (range_del r st) a) = {}"
proof -
  obtain us vs where u: "ulist st a = us @ r # vs" using assms(2) split_list by metis
  note r = ulist_split [OF assms(1) u]
  have rm: "remove1 r (ulist st a) = us @ vs" using r(2) u by (simp add: remove1_append)
  show "list_pages P (ranges st) (ulist st a) =
      (if P (purged (ranges st r)) then pages (ranges st r) else {}) \<union>
      list_pages P (ranges (range_del r st)) (ulist (range_del r st) a)"
    unfolding unpinned_range_del rm by (simp add: u Un_left_commute)
  have "pages (ranges st r) \<inter> pages (ranges st x) = {}" if "x \<in> set us \<union> set vs" for x
    using that r(4,5) by (fastforce simp: pages_def)
  then show "pages (ranges st r) \<inter> list_pages P (ranges (range_del r st)) (ulist (range_del r st) a) = {}"
    unfolding unpinned_range_del rm by (auto simp: list_pages_def)
qed


lemma range_alloc_pages:
  fixes pur s e :: u32
  assumes "ash_inv st" and "insert_at (next_range st) prev (ulist st a) = us @ next_range st # vs"
    and "ulist st a = us @ vs"
  defines "st' \<equiv> fst (range_alloc True a prev pur s e st)"
  shows "list_pages P (ranges st') (ulist st' a) =
      list_pages P (ranges st) (ulist st a) \<union> (if P pur then {s..e} else {})"
    and "b \<noteq> a \<Longrightarrow> list_pages P (ranges st') (ulist st' b) = list_pages P (ranges st) (ulist st b)"
proof -
  have n: "next_range st \<notin> set (ulist st b)" for b
    using ash_invD(1) [OF assms(1), of "next_range st" b] by blast
  then have "next_range st \<notin> set us" "next_range st \<notin> set vs" using n [of a] assms(3) by auto
  then show "list_pages P (ranges st') (ulist st' a) =
      list_pages P (ranges st) (ulist st a) \<union> (if P pur then {s..e} else {})"
    using assms(2,3) by (auto simp: st'_def pages_def)
  show "b \<noteq> a \<Longrightarrow> list_pages P (ranges st') (ulist st' b) = list_pages P (ranges st) (ulist st b)"
    using n [of b] by (simp add: st'_def)
qed

lemma unpin_restart_correct:
  assumes "ash_inv st" and "page_bounds s e" and "area_file (area st a) \<noteq> None"
    and "pur = ASHMEM_NOT_PURGED \<or> pur = ASHMEM_WAS_PURGED"
    and "Q \<subseteq> {s..e}" and "Q \<noteq> {} \<longrightarrow> pur = ASHMEM_WAS_PURGED" and "Q \<inter> unpinned_pages st a = {}"
    and "unpin_restart True a s e pur st = (st', res)"
  shows "ash_inv st' \<and> res = Inr 0 \<and> unpinned_pages st' a = unpinned_pages st a \<union> {s..e} \<and>
    purged_pages st a \<union> Q \<subseteq> purged_pages st' a \<and>
    (\<forall>b P. b \<noteq> a \<longrightarrow> list_pages P (ranges st') (ulist st' b) = list_pages P (ranges st) (ulist st b)) \<and>
    truncations st' = truncations st"
  using assms
proof (induction "length (ulist st a)" arbitrary: s e pur st Q rule: less_induct)
  case less
  note inv = less.prems(1)
  note run = less.prems(8) [unfolded unpin_restart.simps [of True a s e pur st]]
  note scan = unpin_scan_cases [where rng = "ranges st" and s = s and e = e and rs = "ulist st a"]
  have insert: ?case if "range_alloc True a prev pur s e st = (st', res)"
    and u: "ulist st a = us @ vs" "insert_at (next_range st) prev (ulist st a) = us @ next_range st # vs"
    and "\<And>x. x \<in> set us \<Longrightarrow> e < pgstart (ranges st x)" "\<And>x. x \<in> set vs \<Longrightarrow> pgend (ranges st x) < s"
    for prev us vs
  proof -
    have st': "st' = fst (range_alloc True a prev pur s e st)" "res = Inr 0"
      using that(1) snd_range_alloc [of a prev pur s e st] by (metis fst_conv, metis snd_conv)
    have "ash_inv st'"
      unfolding st' by (rule range_alloc_inv [OF inv less.prems(3,2,4) u that(4,5)])
    then show ?thesis
      using st' less.prems(5,6) range_alloc_pages [OF inv u(2,1)] by auto
  qed
  show ?case
  proof (cases "unpin_scan (ranges st) s e (ulist st a)")
    case Covered
    then obtain r where r: "r \<in> set (ulist st a)" "pgstart (ranges st r) \<le> s" "e \<le> pgend (ranges st r)"
      using scan by auto
    then have "{s..e} \<subseteq> pages (ranges st r)" by (auto simp: pages_def)
    also have "\<dots> \<subseteq> unpinned_pages st a" using r(1) by (auto simp: list_pages_def)
    finally have "{s..e} \<subseteq> unpinned_pages st a" .
    moreover from this have "Q = {}" using less.prems(5,7) by blast
    ultimately show ?thesis using run Covered inv by auto
  next
    case (Merge r)
    let ?R = "ranges st r" and ?st = "range_del r st"
    have r: "r \<in> set (ulist st a)" "\<not> range_before_page ?R s"
        "\<not> page_range_subsumed_by_range ?R s e" "page_range_in_range ?R s e"
      using scan Merge by auto
    note m = merge_interval [OF less.prems(2) r(2-4)]
    note d = list_pages_del [OF inv r(1)]
    let ?Q = "Q \<union> (if purged ?R = ASHMEM_WAS_PURGED then pages ?R else {})"
    have "ash_inv st' \<and> res = Inr 0 \<and>
        unpinned_pages st' a = unpinned_pages ?st a \<union> {min (pgstart ?R) s .. max (pgend ?R) e} \<and>
        purged_pages ?st a \<union> ?Q \<subseteq> purged_pages st' a \<and>
        (\<forall>b P. b \<noteq> a \<longrightarrow> list_pages P (ranges st') (ulist st' b) = list_pages P (ranges ?st) (ulist ?st b)) \<and>
        truncations st' = truncations ?st"
    proof (rule less.hyps)
      show "length (ulist ?st a) < length (ulist st a)" using r(1) by (simp add: length_remove1_less)
      show "ash_inv ?st" by (rule range_del_inv [OF inv r(1)])
      show "?Q \<subseteq> {min (pgstart ?R) s .. max (pgend ?R) e}" unfolding m(1) using less.prems(5) by auto
      show "?Q \<inter> unpinned_pages ?st a = {}" using d less.prems(7) by auto
      show "pur OR purged ?R = ASHMEM_NOT_PURGED \<or> pur OR purged ?R = ASHMEM_WAS_PURGED"
          "?Q \<noteq> {} \<longrightarrow> pur OR purged ?R = ASHMEM_WAS_PURGED"
        using less.prems(4,6) ash_invD(4) [OF inv r(1)]
        by (auto simp: ASHMEM_WAS_PURGED_def ASHMEM_NOT_PURGED_def)
      show "unpin_restart True a (min (pgstart ?R) s) (max (pgend ?R) e) (pur OR purged ?R) ?st = (st', res)"
        using run Merge by simp
    qed (use m(2) less.prems(3) in auto)
    moreover have "ulist ?st b = ulist st b" if "b \<noteq> a" for b
      using ulist_disjoint [OF inv r(1), of b] that unfolding unpinned_range_del
      by (intro remove1_idem) blast
    ultimately show ?thesis
      using d m(1) by (auto simp del: unpinned_range_del)
  next
    case (Insert_before r)
    then obtain us vs where u: "ulist st a = us @ r # vs" "\<forall>x \<in> set us. e < pgstart (ranges st x)"
        "pgend (ranges st r) < s"
      using scan by auto
    note sp = ulist_split [OF inv u(1)]
    show ?thesis
    proof (rule insert [OF _ u(1)])
      show "range_alloc True a (Some r) pur s e st = (st', res)" using run Insert_before by simp
      show "insert_at (next_range st) (Some r) (ulist st a) = us @ next_range st # r # vs"
        using u(1) sp(2) by (simp add: insert_at_def klist_simps del: list_mem_simps)
      show "pgend (ranges st x) < s" if "x \<in> set (r # vs)" for x
        using that u(3) sp(4) [of x] page_bounds_less [OF ash_invD(3) [OF inv sp(1)] u(3)] by auto
    qed (use u(2) in auto)
  next
    case Insert_at_end
    show ?thesis
      by (rule insert [of None "ulist st a" "[]"])
        (use run scan Insert_at_end in \<open>auto simp: insert_at_def\<close>)
  qed
qed


lemma unpin_restart_fail:
  assumes "ash_inv st"
  shows "ash_inv (fst (unpin_restart False a s e pur st)) \<and>
    snd (unpin_restart False a s e pur st) \<in> {Inr 0, Inl ENOMEM}"
  using assms
proof (induction "length (ulist st a)" arbitrary: s e pur st rule: less_induct)
  case less
  show ?case
  proof (cases "unpin_scan (ranges st) s e (ulist st a)")
    case (Merge r)
    then have r: "r \<in> set (ulist st a)" by (rule unpin_scan_Merge)
    then show ?thesis
      using less.hyps [of "range_del r st"] range_del_inv [OF less.prems r] Merge
      by (simp add: unpin_restart.simps [of False a s e pur st] length_remove1_less)
  qed (use less.prems in \<open>simp_all add: unpin_restart.simps [of False a s e pur st]\<close>)
qed

text \<open>The walk when the allocation at its end fails: either the request was covered and no page
  changes, or the pages of every range that was merged are no longer unpinned.\<close>

lemma unpin_restart_fail_pages:
  assumes "ash_inv st" and "page_bounds s e" and "unpin_restart False a s e pur st = (st', res)"
  shows "(\<forall>b P. b \<noteq> a \<longrightarrow> list_pages P (ranges st') (ulist st' b) = list_pages P (ranges st) (ulist st b)) \<and>
    (if res = Inr 0 then {s..e} \<subseteq> unpinned_pages st a \<and>
       (\<forall>P. list_pages P (ranges st') (ulist st' a) = list_pages P (ranges st) (ulist st a))
     else res = Inl ENOMEM \<and> (\<exists>S E. {s..e} \<subseteq> {S..E} \<and>
       (\<forall>P. list_pages P (ranges st') (ulist st' a) = list_pages P (ranges st) (ulist st a) - {S..E}) \<and>
       (\<forall>r \<in> set (ulist st a). pages (ranges st r) \<subseteq> {S..E} \<or> pages (ranges st r) \<inter> {S..E} = {})))"
  using assms
proof (induction "length (ulist st a)" arbitrary: s e pur st rule: less_induct)
  case less
  note inv = less.prems(1)
  note run = less.prems(3) [unfolded unpin_restart.simps [of False a s e pur st]]
  note scan = unpin_scan_cases [where rng = "ranges st" and s = s and e = e and rs = "ulist st a"]
  have fail: ?case if "range_alloc False a prev pur s e st = (st', res)"
    and "\<And>x. x \<in> set (ulist st a) \<Longrightarrow> e < pgstart (ranges st x) \<or> pgend (ranges st x) < s" for prev
  proof -
    have st': "st' = st" "res = Inl ENOMEM" using that(1) by (simp_all add: range_alloc_def)
    note apart = that(2)
    have dis: "pages (ranges st x) \<inter> {s..e} = {}" if "x \<in> set (ulist st a)" for x
      using apart [OF that] by (auto simp: pages_def)
    then have "list_pages P (ranges st) (ulist st a) = list_pages P (ranges st) (ulist st a) - {s..e}" for P
      by (auto simp: list_pages_def)
    with st' dis show ?thesis by simp (rule exI [of _ s], rule exI [of _ e], simp)
  qed
  show ?case
  proof (cases "unpin_scan (ranges st) s e (ulist st a)")
    case Covered
    then obtain r where r: "r \<in> set (ulist st a)" "pgstart (ranges st r) \<le> s" "e \<le> pgend (ranges st r)"
      using scan by auto
    then have "{s..e} \<subseteq> pages (ranges st r)" by (auto simp: pages_def)
    also have "\<dots> \<subseteq> unpinned_pages st a" using r(1) by (auto simp: list_pages_def)
    finally show ?thesis using run Covered by auto
  next
    case (Merge r)
    let ?R = "ranges st r" and ?st = "range_del r st"
    have r: "r \<in> set (ulist st a)" "\<not> range_before_page ?R s"
        "\<not> page_range_subsumed_by_range ?R s e" "page_range_in_range ?R s e"
      using scan Merge by auto
    note m = merge_interval [OF less.prems(2) r(2-4)]
    note d = list_pages_del [OF inv r(1)]
    have other: "ulist ?st b = ulist st b" if "b \<noteq> a" for b
      using ulist_disjoint [OF inv r(1), of b] that unfolding unpinned_range_del
      by (intro remove1_idem) blast
    have ih: "(\<forall>b P. b \<noteq> a \<longrightarrow> list_pages P (ranges st') (ulist st' b) = list_pages P (ranges ?st) (ulist ?st b)) \<and>
      (if res = Inr 0 then pages ?R \<union> {s..e} \<subseteq> unpinned_pages ?st a \<and>
         (\<forall>P. list_pages P (ranges st') (ulist st' a) = list_pages P (ranges ?st) (ulist ?st a))
       else res = Inl ENOMEM \<and> (\<exists>S E. pages ?R \<union> {s..e} \<subseteq> {S..E} \<and>
         (\<forall>P. list_pages P (ranges st') (ulist st' a) = list_pages P (ranges ?st) (ulist ?st a) - {S..E}) \<and>
         (\<forall>r \<in> set (ulist ?st a). pages (ranges ?st r) \<subseteq> {S..E} \<or> pages (ranges ?st r) \<inter> {S..E} = {})))"
      unfolding m(1) [symmetric]
    proof (rule less.hyps)
      show "length (ulist ?st a) < length (ulist st a)" using r(1) by (simp add: length_remove1_less)
      show "ash_inv ?st" by (rule range_del_inv [OF inv r(1)])
      show "unpin_restart False a (min (pgstart ?R) s) (max (pgend ?R) e) (pur OR purged ?R) ?st = (st', res)"
        using run Merge by simp
    qed (rule m(2))
    show ?thesis
    proof (cases "res = Inr 0")
      case True
      then have "pages ?R = {}" using ih d(2) [where P = "\<lambda>_. True"] by auto
      then show ?thesis using True ih other d(1) by (auto simp del: unpinned_range_del)
    next
      case False
      then obtain S E where SE: "pages ?R \<union> {s..e} \<subseteq> {S..E}"
        "\<forall>P. list_pages P (ranges st') (ulist st' a) = list_pages P (ranges ?st) (ulist ?st a) - {S..E}"
        "\<forall>r \<in> set (ulist ?st a). pages (ranges ?st r) \<subseteq> {S..E} \<or> pages (ranges ?st r) \<inter> {S..E} = {}"
        using ih by auto
      have "list_pages P (ranges st') (ulist st' a) = list_pages P (ranges st) (ulist st a) - {S..E}" for P
        using d(1) [of P] SE(1,2) by auto
      moreover have "pages (ranges st x) \<subseteq> {S..E} \<or> pages (ranges st x) \<inter> {S..E} = {}" if "x \<in> set (ulist st a)" for x
        using SE(1,3) that by (cases "x = r") (auto simp: in_set_remove1)
      moreover have "{s..e} \<subseteq> {S..E}" using SE(1) by blast
      ultimately have "\<exists>S E. {s..e} \<subseteq> {S..E} \<and>
          (\<forall>P. list_pages P (ranges st') (ulist st' a) = list_pages P (ranges st) (ulist st a) - {S..E}) \<and>
          (\<forall>r \<in> set (ulist st a). pages (ranges st r) \<subseteq> {S..E} \<or> pages (ranges st r) \<inter> {S..E} = {})"
        by - (rule exI [of _ S], rule exI [of _ E], simp)
      then show ?thesis using False ih other by (simp del: unpinned_range_del)
    qed
  next
    case (Insert_before r)
    then obtain us vs where u: "ulist st a = us @ r # vs" "\<forall>x \<in> set us. e < pgstart (ranges st x)"
        "pgend (ranges st r) < s"
      using scan by auto
    note sp = ulist_split [OF inv u(1)]
    show ?thesis
    proof (rule fail)
      show "range_alloc False a (Some r) pur s e st = (st', res)" using run Insert_before by simp
      show "e < pgstart (ranges st x) \<or> pgend (ranges st x) < s" if "x \<in> set (ulist st a)" for x
        using that u sp(4) [of x] page_bounds_less [OF ash_invD(3) [OF inv sp(1)] u(3)] by auto
    qed
  next
    case Insert_at_end
    show ?thesis by (rule fail [of None]) (use run scan Insert_at_end in auto)
  qed
qed

section \<open>Shrinking, release and the other operations\<close>

definition truncation :: "ashmem_state \<Rightarrow> nat \<Rightarrow> nat option \<times> u64 \<times> u64" where
  "truncation st r =
     (area_file (area st (range_asma (ranges st r))), ucast (pgstart (ranges st r) * PAGE_SIZE),
      ucast ((pgend (ranges st r) + 1) * PAGE_SIZE - 1))"

definition purge_range :: "nat \<Rightarrow> ashmem_state \<Rightarrow> ashmem_state" where
  "purge_range r st = lru_del r (upd_range (\<lambda>R. R\<lparr>purged := ASHMEM_WAS_PURGED\<rparr>) r
     (st\<lparr>truncations := truncations st @ [truncation st r]\<rparr>))"

lemma shrink_loop_Cons:
  "shrink_loop (r # rs) nr st =
     (let nr' = nr - range_size (ranges st r)
      in if sint nr' \<le> 0 then purge_range r st else shrink_loop rs nr' (purge_range r st))"
  by (simp add: Let_def purge_range_def truncation_def)

lemma purge_range_simps [simp]:
  "areas (purge_range r st) = areas st"
  "area (purge_range r st) = area st"
  "ranges (purge_range r st) = (ranges st)(r := (ranges st r)\<lparr>purged := ASHMEM_WAS_PURGED\<rparr>)"
  "next_range (purge_range r st) = next_range st"
  "ashmem_lru_list (purge_range r st) = remove1 r (ashmem_lru_list st)"
  "lru_count (purge_range r st) = lru_count st - range_size (ranges st r)"
  "truncations (purge_range r st) = truncations st @ [truncation st r]"
  by (auto simp: purge_range_def lru_del_def upd_range_def range_size_def intro: area_cong)

lemma truncation_purge_range [simp]: "truncation (purge_range r st) x = truncation st x"
  by (simp add: truncation_def)

lemma lru_member:
  assumes "ash_inv st" and "r \<in> set (ashmem_lru_list st)"
  obtains a where "r \<in> set (ulist st a)" and "range_on_lru (ranges st r)"
  using assms by (auto simp: ash_inv_def lru_ok_def)

lemma purge_range_inv:
  assumes "ash_inv st" and r: "r \<in> set (ashmem_lru_list st)"
  shows "ash_inv (purge_range r st)"
proof -
  let ?st = "purge_range r st"
  have bounds: "pgstart (ranges ?st x) = pgstart (ranges st x)" "pgend (ranges ?st x) = pgend (ranges st x)"
    "range_asma (ranges ?st x) = range_asma (ranges st x)" for x by simp_all
  have "ranges_ok ?st b" for b
    using assms(1) unfolding ash_inv_def ranges_ok_def bounds by auto
  moreover have "lru_ok ?st"
  proof -
    have l: "lru_ok st" using assms(1) by (simp add: ash_inv_def)
    then have d: "distinct (ashmem_lru_list st)" by (simp add: lru_ok_def)
    have "range_on_lru (ranges ?st x) \<longleftrightarrow> x \<noteq> r \<and> range_on_lru (ranges st x)" for x
      by (simp add: range_on_lru_def ASHMEM_WAS_PURGED_def ASHMEM_NOT_PURGED_def)
    then have 1: "set (ashmem_lru_list ?st) = {x. (\<exists>a. x \<in> set (ulist ?st a)) \<and> range_on_lru (ranges ?st x)}"
      using l d by (auto simp: lru_ok_def)
    have "range_size (ranges ?st x) = range_size (ranges st x)" for x
      by (simp add: range_size_def)
    then have "sum_list (map (\<lambda>x. range_size (ranges ?st x)) (remove1 r (ashmem_lru_list st))) =
        lru_count st - range_size (ranges st r)"
      using l sum_list_remove1 [OF r, of "\<lambda>x. range_size (ranges st x)"]
      by (simp add: lru_ok_def del: purge_range_simps(3))
    then show ?thesis unfolding lru_ok_def using 1 d by (simp del: purge_range_simps(3))
  qed
  ultimately show ?thesis by (simp add: ash_inv_def)
qed

lemma shrink_loop_correct:
  assumes "ash_inv st" and "ashmem_lru_list st = rs"
  obtains ps qs where "rs = ps @ qs" and "ash_inv (shrink_loop rs nr st)"
    and "areas (shrink_loop rs nr st) = areas st" and "ashmem_lru_list (shrink_loop rs nr st) = qs"
    and "\<And>r. ranges (shrink_loop rs nr st) r =
      (if r \<in> set ps then (ranges st r)\<lparr>purged := ASHMEM_WAS_PURGED\<rparr> else ranges st r)"
    and "truncations (shrink_loop rs nr st) = truncations st @ map (truncation st) ps"
    and "qs = [] \<or> sint (nr - sum_list (map (\<lambda>r. range_size (ranges st r)) ps)) \<le> 0"
  using assms
proof (induction rs arbitrary: nr st thesis)
  case Nil
  show ?case by (rule Nil.prems(1) [of "[]" "[]"]) (use Nil.prems(2,3) in auto)
next
  case (Cons r rs)
  let ?st = "purge_range r st" and ?nr = "nr - range_size (ranges st r)"
  have inv: "ash_inv ?st" using Cons.prems by (intro purge_range_inv) auto
  have d: "r \<notin> set rs" using Cons.prems(2,3) by (simp add: ash_inv_def lru_ok_def)
  show ?case
  proof (cases "sint ?nr \<le> 0")
    case True
    show ?thesis
      by (rule Cons.prems(1) [of "[r]" rs])
        (use True inv Cons.prems(3) in \<open>auto simp: shrink_loop_Cons Let_def simp del: shrink_loop.simps(2)\<close>)
  next
    case False
    have run: "shrink_loop (r # rs) nr st = shrink_loop rs ?nr ?st"
      using False unfolding shrink_loop_Cons Let_def by simp
    have lru: "ashmem_lru_list ?st = rs" using Cons.prems(3) by simp
    show ?thesis
    proof (rule Cons.IH [OF _ inv lru, where nr = ?nr])
      fix ps qs
      assume p: "rs = ps @ qs" "ash_inv (shrink_loop rs ?nr ?st)"
        "areas (shrink_loop rs ?nr ?st) = areas ?st" "ashmem_lru_list (shrink_loop rs ?nr ?st) = qs"
        "\<And>x. ranges (shrink_loop rs ?nr ?st) x =
          (if x \<in> set ps then (ranges ?st x)\<lparr>purged := ASHMEM_WAS_PURGED\<rparr> else ranges ?st x)"
        "truncations (shrink_loop rs ?nr ?st) = truncations ?st @ map (truncation ?st) ps"
        "qs = [] \<or> sint (?nr - sum_list (map (\<lambda>r. range_size (ranges ?st r)) ps)) \<le> 0"
      have sz: "map (\<lambda>r. range_size (ranges ?st r)) ps = map (\<lambda>r. range_size (ranges st r)) ps"
        by (simp add: range_size_def)
      show ?thesis
      proof (rule Cons.prems(1) [of "r # ps" qs], unfold run)
        show "qs = [] \<or> sint (nr - sum_list (map (\<lambda>r. range_size (ranges st r)) (r # ps))) \<le> 0"
          using p(7) unfolding sz by (simp add: diff_diff_eq)
        show "ranges (shrink_loop rs ?nr ?st) x =
            (if x \<in> set (r # ps) then ranges st x\<lparr>purged := ASHMEM_WAS_PURGED\<rparr> else ranges st x)" for x
          unfolding p(5) by simp
        show "truncations (shrink_loop rs ?nr ?st) = truncations st @ map (truncation st) (r # ps)"
          using p(6) by simp
      qed (use p(1-4) in simp_all)
    qed
  qed
qed


lemma ash_inv_cong:
  assumes "ash_inv st" and "\<And>a. ulist st' a = ulist st a"
    and "\<And>a. ulist st a \<noteq> [] \<Longrightarrow> area_file (area st' a) \<noteq> None"
    and "ranges st' = ranges st" and "next_range st' = next_range st"
    and "ashmem_lru_list st' = ashmem_lru_list st" and "lru_count st' = lru_count st"
  shows "ash_inv st'"
  using assms unfolding ash_inv_def ranges_ok_def lru_ok_def by simp

lemma upd_area_inv:
  assumes "ash_inv st" and "unpinned_list (f (area st a)) = ulist st a"
    and "area_file (area st a) \<noteq> None \<Longrightarrow> area_file (f (area st a)) \<noteq> None"
  shows "ash_inv (upd_area f a st)"
proof (rule ash_inv_cong [OF assms(1)])
  show "ulist (upd_area f a st) b = ulist st b" for b
    using assms(2) by (simp add: area_upd_area)
  show "area_file (area (upd_area f a st) b) \<noteq> None" if "ulist st b \<noteq> []" for b
  proof -
    have "area_file (area st b) \<noteq> None" using assms(1) that by (simp add: ash_inv_def ranges_ok_def)
    then show ?thesis using assms(3) by (auto simp: area_upd_area)
  qed
qed (simp_all add: upd_area_def)

lemma fold_range_del:
  assumes "ash_inv st" and "set rs \<subseteq> set (ulist st a)" and "distinct rs"
  shows "ash_inv (fold range_del rs st)"
    and "ulist (fold range_del rs st) b = filter (\<lambda>r. r \<notin> set rs) (ulist st b)"
proof -
  have "ash_inv (fold range_del rs st) \<and>
      (\<forall>b. ulist (fold range_del rs st) b = filter (\<lambda>r. r \<notin> set rs) (ulist st b))"
    using assms
  proof (induction rs arbitrary: st)
    case (Cons r rs)
    have inv: "ash_inv (range_del r st)" using Cons.prems by (intro range_del_inv [of st r a]) auto
    have d: "distinct (ulist st b)" for b using ash_inv_area(1) [OF Cons.prems(1)] .
    have "ash_inv (fold range_del rs (range_del r st)) \<and>
        (\<forall>b. ulist (fold range_del rs (range_del r st)) b =
          filter (\<lambda>r. r \<notin> set rs) (ulist (range_del r st) b))"
      using Cons.prems d [of a] by (intro Cons.IH [OF inv]) auto
    moreover have "filter (\<lambda>r. r \<notin> set rs) (remove1 r (ulist st b)) =
        filter (\<lambda>x. x \<notin> set (r # rs)) (ulist st b)" for b
      using d [of b]
      by (auto simp: distinct_remove1_removeAll removeAll_filter_not_eq intro!: filter_cong)
    ultimately show ?case by simp
  qed simp
  then show "ash_inv (fold range_del rs st)"
      "ulist (fold range_del rs st) b = filter (\<lambda>r. r \<notin> set rs) (ulist st b)" by simp_all
qed

lemma ashmem_release_inv:
  assumes "ash_inv st"
  shows "ash_inv (ashmem_release a st)" and "areas (ashmem_release a st) a = None"
    and "b \<noteq> a \<Longrightarrow> ulist (ashmem_release a st) b = ulist st b"
proof -
  let ?st = "fold range_del (ulist st a) st"
  note f = fold_range_del [OF assms subset_refl ash_inv_area(1) [OF assms]]
  have ua: "ulist ?st a = []" using f(2) [of a a] by (simp add: filter_empty_conv)
  have rel: "ulist (ashmem_release a st) b = (if b = a then [] else ulist ?st b)"
      "area_file (area (ashmem_release a st) b) = (if b = a then None else area_file (area ?st b))" for b
    by (simp_all add: ashmem_release_def Let_def fput_def area_def zero_area_def split: option.split)
  have rest: "ranges (ashmem_release a st) = ranges ?st" "next_range (ashmem_release a st) = next_range ?st"
    "ashmem_lru_list (ashmem_release a st) = ashmem_lru_list ?st" "lru_count (ashmem_release a st) = lru_count ?st"
    by (simp_all add: ashmem_release_def Let_def fput_def split: option.split)
  show "ash_inv (ashmem_release a st)"
  proof (rule ash_inv_cong [OF f(1)])
    show "ulist (ashmem_release a st) b = ulist ?st b" for b using rel(1) ua by simp
    show "area_file (area (ashmem_release a st) b) \<noteq> None" if "ulist ?st b \<noteq> []" for b
      using f(1) that ua unfolding rel ash_inv_def ranges_ok_def by auto
  qed (rule rest)+
  show "areas (ashmem_release a st) a = None" by (simp add: ashmem_release_def Let_def)
  show "ulist (ashmem_release a st) b = ulist st b" if "b \<noteq> a"
  proof -
    have "\<forall>r \<in> set (ulist st b). r \<notin> set (ulist st a)" using ulist_disjoint [OF assms] that by blast
    then show ?thesis using that rel(1) f(2) [of a b] by (simp add: filter_id_conv)
  qed
qed

lemma ashmem_mmap_inv:
  "ash_inv st \<Longrightarrow> ash_inv (fst (ashmem_mmap setup a vma st))"
proof -
  assume inv: "ash_inv st"
  have backing: "ash_inv (fst (ashmem_backing setup a flags st))" for flags
  proof (cases "area_file (area st a)")
    case None
    have "ash_inv (upd_area (\<lambda>A. A\<lparr>area_file := Some f\<rparr>) a (st\<lparr>next_file := n, file_count := c\<rparr>))" for f n c
    proof (rule upd_area_inv)
      show "ash_inv (st\<lparr>next_file := n, file_count := c\<rparr>)"
        by (rule ash_inv_cong [OF inv]) (use inv in \<open>auto simp: area_def ash_inv_def ranges_ok_def\<close>)
    qed simp_all
    then show ?thesis using None inv by (auto simp: ashmem_backing_def Let_def split: option.split)
  qed (simp add: ashmem_backing_def inv)
  have cnt: "ash_inv (st'\<lparr>file_count := c\<rparr>)" if "ash_inv st'" for st' c
    by (rule ash_inv_cong [OF that]) (use that in \<open>auto simp: area_def ash_inv_def ranges_ok_def\<close>)
  show ?thesis
    using inv backing [of "vm_flags vma AND NOT (calc_vm_may_flags (NOT (prot_mask (area st a))))"]
    by (auto simp: ashmem_mmap_def shmem_set_file_def fput_opt_def fput_def get_file_def Let_def cnt
        split: prod.splits sum.splits option.splits)
qed

section \<open>The request of a pin or unpin\<close>

lemma page_offset_0: "x AND NOT PAGE_MASK = 0 \<longleftrightarrow> 4096 dvd unat x"
proof -
  have "x AND NOT PAGE_MASK = take_bit 12 x"
    by (simp add: PAGE_MASK_def PAGE_SIZE_def take_bit_eq_mask mask_eq_exp_minus_1)
  then have "unat (x AND NOT PAGE_MASK) = unat x mod 4096"
    by (simp add: take_bit_eq_mod unat_mod)
  then show ?thesis by (metis dvd_eq_mod_eq_0 unat_eq_zero)
qed

lemma pin_bounds_pages:
  assumes "pin_bounds sz pin = Inr (s, e)"
  shows "4096 * unat s = unat (pin_offset pin)"
    and "pin_len pin \<noteq> 0 \<Longrightarrow> s \<le> e \<and> 4096 * (unat e + 1) = unat (pin_offset pin) + unat (pin_len pin) \<and>
      4096 * (unat e + 1) \<le> unat (PAGE_ALIGN sz)"
    and "pin_len pin = 0 \<Longrightarrow>
      (if pin_offset pin = PAGE_ALIGN sz then e = s - 1
       else s \<le> e \<and> 4096 * (unat e + 1) = unat (PAGE_ALIGN sz))"
proof -
  define off where "off = pin_offset pin"
  define len where "len = (if pin_len pin = 0 then PAGE_ALIGN sz - off else pin_len pin)"
  have c: "(off OR len) AND NOT PAGE_MASK = 0" "\<not> - 1 - off < len" "\<not> PAGE_ALIGN sz < off + len"
      "s = off div PAGE_SIZE" "e = s + len div PAGE_SIZE - 1"
    using assms unfolding pin_bounds_def Let_def off_def [symmetric] len_def [symmetric]
    by (auto split: if_splits)
  have "off AND NOT PAGE_MASK = 0" "len AND NOT PAGE_MASK = 0"
    using c(1) unfolding bit.conj_disj_distrib2 by (simp_all add: or_eq_0_iff)
  then have d: "4096 dvd unat off" "4096 dvd unat len" unfolding page_offset_0 .
  have nw: "unat off + unat len < 2 ^ 32" using c(2) no_wrap [of len off] by (simp add: not_less)
  then have sum: "unat (off + len) = unat off + unat len" by (simp add: unat_word_ariths)
  have le: "unat off + unat len \<le> unat (PAGE_ALIGN sz)"
    using c(3) unfolding sum [symmetric] by (simp add: not_less word_le_nat_alt [symmetric])
  have s: "unat s = unat off div 4096" by (simp add: c(4) unat_div PAGE_SIZE_def)
  have l: "unat (len div PAGE_SIZE) = unat len div 4096" by (simp add: unat_div PAGE_SIZE_def)
  show os: "4096 * unat s = unat (pin_offset pin)" using d(1) s by (simp add: off_def)
  have main: "s \<le> e \<and> 4096 * (unat e + 1) = unat off + unat len" if "len \<noteq> 0"
  proof -
    have "0 < unat len" using that by (simp add: unat_gt_0)
    then have pos: "0 < unat len div 4096" using d(2) by auto
    have "unat s + unat (len div PAGE_SIZE) < 2 ^ 32" unfolding s l using nw by linarith
    then have "unat (s + len div PAGE_SIZE) = unat s + unat len div 4096"
      by (simp add: unat_word_ariths(1) l)
    moreover from this have "unat e = unat s + unat len div 4096 - 1"
      using pos by (simp add: c(5) unat_minus_one unat_eq_zero [symmetric])
    ultimately show ?thesis
      using pos s d by (auto simp: word_le_nat_alt)
  qed
  show "pin_len pin \<noteq> 0 \<Longrightarrow> s \<le> e \<and> 4096 * (unat e + 1) = unat (pin_offset pin) + unat (pin_len pin) \<and>
      4096 * (unat e + 1) \<le> unat (PAGE_ALIGN sz)"
    using main le by (simp add: len_def off_def)
  show "pin_len pin = 0 \<Longrightarrow>
      (if pin_offset pin = PAGE_ALIGN sz then e = s - 1
       else s \<le> e \<and> 4096 * (unat e + 1) = unat (PAGE_ALIGN sz))"
    using main sum c(5) by (auto simp: len_def off_def)
qed

lemma pin_bounds_page_bounds:
  assumes "pin_bounds sz pin = Inr (s, e)"
  shows "page_bounds s e"
  using pin_bounds_pages [OF assms] by (cases "pin_len pin = 0"; cases "s = 0")
    (auto simp: page_bounds_def word_gt_0 split: if_splits)

end
