(* ===== verification/Ashmem_Props.thy ===== *)
theory Ashmem_Props
  imports Ashmem_Ranges
begin

text \<open>
  Properties of the shared memory driver: the invariant under every entry point, pin, unpin and
  the shrinker as operations on sets of pages, the reporting of purged pages over a run, the
  checks of a pin request, names and protection masks.
\<close>

section \<open>Pin, unpin and status on sets of pages\<close>

lemma touched_iff:
  assumes "s \<le> e" and "pgstart R \<le> pgend R"
  shows "\<not> range_before_page R s \<and> page_range_in_range R s e \<longleftrightarrow> pages R \<inter> {s..e} \<noteq> {}"
proof
  assume t: "\<not> range_before_page R s \<and> page_range_in_range R s e"
  then have "s \<in> pages R \<inter> {s..e} \<or> e \<in> pages R \<inter> {s..e} \<or> pgstart R \<in> pages R \<inter> {s..e}"
    using assms by (auto simp: range_before_page_def page_range_in_range_def page_in_range_def
        page_range_subsumes_range_def pages_def)
  then show "pages R \<inter> {s..e} \<noteq> {}" by blast
next
  assume p: "pages R \<inter> {s..e} \<noteq> {}"
  then have "\<not> range_before_page R s" by (auto simp: pages_def range_before_page_def)
  then show "\<not> range_before_page R s \<and> page_range_in_range R s e"
    using p not_in_range(2) [of R s e] by blast
qed

lemma intersect_touched:
  "s \<le> e \<Longrightarrow> pages R \<inter> {s..e} \<noteq> {} \<Longrightarrow> \<not> range_before_page R s \<and> page_range_in_range R s e"
  using touched_iff [of s e R] by (auto simp: pages_def)

lemma ashmem_pin_rel:
  assumes "ash_inv st" and "page_bounds s e"
  obtains rs' where "pin_rel km a s e [] (ulist st a) st rs' (fst (ashmem_pin km a s e st))"
  using pin_loop_correct [OF assms(1) _ assms(2), of a "[]" "ulist st a" km]
  by (auto simp: ashmem_pin_def)

lemma ashmem_pin_ret:
  assumes "ash_inv st" and "page_bounds s e"
  shows "snd (ashmem_pin km a s e st) =
    (if purge_hit (ranges st) s e (ulist st a) then ASHMEM_WAS_PURGED else ASHMEM_NOT_PURGED)"
  using pin_loop_ret [OF assms(1) _ assms(2), of a "[]" "ulist st a" km ASHMEM_NOT_PURGED]
  by (simp add: ashmem_pin_def ASHMEM_NOT_PURGED_def)

lemma pin_page_sets:
  fixes km :: bool and a :: nat
  assumes "ash_inv st" and "page_bounds s e"
  defines "st' \<equiv> fst (ashmem_pin km a s e st)"
  shows "ash_inv st'"
    and "list_pages P (ranges st') (ulist st' a) \<subseteq> list_pages P (ranges st) (ulist st a) - {s..e}"
    and "km \<Longrightarrow> list_pages P (ranges st') (ulist st' a) = list_pages P (ranges st) (ulist st a) - {s..e}"
    and "b \<noteq> a \<Longrightarrow> list_pages P (ranges st') (ulist st' b) = list_pages P (ranges st) (ulist st b)"
proof -
  obtain rs' where r: "pin_rel km a s e [] (ulist st a) st rs' st'"
    unfolding st'_def by (rule ashmem_pin_rel [OF assms(1,2)])
  note d = pin_relD [OF r]
  show "ash_inv st'" by (rule d(1))
  show "list_pages P (ranges st') (ulist st' a) \<subseteq> list_pages P (ranges st) (ulist st a) - {s..e}"
    using d(4) [of P] unfolding d(2) append_Nil .
  show "km \<Longrightarrow> list_pages P (ranges st') (ulist st' a) = list_pages P (ranges st) (ulist st a) - {s..e}"
    using d(5) [of P] unfolding d(2) append_Nil .
  show "list_pages P (ranges st') (ulist st' b) = list_pages P (ranges st) (ulist st b)" if b: "b \<noteq> a"
    unfolding d(6) [OF b] by (rule list_pages_cong) (rule d(7) [OF b])
qed

lemma purge_hit_pages:
  assumes "s \<le> e"
  shows "list_pages (\<lambda>p. p = ASHMEM_WAS_PURGED) rng rs \<inter> {s..e} \<noteq> {} \<Longrightarrow> purge_hit rng s e rs"
    and "\<forall>r \<in> set rs. pgstart (rng r) \<le> pgend (rng r) \<Longrightarrow> purge_hit rng s e rs \<Longrightarrow>
      list_pages (\<lambda>p. p = ASHMEM_WAS_PURGED) rng rs \<inter> {s..e} \<noteq> {}"
proof -
  assume "list_pages (\<lambda>p. p = ASHMEM_WAS_PURGED) rng rs \<inter> {s..e} \<noteq> {}"
  then obtain r where "r \<in> set rs" "purged (rng r) = ASHMEM_WAS_PURGED" "pages (rng r) \<inter> {s..e} \<noteq> {}"
    by (auto simp: list_pages_def)
  then show "purge_hit rng s e rs"
    unfolding purge_hit_def using intersect_touched [OF assms] by blast
next
  assume ne: "\<forall>r \<in> set rs. pgstart (rng r) \<le> pgend (rng r)" and "purge_hit rng s e rs"
  then obtain r where r: "r \<in> set rs" "\<not> range_before_page (rng r) s" "page_range_in_range (rng r) s e"
      "purged (rng r) = ASHMEM_WAS_PURGED"
    by (auto simp: purge_hit_def)
  then have "pages (rng r) \<inter> {s..e} \<noteq> {}"
    using touched_iff [OF assms, of "rng r"] ne by blast
  then show "list_pages (\<lambda>p. p = ASHMEM_WAS_PURGED) rng rs \<inter> {s..e} \<noteq> {}"
    using r(1,4) by (auto simp: list_pages_def)
qed

lemma pin_status_touched:
  assumes "sorted_wrt (\<lambda>r r'. pgend (rng r') < pgstart (rng r)) rs"
    and "\<forall>r \<in> set rs. pgstart (rng r) \<le> pgend (rng r)" and "s \<le> e"
  shows "pin_status_loop rng s e rs = ASHMEM_IS_UNPINNED \<longleftrightarrow>
    list_pages (\<lambda>_. True) rng rs \<inter> {s..e} \<noteq> {}"
  using assms
proof (induction rs)
  case Nil
  then show ?case by (simp add: ASHMEM_IS_PINNED_def ASHMEM_IS_UNPINNED_def)
next
  case (Cons r rs)
  show ?case
  proof (cases "range_before_page (rng r) s")
    case True
    then have "pgend (rng r) < s" "\<forall>x \<in> set rs. pgend (rng x) < s"
      using Cons.prems(1,2) by (fastforce simp: range_before_page_def)+
    then have "list_pages (\<lambda>_. True) rng (r # rs) \<inter> {s..e} = {}"
      by (force simp: list_pages_def pages_def)
    then show ?thesis using True by (simp add: ASHMEM_IS_PINNED_def ASHMEM_IS_UNPINNED_def)
  next
    case False
    have "pgstart (rng r) \<le> pgend (rng r)" using Cons.prems(2) by simp
    then show ?thesis
      using False Cons touched_iff [OF Cons.prems(3), of "rng r"] by (auto simp: Int_Un_distrib2)
  qed
qed

text \<open>
  C3. Pinning pages \<open>s\<close> to \<open>e\<close> of an area leaves none of them unpinned or known to be purged,
  adds no page to either set, keeps the invariant and every other area. When the one allocation
  of a pin (the upper part of a range that is split) succeeds, exactly these pages leave the two
  sets; when it fails, the pages above the request in that range may leave them too. The result
  says whether a purged page was among the requested ones: it is never missed, and when the area
  has no empty range the answer is exact.
\<close>

theorem ashmem_pin_pages:
  assumes "ash_inv st" and "page_bounds s e" and "ashmem_pin km a s e st = (st', ret)"
  shows "ash_inv st' \<and> unpinned_pages st' a \<subseteq> unpinned_pages st a - {s..e} \<and>
    purged_pages st' a \<subseteq> purged_pages st a - {s..e} \<and>
    (km \<longrightarrow> unpinned_pages st' a = unpinned_pages st a - {s..e} \<and>
      purged_pages st' a = purged_pages st a - {s..e}) \<and>
    (\<forall>b. b \<noteq> a \<longrightarrow> unpinned_pages st' b = unpinned_pages st b \<and> purged_pages st' b = purged_pages st b) \<and>
    (ret = ASHMEM_NOT_PURGED \<or> ret = ASHMEM_WAS_PURGED) \<and>
    (s \<le> e \<and> purged_pages st a \<inter> {s..e} \<noteq> {} \<longrightarrow> ret = ASHMEM_WAS_PURGED) \<and>
    (s \<le> e \<and> (\<forall>r \<in> set (ulist st a). pgstart (ranges st r) \<le> pgend (ranges st r)) \<longrightarrow>
      (ret = ASHMEM_WAS_PURGED \<longleftrightarrow> purged_pages st a \<inter> {s..e} \<noteq> {}))"
proof -
  have st': "st' = fst (ashmem_pin km a s e st)" and ret: "ret = snd (ashmem_pin km a s e st)"
    using assms(3) by simp_all
  note p = pin_page_sets [OF assms(1,2), where km = km and a = a, folded st']
  have hit: "ret = (if purge_hit (ranges st) s e (ulist st a) then ASHMEM_WAS_PURGED else ASHMEM_NOT_PURGED)"
    unfolding ret by (rule ashmem_pin_ret [OF assms(1,2)])
  have iff: "ret = ASHMEM_WAS_PURGED \<longleftrightarrow> purge_hit (ranges st) s e (ulist st a)"
      "ret = ASHMEM_NOT_PURGED \<or> ret = ASHMEM_WAS_PURGED"
    unfolding hit by (simp_all add: ASHMEM_WAS_PURGED_def ASHMEM_NOT_PURGED_def)
  note pages = purge_hit_pages [where s = s and e = e and rng = "ranges st" and rs = "ulist st a", folded iff(1)]
  have "s \<le> e \<and> purged_pages st a \<inter> {s..e} \<noteq> {} \<longrightarrow> ret = ASHMEM_WAS_PURGED"
    using pages(1) by simp
  moreover have "s \<le> e \<and> (\<forall>r \<in> set (ulist st a). pgstart (ranges st r) \<le> pgend (ranges st r)) \<longrightarrow>
      (ret = ASHMEM_WAS_PURGED \<longleftrightarrow> purged_pages st a \<inter> {s..e} \<noteq> {})"
    using pages by metis
  ultimately show ?thesis
    using p(1) p(2) p(3) p(4) iff(2) by (intro conjI allI impI) simp_all
qed

lemma unpin_fail_cases:
  assumes "ash_inv st" and "page_bounds s e" and "ashmem_unpin False a s e st = (st', res)"
  shows "ash_inv st'"
    and "b \<noteq> a \<Longrightarrow> list_pages P (ranges st') (ulist st' b) = list_pages P (ranges st) (ulist st b)"
    and "res = Inr 0 \<Longrightarrow> {s..e} \<subseteq> unpinned_pages st a"
    and "res = Inr 0 \<Longrightarrow> list_pages P (ranges st') (ulist st' a) = list_pages P (ranges st) (ulist st a)"
    and "res \<noteq> Inr 0 \<Longrightarrow> res = Inl ENOMEM"
    and "res \<noteq> Inr 0 \<Longrightarrow> \<exists>S E. {s..e} \<subseteq> {S..E} \<and>
      (\<forall>P. list_pages P (ranges st') (ulist st' a) = list_pages P (ranges st) (ulist st a) - {S..E}) \<and>
      (\<forall>r \<in> set (ulist st a). pages (ranges st r) \<subseteq> {S..E} \<or> pages (ranges st r) \<inter> {S..E} = {})"
proof -
  have run: "unpin_restart False a s e ASHMEM_NOT_PURGED st = (st', res)"
    using assms(3) by (simp add: ashmem_unpin_def)
  show "ash_inv st'" using unpin_restart_fail [OF assms(1), of a s e ASHMEM_NOT_PURGED] run by simp
qed (use unpin_restart_fail_pages [OF assms(1,2) assms(3) [unfolded ashmem_unpin_def]] in
    \<open>auto split: if_split_asm\<close>)

text \<open>
  C4. Unpinning pages \<open>s\<close> to \<open>e\<close> of a mapped area. When the allocation at the end of the walk
  succeeds, the call returns 0, exactly these pages are added to the unpinned pages of the area
  and no page loses its purged mark. When it fails, either the call returns 0, all the pages were
  unpinned before and no page changes, or it returns \<open>ENOMEM\<close> and the pages of an interval that
  contains the request are no longer unpinned nor known to be purged. In every case the invariant
  and the pages of all other areas are kept.
\<close>

theorem ashmem_unpin_pages:
  assumes "ash_inv st" and "page_bounds s e" and "area_file (area st a) \<noteq> None"
    and "ashmem_unpin km a s e st = (st', res)"
  shows "ash_inv st' \<and>
    (\<forall>b. b \<noteq> a \<longrightarrow> unpinned_pages st' b = unpinned_pages st b \<and> purged_pages st' b = purged_pages st b) \<and>
    (km \<longrightarrow> res = Inr 0 \<and> unpinned_pages st' a = unpinned_pages st a \<union> {s..e} \<and>
      purged_pages st a \<subseteq> purged_pages st' a) \<and>
    (\<not> km \<longrightarrow> (if res = Inr 0
      then {s..e} \<subseteq> unpinned_pages st a \<and> unpinned_pages st' a = unpinned_pages st a \<and>
        purged_pages st' a = purged_pages st a
      else res = Inl ENOMEM \<and> (\<exists>S E. {s..e} \<subseteq> {S..E} \<and> unpinned_pages st' a = unpinned_pages st a - {S..E} \<and>
        purged_pages st' a = purged_pages st a - {S..E})))"
proof (cases km)
  case True
  then show ?thesis
    using unpin_restart_correct [OF assms(1-3), of ASHMEM_NOT_PURGED "{}" st' res] assms(4)
    by (simp add: ashmem_unpin_def)
next
  case False
  then have run: "ashmem_unpin False a s e st = (st', res)" using assms(4) by simp
  note u = unpin_fail_cases [OF assms(1,2) run]
  show ?thesis
  proof (cases "res = Inr 0")
    case True
    then show ?thesis using u(1-4) False by simp
  next
    case err: False
    then obtain S E where SE: "{s..e} \<subseteq> {S..E}"
      "\<And>P. list_pages P (ranges st') (ulist st' a) = list_pages P (ranges st) (ulist st a) - {S..E}"
      using u(6) by blast
    then have "\<exists>S E. {s..e} \<subseteq> {S..E} \<and> unpinned_pages st' a = unpinned_pages st a - {S..E} \<and>
        purged_pages st' a = purged_pages st a - {S..E}"
      by blast
    then show ?thesis using u(1,2) u(5) False err by simp
  qed
qed

text \<open>
  C36. For an area without empty ranges, \<open>ASHMEM_GET_PIN_STATUS\<close> answers "unpinned" iff some page
  of the request is unpinned, although the walk stops at the first range below the request.
\<close>

theorem ashmem_pin_status_pages:
  assumes "ash_inv st" and "s \<le> e"
    and "\<forall>r \<in> set (ulist st a). pgstart (ranges st r) \<le> pgend (ranges st r)"
  shows "ashmem_get_pin_status a s e st = ASHMEM_IS_UNPINNED \<longleftrightarrow> unpinned_pages st a \<inter> {s..e} \<noteq> {}"
  unfolding ashmem_get_pin_status_def
  by (rule pin_status_touched [OF ash_inv_area(2) [OF assms(1)] assms(3,2)])

section \<open>The shrinker\<close>

lemma area_eq: "areas st' = areas st \<Longrightarrow> ulist st' a = ulist st a"
  by (simp add: area_def)

lemma shrink_purged_pages:
  assumes "areas st' = areas st"
    and "\<And>r. ranges st' r = (if r \<in> set ps then (ranges st r)\<lparr>purged := ASHMEM_WAS_PURGED\<rparr> else ranges st r)"
  shows "unpinned_pages st' a = unpinned_pages st a" and "purged_pages st a \<subseteq> purged_pages st' a"
    and "r \<in> set ps \<Longrightarrow> r \<in> set (ulist st a) \<Longrightarrow> pages (ranges st r) \<subseteq> purged_pages st' a"
proof -
  have pg: "pages (ranges st' r) = pages (ranges st r)" for r using assms(2) by (simp add: pages_def)
  show "unpinned_pages st' a = unpinned_pages st a"
    unfolding list_pages_def area_eq [OF assms(1)] pg by simp
  show "purged_pages st a \<subseteq> purged_pages st' a"
    unfolding list_pages_def area_eq [OF assms(1)] pg using assms(2) by auto
  show "pages (ranges st r) \<subseteq> purged_pages st' a" if "r \<in> set ps" "r \<in> set (ulist st a)"
    unfolding list_pages_def area_eq [OF assms(1)] pg using assms(2) that by auto
qed

text \<open>
  C12. The shrinker only truncates pages that are unpinned at that moment, of areas that have a
  backing file, whole ranges in LRU order; every page it truncates is marked purged, the unpinned
  pages stay the same, the invariant holds afterwards, and the result is the number of pages left
  on the LRU list. It stops early only when the requested number of pages is reached.
\<close>

theorem ashmem_shrink_safe:
  assumes "ash_inv st" and "ashmem_shrink nr True st = (st', ret)" and "nr \<noteq> 0"
  shows "ash_inv st' \<and> ret = lru_count st' \<and>
    (\<exists>ps. ashmem_lru_list st = ps @ ashmem_lru_list st' \<and>
       truncations st' = truncations st @ map (truncation st) ps \<and>
       (\<forall>r \<in> set ps. \<exists>a f. r \<in> set (ulist st a) \<and> area_file (area st a) = Some f \<and>
          truncation st r = (Some f, ucast (pgstart (ranges st r) * PAGE_SIZE),
            ucast ((pgend (ranges st r) + 1) * PAGE_SIZE - 1)) \<and>
          pages (ranges st r) \<subseteq> unpinned_pages st a \<inter> purged_pages st' a) \<and>
       (ashmem_lru_list st' = [] \<or>
          sint (nr - sum_list (map (\<lambda>r. range_size (ranges st r)) ps)) \<le> 0)) \<and>
    (\<forall>a. unpinned_pages st' a = unpinned_pages st a \<and> purged_pages st a \<subseteq> purged_pages st' a)"
proof (rule shrink_loop_correct [OF assms(1) refl, where nr = nr])
  fix ps qs
  have st': "shrink_loop (ashmem_lru_list st) nr st = st'" "ret = lru_count st'"
    using assms(2,3) by (auto simp: ashmem_shrink_def Let_def)
  assume p: "ashmem_lru_list st = ps @ qs" "ash_inv (shrink_loop (ashmem_lru_list st) nr st)"
    "areas (shrink_loop (ashmem_lru_list st) nr st) = areas st"
    "ashmem_lru_list (shrink_loop (ashmem_lru_list st) nr st) = qs"
    "\<And>r. ranges (shrink_loop (ashmem_lru_list st) nr st) r =
      (if r \<in> set ps then (ranges st r)\<lparr>purged := ASHMEM_WAS_PURGED\<rparr> else ranges st r)"
    "truncations (shrink_loop (ashmem_lru_list st) nr st) = truncations st @ map (truncation st) ps"
    "qs = [] \<or> sint (nr - sum_list (map (\<lambda>r. range_size (ranges st r)) ps)) \<le> 0"
  note q = p [unfolded st'(1)]
  note sp = shrink_purged_pages [OF q(3) q(5)]
  have hit: "\<exists>a f. r \<in> set (ulist st a) \<and> area_file (area st a) = Some f \<and>
      truncation st r = (Some f, ucast (pgstart (ranges st r) * PAGE_SIZE),
        ucast ((pgend (ranges st r) + 1) * PAGE_SIZE - 1)) \<and>
      pages (ranges st r) \<subseteq> unpinned_pages st a \<inter> purged_pages st' a" if r: "r \<in> set ps" for r
  proof -
    obtain a where a: "r \<in> set (ulist st a)"
      using lru_member [OF assms(1), of r] p(1) r by auto
    obtain f where f: "area_file (area st a) = Some f" using ash_invD(5) [OF assms(1) a] by auto
    have "pages (ranges st r) \<subseteq> unpinned_pages st a" using a by (auto simp: list_pages_def)
    then have "pages (ranges st r) \<subseteq> unpinned_pages st a \<inter> purged_pages st' a"
      using sp(3) [OF r a] by simp
    moreover have "truncation st r = (Some f, ucast (pgstart (ranges st r) * PAGE_SIZE),
        ucast ((pgend (ranges st r) + 1) * PAGE_SIZE - 1))"
      using f ash_invD(2) [OF assms(1) a] by (simp add: truncation_def)
    ultimately show ?thesis using a f by blast
  qed
  show ?thesis
    using q(1,2,4,6,7) st'(2) hit sp(1,2) by (intro conjI exI [of _ ps]) simp_all
qed

section \<open>A run of the driver\<close>

datatype ash_event = Ev_pin nat u32 u32 u32 | Ev_unpin nat u32 u32 | Ev_shrink u32

inductive ash_step :: "ashmem_state \<Rightarrow> ash_event \<Rightarrow> ashmem_state \<Rightarrow> bool" where
  pin: "page_bounds s e \<Longrightarrow> ashmem_pin True a s e st = (st', ret) \<Longrightarrow> ash_step st (Ev_pin a s e ret) st'"
| unpin: "page_bounds s e \<Longrightarrow> area_file (area st a) \<noteq> None \<Longrightarrow>
    ashmem_unpin True a s e st = (st', Inr 0) \<Longrightarrow> ash_step st (Ev_unpin a s e) st'"
| shrink: "ashmem_shrink nr True st = (st', ret) \<Longrightarrow> ash_step st (Ev_shrink nr) st'"

inductive_cases ash_stepE: "ash_step st ev st'"

fun pins_page :: "nat \<Rightarrow> u32 \<Rightarrow> ash_event \<Rightarrow> bool" where
  "pins_page a x (Ev_pin b s e ret) \<longleftrightarrow> b = a \<and> x \<in> {s..e}"
| "pins_page a x _ \<longleftrightarrow> False"

lemma shrink_page_sets:
  assumes "ash_inv st" and "ashmem_shrink nr True st = (st', ret)"
  shows "ash_inv st' \<and> unpinned_pages st' a = unpinned_pages st a \<and> purged_pages st a \<subseteq> purged_pages st' a"
proof (cases "nr = 0")
  case False
  then have st': "shrink_loop (ashmem_lru_list st) nr st = st'"
    using assms(2) by (auto simp: ashmem_shrink_def Let_def)
  show ?thesis
  proof (rule shrink_loop_correct [OF assms(1) refl, where nr = nr, unfolded st'])
    fix ps assume "ash_inv st'" "areas st' = areas st"
      "\<And>r. ranges st' r = (if r \<in> set ps then (ranges st r)\<lparr>purged := ASHMEM_WAS_PURGED\<rparr> else ranges st r)"
    then show ?thesis using shrink_purged_pages(1,2) [of st' st ps] by simp
  qed
qed (use assms in \<open>simp add: ashmem_shrink_def\<close>)

lemma unpin_page_sets:
  assumes "ash_inv st" and "page_bounds s e" and "area_file (area st a) \<noteq> None"
    and "ashmem_unpin True a s e st = (st', res)"
  shows "ash_inv st' \<and> purged_pages st b \<subseteq> purged_pages st' b"
  using unpin_restart_correct [OF assms(1-3), of ASHMEM_NOT_PURGED "{}" st' res] assms(4)
  by (cases "b = a") (simp_all add: ashmem_unpin_def)

lemma ash_step_purged:
  assumes "ash_step st ev st'" and "ash_inv st \<and> x \<in> purged_pages st a" and "\<not> pins_page a x ev"
  shows "ash_inv st' \<and> x \<in> purged_pages st' a"
  using assms(1)
proof cases
  case (pin s e b ret)
  note p = pin_page_sets [OF conjunct1 [OF assms(2)] pin(2), where km = True and a = b]
  have st': "st' = fst (ashmem_pin True b s e st)" using pin(3) by simp
  show ?thesis
    using p(1) p(3) [of "\<lambda>p. p = ASHMEM_WAS_PURGED"] p(4) [of a "\<lambda>p. p = ASHMEM_WAS_PURGED"]
      assms(2,3) pin(1) unfolding st' by (cases "a = b") auto
next
  case (unpin s e b)
  then show ?thesis using unpin_page_sets assms(2) by blast
next
  case (shrink nr ret)
  then show ?thesis using shrink_page_sets assms(2) by blast
qed

lemma trace_purged:
  assumes "trace ash_step st evs st'" and "ash_inv st \<and> x \<in> purged_pages st a"
    and "\<forall>ev \<in> set evs. \<not> pins_page a x ev"
  shows "ash_inv st' \<and> x \<in> purged_pages st' a"
  using assms
proof (induction evs arbitrary: st)
  case (Cons ev evs)
  then obtain t where "ash_step st ev t" "trace ash_step t evs st'" by auto
  then show ?case using Cons ash_step_purged by auto
qed simp

text \<open>
  C11. No purge goes unreported: once a page of an area is marked purged, then after any run of
  pins, unpins and shrinks on any areas in which allocations succeed and no pin covers the page,
  the first pin that covers it returns \<open>ASHMEM_WAS_PURGED\<close>.
\<close>

theorem ashmem_purge_reported:
  assumes "ash_inv st" and "x \<in> purged_pages st a" and "trace ash_step st evs st'"
    and "\<forall>ev \<in> set evs. \<not> pins_page a x ev"
    and "ash_step st' (Ev_pin a s e ret) st''" and "x \<in> {s..e}"
  shows "ret = ASHMEM_WAS_PURGED"
proof -
  have inv: "ash_inv st'" and x: "x \<in> purged_pages st' a"
    using trace_purged [OF assms(3) _ assms(4)] assms(1,2) by auto
  from assms(5) have "page_bounds s e" "ret = snd (ashmem_pin True a s e st')"
    by (auto elim: ash_stepE)
  moreover have "purge_hit (ranges st') s e (ulist st' a)"
    using purge_hit_pages(1) [of s e] x assms(6) by fastforce
  ultimately show ?thesis using ashmem_pin_ret [OF inv] by simp
qed

section \<open>Every entry point keeps the invariant\<close>

lemma ashmem_pin_unpin_inv:
  assumes "ash_inv st"
  shows "ash_inv (fst (ashmem_pin_unpin km um a cmd p st))"
proof -
  have unpin: "ash_inv (fst (ashmem_unpin km a s e st))"
    if "page_bounds s e" "area_file (area st a) \<noteq> None" for s e
  proof (cases km)
    case True
    then show ?thesis using unpin_page_sets [OF assms that] by (metis prod.collapse)
  next
    case False
    then show ?thesis using unpin_restart_fail [OF assms] by (simp add: ashmem_unpin_def)
  qed
  have pin: "ash_inv (fst (ashmem_pin km a s e st))" if "page_bounds s e" for s e
    by (rule pin_page_sets(1) [OF assms that])
  show ?thesis
    using assms unpin pin pin_bounds_page_bounds
    by (auto simp: ashmem_pin_unpin_def Let_def split_beta split: sum.split ashmem_cmd.split)
qed

lemma ashmem_ioctl_inv:
  assumes "ash_inv st"
  shows "ash_inv (fst (ashmem_ioctl task km um a cmd arg st))"
proof -
  have upd: "ash_inv (upd_area f a st)" if "\<And>A. unpinned_list (f A) = unpinned_list A"
    "\<And>A. area_file (f A) = area_file A" for f
    using that by (intro upd_area_inv [OF assms]) simp_all
  have shrink: "ash_inv (fst (ashmem_shrink nr True st))" for nr
    using shrink_page_sets [OF assms] by (metis prod.collapse)
  have "fst (ashmem_shrink 0 True st) = st" by (simp add: ashmem_shrink_def)
  then show ?thesis
    using assms upd shrink ashmem_pin_unpin_inv [OF assms]
    by (cases cmd) (auto simp: ashmem_ioctl_def set_name_def set_prot_mask_def Let_def split_beta)
qed

text \<open>
  C13. The driver starts in the invariant, and every entry point keeps it, whatever the caller
  passes and whichever allocations fail: open (on memory not in use), release, read, llseek, mmap,
  the shrinker and every ioctl. In particular a range on the LRU list always belongs to an area
  with a backing file, so the shrinker never follows a null file.
\<close>

theorem ashmem_entry_points_inv:
  assumes "ash_inv st" and "\<And>b. mem = Some b \<Longrightarrow> areas st b = None"
  shows "ash_inv ashmem_init \<and> ash_inv (fst (ashmem_open gfo mem st)) \<and>
    ash_inv (ashmem_release a st) \<and> ash_inv (fst (ashmem_read rd a um buf len pos st)) \<and>
    ash_inv (fst (ashmem_llseek sk a pos off origin st)) \<and> ash_inv (fst (ashmem_mmap setup a vma st)) \<and>
    ash_inv (fst (ashmem_shrink nr gfp_fs st)) \<and> ash_inv (fst (ashmem_ioctl task km um a cmd arg st))"
proof (intro conjI)
  show "ash_inv ashmem_init"
    by (simp add: ash_inv_def ranges_ok_def lru_ok_def ashmem_init_def area_def zero_area_def)
  show "ash_inv (fst (ashmem_open gfo mem st))"
  proof (cases "gfo = None \<and> mem \<noteq> None")
    case True
    then obtain b where b: "gfo = None" "mem = Some b" by auto
    have free: "areas st b = None" using assms(2) b(2) by simp
    have "ash_inv (st\<lparr>areas := (areas st)(b \<mapsto> A)\<rparr>)" if "unpinned_list A = []" for A
      by (rule ash_inv_cong [OF assms(1)])
        (use assms(1) that free in \<open>auto simp: area_def zero_area_def ash_inv_def ranges_ok_def\<close>)
    then show ?thesis using b by (simp add: ashmem_open_def)
  qed (use assms(1) in \<open>auto simp: ashmem_open_def split: option.split\<close>)
  have pos: "ash_inv (st\<lparr>shmem_pos := f\<rparr>)" for f
    by (rule ash_inv_cong [OF assms(1)]) (use assms(1) in \<open>auto simp: area_def ash_inv_def ranges_ok_def\<close>)
  show "ash_inv (fst (ashmem_read rd a um buf len pos st))"
    using assms(1) pos by (auto simp: ashmem_read_def Let_def split_beta split: option.split)
  show "ash_inv (fst (ashmem_llseek sk a pos off origin st))"
    using assms(1) pos by (auto simp: ashmem_llseek_def Let_def split_beta split: option.split)
  show "ash_inv (fst (ashmem_shrink nr gfp_fs st))"
    using shrink_page_sets [OF assms(1), of nr] assms(1)
    by (cases gfp_fs) (auto simp: ashmem_shrink_def Let_def split: if_splits)
qed (use assms(1) in \<open>simp_all add: ashmem_release_inv ashmem_mmap_inv ashmem_ioctl_inv\<close>)

section \<open>Requests\<close>

lemma PAGE_ALIGN_0: "PAGE_ALIGN sz = 0 \<longleftrightarrow> sz = 0 \<or> 0xFFFFF000 < sz"
proof -
  have "PAGE_ALIGN sz = 0 \<longleftrightarrow> unat (PAGE_ALIGN sz) = 0" by (simp add: unat_eq_0)
  also have "\<dots> \<longleftrightarrow> unat (sz + 4095) < 4096"
    by (simp add: PAGE_ALIGN_def unat_page_floor PAGE_SIZE_def div_eq_0_iff)
  also have "\<dots> \<longleftrightarrow> (unat sz + 4095) mod 2 ^ 32 < 4096" by (simp add: unat_word_ariths)
  also have "\<dots> \<longleftrightarrow> unat sz = 0 \<or> 0xFFFFF000 < unat sz"
    using unsigned_less [of sz, where 'a = nat] by (simp add: mod_if) arith
  also have "\<dots> \<longleftrightarrow> sz = 0 \<or> 0xFFFFF000 < sz" by (simp add: word_less_nat_alt unat_eq_0)
  finally show ?thesis .
qed

text \<open>
  C31. A pin, unpin or status request that passes the checks names whole pages inside the area: the
  first page is the given offset, the last page ends at offset plus length (for a length of 0, at
  the end of the area) and never beyond the page-aligned size; the 32-bit sum of offset and length
  does not wrap. There are two exceptions, both with length 0. At the very end of a non-empty area
  the request yields the empty interval \<open>(n, n - 1)\<close>. For an area whose page-aligned size is 0
  (size 0, or above \<open>0xFFFFF000\<close>, where the rounding wraps) the only request that is accepted
  is offset 0 with length 0, and it yields all 2^32 page numbers.
\<close>

theorem ashmem_request_bounds:
  assumes "pin_bounds sz pin = Inr (s, e)"
  shows "page_bounds s e \<and> 4096 * unat s = unat (pin_offset pin) \<and>
    (pin_len pin \<noteq> 0 \<longrightarrow> s \<le> e \<and> 4096 * (unat e + 1) = unat (pin_offset pin) + unat (pin_len pin) \<and>
       4096 * (unat e + 1) \<le> unat (PAGE_ALIGN sz)) \<and>
    (pin_len pin = 0 \<longrightarrow>
       (if pin_offset pin \<noteq> PAGE_ALIGN sz then s \<le> e \<and> 4096 * (unat e + 1) = unat (PAGE_ALIGN sz)
        else if PAGE_ALIGN sz \<noteq> 0 then e = s - 1 \<and> e < s
        else s = 0 \<and> e = 0xFFFFFFFF)) \<and>
    (PAGE_ALIGN sz = 0 \<longleftrightarrow> sz = 0 \<or> 0xFFFFF000 < sz) \<and>
    (PAGE_ALIGN sz = 0 \<longrightarrow> pin_offset pin = 0 \<and> pin_len pin = 0)"
proof -
  note b = pin_bounds_page_bounds [OF assms] pin_bounds_pages [OF assms]
  have "s = 0" if "pin_offset pin = 0" using b(2) that by (simp add: unat_eq_0)
  moreover have "0 < s" if "pin_offset pin \<noteq> 0" using b(2) that by (auto simp: word_gt_0 unat_eq_0)
  then have "s - 1 < s" if "pin_offset pin \<noteq> 0" using that by (blast intro: word_pred_less)
  ultimately have last: "if PAGE_ALIGN sz \<noteq> 0 then e = s - 1 \<and> e < s else s = 0 \<and> e = 0xFFFFFFFF"
    if "pin_len pin = 0" "pin_offset pin = PAGE_ALIGN sz"
    using b(4) that by (cases "PAGE_ALIGN sz = 0") auto
  have "pin_offset pin = 0 \<and> pin_len pin = 0" if "PAGE_ALIGN sz = 0"
    using b(3,4) that by (cases "pin_len pin = 0") (auto split: if_split_asm)
  moreover have "PAGE_ALIGN sz = 0 \<longleftrightarrow> sz = 0 \<or> 0xFFFFF000 < sz" by (rule PAGE_ALIGN_0)
  ultimately show ?thesis using b last by (cases "pin_len pin = 0"; cases "pin_offset pin = PAGE_ALIGN sz") auto
qed

lemma unpin_scan_above:
  "\<forall>r \<in> set rs. pgend (rng r) < s \<Longrightarrow>
    unpin_scan rng s e rs = (case rs of [] \<Rightarrow> Insert_at_end | r # _ \<Rightarrow> Insert_before r)"
  by (cases rs) (auto simp: range_before_page_def)

text \<open>
  C37. Such an empty request is not rejected by unpin: each call with offset at the end of the area
  and length 0 allocates one more range, of no pages, and puts it on the area's list and on the LRU
  list, so the number of ranges a caller can pile up is not bounded by the size of the area.
\<close>

theorem ashmem_empty_unpin_grows:
  assumes "ash_inv st" and "area_file (area st a) \<noteq> None" and "0 < s"
    and "\<forall>r \<in> set (ulist st a). pgend (ranges st r) < s"
    and "ashmem_unpin True a s (s - 1) st = (st', res)"
  shows "res = Inr 0 \<and> ash_inv st' \<and> length (ulist st' a) = Suc (length (ulist st a)) \<and>
    length (ashmem_lru_list st') = Suc (length (ashmem_lru_list st)) \<and>
    unpinned_pages st' a = unpinned_pages st a \<and>
    (\<forall>r \<in> set (ulist st' a). pgend (ranges st' r) < s)"
proof -
  have b: "page_bounds s (s - 1)" using assms(3) by (simp add: page_bounds_def)
  have lt: "s - 1 < s" using assms(3) by (rule word_pred_less)
  define prev where "prev = (case ulist st a of [] \<Rightarrow> None | r # _ \<Rightarrow> Some r)"
  have run: "range_alloc True a prev ASHMEM_NOT_PURGED s (s - 1) st = (st', res)"
    using assms(5) unpin_scan_above [OF assms(4), of "s - 1"]
    by (cases "ulist st a") (simp_all add: ashmem_unpin_def unpin_restart.simps [of True a s "s - 1"]
        prev_def)
  then have st': "st' = fst (range_alloc True a prev ASHMEM_NOT_PURGED s (s - 1) st)" by simp
  have ins: "insert_at (next_range st) prev (ulist st a) = [] @ next_range st # ulist st a"
    by (cases "ulist st a") (simp_all add: insert_at_def prev_def insert_before_def)
  have n: "next_range st \<notin> set (ulist st a)" using ash_invD(1) [OF assms(1)] by blast
  have "unpinned_pages st' a = unpinned_pages st a \<union> {s..s - 1}"
    using range_alloc_pages(1) [OF assms(1) ins, where P = "\<lambda>_. True"] st' by simp
  moreover have "\<forall>r \<in> set (ulist st' a). pgend (ranges st' r) < s"
    using assms(4) ins n lt by (auto simp: st')
  moreover have "res = Inr 0 \<and> ash_inv st'"
    using unpin_restart_correct [OF assms(1) b assms(2), of ASHMEM_NOT_PURGED "{}" st' res] assms(5)
    by (simp add: ashmem_unpin_def)
  ultimately show ?thesis using lt ins by (simp add: st')
qed

text \<open>
  C38. When the allocation at the end of an unpin fails with \<open>ENOMEM\<close>, the call has an effect all
  the same. There is an interval of pages that contains the request and, whole, every range that
  overlaps the request, such that all unpinned pages in it count as pinned again and none of them
  is known to be purged any more. So if the area has no empty range left, a pin of any part of
  the interval that follows at once does not report a loss, whatever was purged before.
\<close>

theorem ashmem_unpin_enomem_forgets:
  assumes "ash_inv st" and "page_bounds s e" and "ashmem_unpin False a s e st = (st', Inl ENOMEM)"
  shows "\<exists>S E. {s..e} \<subseteq> {S..E} \<and>
    (\<forall>r \<in> set (ulist st a). pages (ranges st r) \<inter> {s..e} \<noteq> {} \<longrightarrow> pages (ranges st r) \<subseteq> {S..E}) \<and>
    unpinned_pages st' a = unpinned_pages st a - {S..E} \<and> purged_pages st' a = purged_pages st a - {S..E} \<and>
    (\<forall>s' e' km st'' ret. s' \<le> e' \<and> {s'..e'} \<subseteq> {S..E} \<and>
       (\<forall>r \<in> set (ulist st' a). pgstart (ranges st' r) \<le> pgend (ranges st' r)) \<and>
       ashmem_pin km a s' e' st' = (st'', ret) \<longrightarrow> ret = ASHMEM_NOT_PURGED)"
proof -
  note u = unpin_fail_cases [OF assms]
  obtain S E where SE: "{s..e} \<subseteq> {S..E}"
    "\<And>P. list_pages P (ranges st') (ulist st' a) = list_pages P (ranges st) (ulist st a) - {S..E}"
    "\<forall>r \<in> set (ulist st a). pages (ranges st r) \<subseteq> {S..E} \<or> pages (ranges st r) \<inter> {S..E} = {}"
    using u(6) by auto
  have "ret = ASHMEM_NOT_PURGED" if pin: "s' \<le> e'" "{s'..e'} \<subseteq> {S..E}"
      "\<forall>r \<in> set (ulist st' a). pgstart (ranges st' r) \<le> pgend (ranges st' r)"
      "ashmem_pin km a s' e' st' = (st'', ret)" for s' e' km st'' ret
  proof -
    have "purged_pages st' a \<inter> {s'..e'} = {}" using SE(2) pin(2) by blast
    then have "\<not> purge_hit (ranges st') s' e' (ulist st' a)"
      using purge_hit_pages(2) [OF pin(1) pin(3)] by blast
    then show ?thesis
      using ashmem_pin_ret [OF u(1), of s' e' km a] pin(1,4) by (simp add: page_bounds_def)
  qed
  moreover have "\<forall>r \<in> set (ulist st a). pages (ranges st r) \<inter> {s..e} \<noteq> {} \<longrightarrow> pages (ranges st r) \<subseteq> {S..E}"
    using SE(1,3) by blast
  ultimately show ?thesis
    using SE(1,2) by - (rule exI [of _ S], rule exI [of _ E], blast)
qed

section \<open>Names and protection\<close>

text \<open>
  C33. The name of an area survives the round trip: after a successful \<open>ASHMEM_SET_NAME\<close>, a
  successful \<open>ASHMEM_GET_NAME\<close> leaves in the caller's buffer the name cut at the first zero byte
  and at 255 bytes, with its terminator, and the default name if it was empty. These are at most
  \<open>ASHMEM_NAME_LEN\<close> bytes, and no other byte of the caller's memory changes.
\<close>

theorem ashmem_name_roundtrip:
  assumes "length (area_name (area st a)) = ASHMEM_FULL_NAME_LEN"
    and "set_name um a p st = (st', Inr 0)" and "get_name um2 a q st' = (um3, Inr 0)"
    and "map (ubyte um) [p ..< p + ASHMEM_NAME_LEN] = map Some data"
  defines "nm \<equiv> takeWhile (\<lambda>b. b \<noteq> 0) (take 255 data)"
  defines "shown \<equiv> (if nm = [] then ASHMEM_NAME_DEF else nm) @ [0]"
  shows "map (ubyte um3) [q ..< q + length shown] = map Some shown \<and> length shown \<le> ASHMEM_NAME_LEN \<and>
    (\<forall>x. x \<notin> {q ..< q + length shown} \<longrightarrow> ubyte um3 x = ubyte um2 x)"
proof -
  have pre: "ASHMEM_NAME_PREFIX_LEN = 11" "ASHMEM_FULL_NAME_LEN = 267" "ASHMEM_NAME_LEN = 256"
    by (simp_all add: ASHMEM_NAME_PREFIX_LEN_def ASHMEM_NAME_PREFIX_def ascii_def
        ASHMEM_FULL_NAME_LEN_def ASHMEM_NAME_LEN_def)
  have len: "length data = 256" using arg_cong [OF assms(4), of length] by (simp add: pre)
  obtain bs where bs: "copy_from_user um p ASHMEM_NAME_LEN = (bs, 0)"
    using assms(2) by (auto simp: set_name_def split: if_splits prod.splits)
  then have "bs = data"
    using copy_from_user_complete [OF bs] assms(4) by (metis inj_map_eq_map inj_Some)
  then have st': "area_name (area st' a) =
      (memcpy_at (area_name (area st a)) 11 data)[266 := 0]"
    using assms(2) bs by (auto simp: set_name_def pre area_upd_area split: if_splits prod.splits)
  have "memcpy_at (area_name (area st a)) 11 data = take 11 (area_name (area st a)) @ data"
    using assms(1) len by (simp add: memcpy_at_def pre)
  moreover have "data[255 := 0] = take 255 data @ [0]"
    using upd_conv_take_nth_drop [of 255 data 0] len by simp
  ultimately have nm': "area_name (area st' a) = take 11 (area_name (area st a)) @ take 255 data @ [0]"
    unfolding st' using assms(1) by (simp add: list_update_append pre)
  have l11: "length (take 11 (area_name (area st a))) = 11" using assms(1) by (simp add: pre)
  have tail: "drop 11 (area_name (area st' a)) = take 255 data @ [0]"
    unfolding nm' using l11 by simp
  have "area_name (area st' a) ! 11 = (take 255 data @ [0]) ! 0"
    unfolding nm' using l11 by (simp add: nth_append)
  also have "\<dots> = hd data" using len by (cases data) auto
  finally have first: "area_name (area st' a) ! 11 = hd data" .
  have "nm = [] \<longleftrightarrow> hd data = 0" using len by (cases data) (auto simp: nm_def)
  moreover have "c_string (take 255 data @ [0]) = nm @ [0]"
    by (simp add: c_string_def nm_def takeWhile_tail)
  ultimately have out: "copy_to_user um2 q shown = (um3, 0)"
    using assms(3) first tail
    by (auto simp: get_name_def pre shown_def Let_def split: if_splits prod.splits)
  then have w: "writable um2 q (length shown)"
    using copy_to_user_complete_iff [of um2 q shown] by (auto simp: shown_def)
  have "\<forall>x. x \<notin> {q ..< q + length shown} \<longrightarrow> ubyte um3 x = ubyte um2 x"
    using out copy_to_user_writable [OF w] by auto
  moreover have "map (ubyte um3) [q ..< q + length shown] = map Some shown"
    using copy_to_user_contents [OF w] out by simp
  moreover have "length nm \<le> 255"
    using length_takeWhile_le [of "\<lambda>b. b \<noteq> 0" "take 255 data"] len by (simp add: nm_def)
  ultimately show ?thesis
    by (simp add: shown_def pre ASHMEM_NAME_DEF_def ascii_def)
qed

lemma calc_vm_prot_bits_mask: "calc_vm_prot_bits x = x AND 7"
proof -
  have "calc_vm_prot_bits x = (x AND 1) OR (x AND 2) OR (x AND 4)"
    by (simp add: calc_vm_prot_bits_def calc_vm_trans_def PROT_READ_def PROT_WRITE_def PROT_EXEC_def
        VM_READ_def VM_WRITE_def VM_EXEC_def)
  then show ?thesis by (simp add: bit.conj_disj_distrib [symmetric])
qed

lemma calc_vm_may_flags_mask: "calc_vm_may_flags x = push_bit 4 (x AND 7)"
proof -
  have "calc_vm_may_flags x = push_bit 4 (x AND 1) OR push_bit 4 (x AND 2) OR push_bit 4 (x AND 4)"
    by (simp add: calc_vm_may_flags_def calc_vm_trans_def PROT_READ_def PROT_WRITE_def PROT_EXEC_def
        VM_MAYREAD_def VM_MAYWRITE_def VM_MAYEXEC_def push_bit_eq_mult)
  then show ?thesis by (simp add: push_bit_or [symmetric] bit.conj_disj_distrib [symmetric])
qed

lemma bit_7: "bit (7 :: u32) i \<longleftrightarrow> i < 3"
proof -
  have "(7 :: u32) = mask 3" by (simp add: mask_eq_exp_minus_1)
  then show ?thesis by (simp only: bit_mask_iff) auto
qed

lemma rights_outside: "(f AND NOT (m AND 7)) AND (7 :: u32) \<noteq> 0 \<longleftrightarrow> (\<exists>i < 3. bit f i \<and> \<not> bit m i)"
  unfolding bit_eq_iff bit_and_iff bit_not_iff bit_7 by force

lemma may_flag_bit: "i < 3 \<Longrightarrow> bit (calc_vm_may_flags x) (i + 4) \<longleftrightarrow> bit x i"
  by (simp only: calc_vm_may_flags_mask bit_push_bit_iff bit_and_iff bit_7) simp

lemma nonlinear_bit: "i < 27 \<Longrightarrow> \<not> bit VM_CAN_NONLINEAR i"
proof -
  have "VM_CAN_NONLINEAR = 2 ^ 27" by (simp add: VM_CAN_NONLINEAR_def)
  then have "bit VM_CAN_NONLINEAR i \<longleftrightarrow> bit (2 ^ 27 :: u32) i" by (rule arg_cong)
  then show "i < 27 \<Longrightarrow> \<not> bit VM_CAN_NONLINEAR i" by (simp only: bit_exp_iff) simp
qed

text \<open>
  C35. A mapping that is accepted has no access right outside the area's protection mask, neither
  active (read, write, execute) nor obtainable later (the "may" flags); a request with an active
  right outside the mask is refused with \<open>EPERM\<close> and changes nothing.
\<close>

theorem ashmem_mmap_prot:
  assumes "area_size (area st a) \<noteq> 0" and "ashmem_mmap setup a vma st = (st', vma', res)"
  shows "(res = Inr 0 \<longrightarrow>
      (\<forall>i < 3. (bit (vm_flags vma') i \<longrightarrow> bit (prot_mask (area st a)) i) \<and>
              (bit (vm_flags vma') (i + 4) \<longrightarrow> bit (prot_mask (area st a)) i))) \<and>
    ((\<exists>i < 3. bit (vm_flags vma) i \<and> \<not> bit (prot_mask (area st a)) i) \<longrightarrow>
      st' = st \<and> vma' = vma \<and> res = Inl EPERM)"
proof -
  let ?m = "prot_mask (area st a)"
  define fl where "fl = vm_flags vma AND NOT (calc_vm_may_flags (NOT ?m))"
  have denied: "(vm_flags vma AND NOT (calc_vm_prot_bits ?m)) AND calc_vm_prot_bits PROT_MASK \<noteq> 0 \<longleftrightarrow>
      (\<exists>i < 3. bit (vm_flags vma) i \<and> \<not> bit ?m i)"
  proof -
    have "calc_vm_prot_bits PROT_MASK = 7"
      by (simp add: calc_vm_prot_bits_mask PROT_MASK_def PROT_READ_def PROT_WRITE_def PROT_EXEC_def)
    then show ?thesis by (simp only: calc_vm_prot_bits_mask rights_outside)
  qed
  show ?thesis
  proof (cases "\<exists>i < 3. bit (vm_flags vma) i \<and> \<not> bit ?m i")
    case True
    then have "(st', vma', res) = (st, vma, Inl EPERM)" using assms denied by (simp add: ashmem_mmap_def)
    then show ?thesis by simp
  next
    case False
    have allowed: "(vm_flags vma AND NOT (calc_vm_prot_bits ?m)) AND calc_vm_prot_bits PROT_MASK = 0"
      using False denied by blast
    have flags: "res = Inr 0 \<Longrightarrow> vm_flags vma' = fl OR VM_CAN_NONLINEAR"
      using assms allowed unfolding ashmem_mmap_def fl_def
      by (auto simp: shmem_set_file_def Let_def split: prod.splits sum.splits if_splits)
    have "bit (fl OR VM_CAN_NONLINEAR) i \<Longrightarrow> bit ?m i" "bit (fl OR VM_CAN_NONLINEAR) (i + 4) \<Longrightarrow> bit ?m i"
      if "i < 3" for i
      using that False nonlinear_bit [of i] nonlinear_bit [of "i + 4"] may_flag_bit [OF that, of "NOT ?m"]
      by (auto simp: fl_def bit_or_iff bit_and_iff bit_not_iff)
    then show ?thesis using flags False by auto
  qed
qed

text \<open>
  C39. \<open>ASHMEM_SET_PROT_MASK\<close> accepts exactly the masks within the current one. Without the
  \<open>READ_IMPLIES_EXEC\<close> personality the new mask is the given one; with it, a mask that allows
  reading also gets execute permission, even where the current mask does not have it.
\<close>

theorem ashmem_set_prot_mask_bits:
  assumes "set_prot_mask pers a prot st = (st', res)"
  shows "(res = Inr 0 \<longleftrightarrow> (\<forall>i. bit prot i \<longrightarrow> bit (prot_mask (area st a)) i)) \<and>
    (res \<noteq> Inr 0 \<longrightarrow> st' = st \<and> res = Inl EINVAL) \<and>
    (res = Inr 0 \<and> pers AND READ_IMPLIES_EXEC = 0 \<longrightarrow> prot_mask (area st' a) = prot) \<and>
    (res = Inr 0 \<and> pers AND READ_IMPLIES_EXEC \<noteq> 0 \<and> prot AND PROT_READ \<noteq> 0 \<longrightarrow>
      prot_mask (area st' a) = prot OR PROT_EXEC)"
proof -
  have "prot_mask (area st a) AND prot = prot \<longleftrightarrow> (\<forall>i. bit prot i \<longrightarrow> bit (prot_mask (area st a)) i)"
  proof
    assume "prot_mask (area st a) AND prot = prot"
    then show "\<forall>i. bit prot i \<longrightarrow> bit (prot_mask (area st a)) i" by (metis bit_and_iff)
  qed (auto simp: bit_eq_iff bit_and_iff)
  then show ?thesis
    using assms by (auto simp: set_prot_mask_def Let_def area_upd_area split: if_splits)
qed

section \<open>Witnesses\<close>

text \<open>An area of eight pages with a backing file; its pages 2 to 5 unpinned; and then purged.\<close>

definition demo_ash :: ashmem_state where
  "demo_ash = ashmem_init\<lparr>areas := [0 \<mapsto> zero_area\<lparr>area_file := Some 0, area_size := 0x8000,
     prot_mask := PROT_MASK\<rparr>]\<rparr>"

definition demo_unpinned :: ashmem_state where
  "demo_unpinned = fst (ashmem_unpin True 0 2 5 demo_ash)"

definition demo_purged :: ashmem_state where
  "demo_purged = fst (ashmem_shrink 4 True demo_unpinned)"

lemma demo_ash_inv: "ash_inv demo_ash"
  by (simp add: demo_ash_def ash_inv_def ranges_ok_def lru_ok_def ashmem_init_def area_def zero_area_def)

lemma demo_ash_area [simp]: "ulist demo_ash 0 = []" "area_file (area demo_ash 0) = Some 0"
    "ulist demo_ash a = []"
  by (simp_all add: demo_ash_def area_def zero_area_def ashmem_init_def)

lemma demo_unpinned_alloc:
  "demo_unpinned = fst (range_alloc True 0 None ASHMEM_NOT_PURGED 2 5 demo_ash)"
  by (simp add: demo_unpinned_def ashmem_unpin_def unpin_restart.simps [of True 0 2 5])

lemma demo_unpinned_simps [simp]:
  "ulist demo_unpinned 0 = [0]" "area_file (area demo_unpinned 0) = Some 0"
  "ranges demo_unpinned 0 = \<lparr>range_asma = 0, pgstart = 2, pgend = 5, purged = ASHMEM_NOT_PURGED\<rparr>"
  "ashmem_lru_list demo_unpinned = [0]"
  unfolding demo_unpinned_alloc by (simp_all add: insert_at_def) (simp_all add: demo_ash_def ashmem_init_def)

lemma demo_unpinned_inv: "ash_inv demo_unpinned"
  unfolding demo_unpinned_alloc
  by (rule range_alloc_inv [OF demo_ash_inv, where us = "[]" and vs = "[]"])
    (simp_all add: page_bounds_def insert_at_def)

lemma demo_purged_range: "demo_purged = purge_range 0 demo_unpinned"
  by (simp add: demo_purged_def ashmem_shrink_def Let_def range_size_def shrink_loop_Cons
      del: shrink_loop.simps(2))

lemma demo_purged_simps [simp]:
  "ulist demo_purged 0 = [0]" "area_file (area demo_purged 0) = Some 0"
  "ranges demo_purged 0 = \<lparr>range_asma = 0, pgstart = 2, pgend = 5, purged = ASHMEM_WAS_PURGED\<rparr>"
  unfolding demo_purged_range by simp_all

lemma demo_purged_inv: "ash_inv demo_purged"
  unfolding demo_purged_range by (rule purge_range_inv [OF demo_unpinned_inv]) simp

theorem ashmem_pin_pages_witness:
  "unpinned_pages (fst (ashmem_pin True 0 3 4 demo_unpinned)) 0 = {2..5} - {3..4} \<and>
   snd (ashmem_pin True 0 3 4 demo_unpinned) = ASHMEM_NOT_PURGED"
  using ashmem_pin_pages [OF demo_unpinned_inv, of 3 4 True 0 "fst (ashmem_pin True 0 3 4 demo_unpinned)"
      "snd (ashmem_pin True 0 3 4 demo_unpinned)"]
  by (auto simp: page_bounds_def pages_def ASHMEM_WAS_PURGED_def ASHMEM_NOT_PURGED_def)

theorem ashmem_unpin_pages_witness:
  "unpinned_pages (fst (ashmem_unpin True 0 5 7 demo_unpinned)) 0 = {2..5} \<union> {5..7}"
  using ashmem_unpin_pages [OF demo_unpinned_inv, of 5 7 0 True "fst (ashmem_unpin True 0 5 7 demo_unpinned)"
      "snd (ashmem_unpin True 0 5 7 demo_unpinned)"]
  by (simp add: page_bounds_def pages_def)

theorem ashmem_pin_status_pages_witness:
  "ashmem_get_pin_status 0 4 7 demo_unpinned = ASHMEM_IS_UNPINNED"
proof -
  have "5 \<in> {2..5} \<inter> {4..(7 :: u32)}" by simp
  then have "{2..5} \<inter> {4..(7 :: u32)} \<noteq> {}" by blast
  then show ?thesis
    using ashmem_pin_status_pages [OF demo_unpinned_inv, of 4 7 0] by (simp add: pages_def)
qed

theorem ashmem_shrink_safe_witness:
  "ash_inv demo_purged \<and> purged_pages demo_unpinned 0 \<subseteq> purged_pages demo_purged 0 \<and>
   unpinned_pages demo_purged 0 = {2..5}"
proof -
  have run: "ashmem_shrink 4 True demo_unpinned = (demo_purged, snd (ashmem_shrink 4 True demo_unpinned))"
    by (simp add: demo_purged_def)
  have "unpinned_pages demo_unpinned 0 = {2..5}" by (simp add: pages_def)
  moreover have "(4 :: u32) \<noteq> 0" by simp
  ultimately show ?thesis using ashmem_shrink_safe [OF demo_unpinned_inv run] by blast
qed

theorem ashmem_purge_reported_witness:
  "snd (ashmem_pin True 0 3 3 (fst (ashmem_unpin True 0 6 7 demo_purged))) = ASHMEM_WAS_PURGED"
proof -
  define st1 where "st1 = fst (ashmem_unpin True 0 6 7 demo_purged)"
  have "snd (ashmem_unpin True 0 6 7 demo_purged) = Inr 0"
    using unpin_restart_correct [OF demo_purged_inv, of 6 7 0 ASHMEM_NOT_PURGED "{}"
        "fst (ashmem_unpin True 0 6 7 demo_purged)" "snd (ashmem_unpin True 0 6 7 demo_purged)"]
    by (simp add: page_bounds_def ashmem_unpin_def)
  then have "ashmem_unpin True 0 6 7 demo_purged = (st1, Inr 0)" by (simp add: st1_def prod_eq_iff)
  then have tr: "trace ash_step demo_purged [Ev_unpin 0 6 7] st1"
    by (auto simp: page_bounds_def intro: ash_step.unpin)
  have st: "ash_step st1 (Ev_pin 0 3 3 (snd (ashmem_pin True 0 3 3 st1))) (fst (ashmem_pin True 0 3 3 st1))"
    by (rule ash_step.pin) (simp_all add: page_bounds_def)
  show ?thesis
    unfolding st1_def [symmetric]
    by (rule ashmem_purge_reported [OF demo_purged_inv _ tr _ st, of 3]) (simp_all add: pages_def)
qed

theorem ashmem_entry_points_inv_witness:
  "ash_inv (fst (ashmem_open None (Some 1) demo_ash)) \<and> ash_inv (ashmem_release 0 demo_unpinned)"
  using ashmem_entry_points_inv [OF demo_ash_inv, of "Some 1" None]
    ashmem_entry_points_inv [OF demo_unpinned_inv, of None]
  by (simp add: demo_ash_def)

theorem ashmem_request_bounds_witness:
  "pin_bounds 0x7001 \<lparr>pin_offset = 0x2000, pin_len = 0\<rparr> = Inr (2, 7) \<and> page_bounds 2 7 \<and>
   4096 * (unat (7 :: u32) + 1) = unat (PAGE_ALIGN 0x7001)"
proof -
  have p: "pin_bounds 0x7001 \<lparr>pin_offset = 0x2000, pin_len = 0\<rparr> = Inr (2, 7)"
    by (simp add: pin_bounds_def PAGE_ALIGN_def PAGE_MASK_def PAGE_SIZE_def Let_def)
  then show ?thesis
    using ashmem_request_bounds [OF p] by (simp add: PAGE_ALIGN_def PAGE_MASK_def PAGE_SIZE_def)
qed

theorem ashmem_empty_unpin_grows_witness:
  "length (ulist (fst (ashmem_unpin True 0 8 7 demo_unpinned)) 0) = 2"
  using ashmem_empty_unpin_grows [OF demo_unpinned_inv, of 0 8 "fst (ashmem_unpin True 0 8 7 demo_unpinned)"
      "snd (ashmem_unpin True 0 8 7 demo_unpinned)"]
  by simp

theorem ashmem_unpin_enomem_forgets_witness:
  "snd (ashmem_unpin False 0 5 7 demo_purged) = Inl ENOMEM \<and>
   snd (ashmem_pin True 0 3 4 demo_purged) = ASHMEM_WAS_PURGED \<and>
   snd (ashmem_pin True 0 3 4 (fst (ashmem_unpin False 0 5 7 demo_purged))) = ASHMEM_NOT_PURGED"
proof -
  have scan: "unpin_scan (ranges demo_purged) 5 7 (ulist demo_purged 0) = Merge 0"
    by (simp add: range_before_page_def page_range_subsumed_by_range_def page_range_in_range_def
        page_in_range_def)
  have run: "ashmem_unpin False 0 5 7 demo_purged = (range_del 0 demo_purged, Inl ENOMEM)"
    using scan by (simp add: ashmem_unpin_def unpin_restart.simps [of False])
  have "5 \<in> {2..5} \<inter> {5..(7 :: u32)}" by simp
  then have hit: "\<exists>r \<in> set (ulist demo_purged 0). pages (ranges demo_purged r) \<inter> {5..7} \<noteq> {} \<and>
      {3..4} \<subseteq> pages (ranges demo_purged r)"
    by (auto simp: pages_def)
  have left: "\<forall>r \<in> set (ulist (range_del 0 demo_purged) 0).
      pgstart (ranges (range_del 0 demo_purged) r) \<le> pgend (ranges (range_del 0 demo_purged) r)"
    by simp
  have run2: "ashmem_pin True 0 3 4 (range_del 0 demo_purged) = (fst (ashmem_pin True 0 3 4 (range_del 0 demo_purged)),
      snd (ashmem_pin True 0 3 4 (range_del 0 demo_purged)))" by simp
  have "page_bounds 5 7" by (simp add: page_bounds_def)
  from ashmem_unpin_enomem_forgets [OF demo_purged_inv this run]
  obtain S E where "\<forall>r \<in> set (ulist demo_purged 0). pages (ranges demo_purged r) \<inter> {5..7} \<noteq> {} \<longrightarrow>
      pages (ranges demo_purged r) \<subseteq> {S..E}"
    "\<forall>s' e' km st'' ret. s' \<le> e' \<and> {s'..e'} \<subseteq> {S..E} \<and>
       (\<forall>r \<in> set (ulist (range_del 0 demo_purged) 0).
          pgstart (ranges (range_del 0 demo_purged) r) \<le> pgend (ranges (range_del 0 demo_purged) r)) \<and>
       ashmem_pin km 0 s' e' (range_del 0 demo_purged) = (st'', ret) \<longrightarrow> ret = ASHMEM_NOT_PURGED"
    by blast
  moreover from this(1) hit have "{3..4} \<subseteq> {S..E}" by blast
  moreover have "(3 :: u32) \<le> 4" by simp
  ultimately have "snd (ashmem_pin True 0 3 4 (range_del 0 demo_purged)) = ASHMEM_NOT_PURGED"
    using left run2 by blast
  moreover have "snd (ashmem_pin True 0 3 4 demo_purged) = ASHMEM_WAS_PURGED"
    using ashmem_pin_ret [OF demo_purged_inv, of 3 4 True 0]
    by (simp add: page_bounds_def purge_hit_def range_before_page_def page_range_in_range_def
        page_in_range_def)
  ultimately show ?thesis using run by simp
qed

definition demo_vma :: vm_area where
  "demo_vma = \<lparr>vm_flags = 0x71, vm_file = Some (Ashmem_file 0), vm_ops_shmem = False\<rparr>"

definition demo_ro :: ashmem_state where
  "demo_ro = upd_area (\<lambda>A. A\<lparr>prot_mask := PROT_READ\<rparr>) 0 demo_ash"

lemma demo_ro_area: "area demo_ro 0 = (area demo_ash 0)\<lparr>prot_mask := PROT_READ\<rparr>"
  by (simp add: demo_ro_def area_upd_area)

lemma demo_ash_size: "area_size (area demo_ash 0) = 0x8000" "prot_mask (area demo_ash 0) = 7"
    "length (area_name (area demo_ash 0)) = ASHMEM_FULL_NAME_LEN"
  by (simp_all add: demo_ash_def area_def zero_area_def PROT_MASK_def PROT_READ_def PROT_WRITE_def
      PROT_EXEC_def)

theorem ashmem_mmap_prot_witness:
  "\<not> bit (vm_flags (fst (snd (ashmem_mmap (\<lambda>_ _ _. None) 0 demo_vma demo_ro)))) 5 \<and>
   snd (snd (ashmem_mmap (\<lambda>_ _ _. None) 0 demo_vma demo_ro)) = Inr 0"
proof -
  let ?r = "ashmem_mmap (\<lambda>_ _ _. None) 0 demo_vma demo_ro"
  have ok: "snd (snd ?r) = Inr 0"
    by (simp add: ashmem_mmap_def demo_ro_area demo_ash_size demo_vma_def calc_vm_prot_bits_mask
        PROT_READ_def PROT_MASK_def PROT_WRITE_def PROT_EXEC_def ashmem_backing_def Let_def split_beta)
  have run: "?r = (fst ?r, fst (snd ?r), snd (snd ?r))" by simp
  have "area_size (area demo_ro 0) \<noteq> 0" by (simp add: demo_ro_area demo_ash_size)
  then have "\<forall>i < 3. bit (vm_flags (fst (snd ?r))) (i + 4) \<longrightarrow> bit (prot_mask (area demo_ro 0)) i"
    using ashmem_mmap_prot [OF _ run] ok by blast
  then have "bit (vm_flags (fst (snd ?r))) (1 + 4) \<longrightarrow> bit (prot_mask (area demo_ro 0)) 1"
    by (metis one_less_numeral_iff semiring_norm(77))
  then show ?thesis using ok by (simp add: demo_ro_area PROT_READ_def)
qed

theorem ashmem_set_prot_mask_bits_witness:
  "prot_mask (area (fst (set_prot_mask READ_IMPLIES_EXEC 0 PROT_READ demo_ro)) 0) = PROT_READ OR PROT_EXEC \<and>
   prot_mask (area demo_ro 0) = PROT_READ"
proof -
  have ok: "snd (set_prot_mask READ_IMPLIES_EXEC 0 PROT_READ demo_ro) = Inr 0"
    by (simp add: set_prot_mask_def demo_ro_area Let_def)
  have "READ_IMPLIES_EXEC AND READ_IMPLIES_EXEC \<noteq> 0" "PROT_READ AND PROT_READ \<noteq> 0"
    by (simp_all add: READ_IMPLIES_EXEC_def PROT_READ_def)
  then show ?thesis
    using ashmem_set_prot_mask_bits [OF prod.collapse [symmetric], of READ_IMPLIES_EXEC 0 PROT_READ demo_ro] ok
    by (simp add: demo_ro_area)
qed

text \<open>User memory with the name \<open>AAAA\<close> at address 0.\<close>

definition demo_name_mem :: user_mem where
  "demo_name_mem = \<lparr>ubyte = (\<lambda>p. Some (if p < 4 then 65 else 0)), uwritable = (\<lambda>_. True),
     addr_limit = 4096\<rparr>"

definition demo_named :: ashmem_state where
  "demo_named = fst (set_name demo_name_mem 0 0 (upd_area (\<lambda>A. A\<lparr>area_file := None\<rparr>) 0 demo_ash))"

theorem ashmem_name_roundtrip_witness:
  "map (ubyte (fst (get_name demo_name_mem 0 1000 demo_named))) [1000 ..< 1005] =
     map Some [65, 65, 65, 65, 0]"
proof -
  let ?st = "upd_area (\<lambda>A. A\<lparr>area_file := None\<rparr>) 0 demo_ash"
  let ?data = "map (\<lambda>p. if p < 4 then 65 else 0) [0 ..< ASHMEM_NAME_LEN] :: u8 list"
  have "readable demo_name_mem 0 ASHMEM_NAME_LEN"
    by (simp add: readable_def access_ok_def demo_name_mem_def ASHMEM_NAME_LEN_def)
  then have "snd (copy_from_user demo_name_mem 0 ASHMEM_NAME_LEN) = 0"
    by (rule copy_from_user_readable)
  then have set: "set_name demo_name_mem 0 0 ?st = (demo_named, Inr 0)"
    by (simp add: demo_named_def set_name_def area_upd_area split_beta)
  have len: "length (area_name (area ?st 0)) = ASHMEM_FULL_NAME_LEN"
    using demo_ash_size(3) by (simp add: area_upd_area)
  have nlen: "length (area_name (area demo_named 0)) = 267"
    using len by (simp add: demo_named_def set_name_def area_upd_area split_beta memcpy_at_def
        ASHMEM_FULL_NAME_LEN_def ASHMEM_NAME_LEN_def ASHMEM_NAME_PREFIX_LEN_def
        ASHMEM_NAME_PREFIX_def ascii_def)
  have w: "snd (copy_to_user demo_name_mem 1000 bs) = 0" if "length bs \<le> 300" for bs
    using that copy_to_user_complete_iff [of demo_name_mem 1000 bs]
    by (simp add: writable_def access_ok_def demo_name_mem_def)
  have "length (takeWhile (\<lambda>b. b \<noteq> 0) (drop ASHMEM_NAME_PREFIX_LEN (area_name (area demo_named 0)))) \<le> 267"
    by (rule order.trans [OF length_takeWhile_le]) (simp add: nlen)
  then have get: "get_name demo_name_mem 0 1000 demo_named =
      (fst (get_name demo_name_mem 0 1000 demo_named), Inr 0)"
    by (simp add: get_name_def Let_def split_beta w c_string_def ASHMEM_NAME_DEF_def ascii_def)
  have "map (ubyte demo_name_mem) [0 ..< 0 + ASHMEM_NAME_LEN] = map Some ?data"
    by (simp add: demo_name_mem_def)
  moreover have "takeWhile (\<lambda>b. b \<noteq> 0) (take 255 ?data) = [65, 65, 65, 65]"
  proof -
    have "[0 ..< 256] = [0 ..< 4] @ 4 # [5 ..< 256]"
      using upt_add_eq_append [of 0 4 252] by (simp add: upt_conv_Cons)
    moreover have "[0 ..< 4] = [0, 1, 2, 3 :: nat]" by (simp add: upt_rec)
    ultimately show ?thesis by (simp add: ASHMEM_NAME_LEN_def)
  qed
  ultimately show ?thesis
    using ashmem_name_roundtrip [OF len set get, of ?data] by simp
qed

end
