(* ===== verification/Wakelock.thy ===== *)
theory Wakelock
  imports KList
begin

text \<open>
  Wake locks, \<open>kernel/power/wakelock.c\<close>, in the configuration of the device
  (\<open>CONFIG_WAKELOCK_STAT\<close>, \<open>HZ = 128\<close>, no \<open>CONFIG_SD_CARD_WAKEUP\<close>).

  A lock is on one of three lists: \<open>inactive_locks\<close>, or the list of active locks of its type.
  Locks have identities; the lists hold identities in list order. Jiffies are 32-bit words that
  wrap, a remaining time is the signed reading of \<open>expires - jiffies\<close>, and \<open>ktime_t\<close> values are
  64-bit words read signed. Every operation runs under \<open>list_lock\<close> and is one step; the clocks
  it reads are the argument \<open>clock\<close>. The expire timer is the optional time it is set to,
  \<open>queue_work\<close> sets \<open>suspend_pending\<close>. \<open>BUG_ON\<close> is the result \<^term>\<open>None\<close>.
\<close>

section \<open>State\<close>

definition LONG_MAX :: u32 where
  "LONG_MAX = 0x7fffffff"

definition WAKE_LOCK_SUSPEND :: nat where
  "WAKE_LOCK_SUSPEND = 0"

definition WAKE_LOCK_IDLE :: nat where
  "WAKE_LOCK_IDLE = 1"

definition WAKE_LOCK_TYPE_COUNT :: nat where
  "WAKE_LOCK_TYPE_COUNT = 2"

definition WAKE_LOCK_TYPE_MASK :: u32 where
  "WAKE_LOCK_TYPE_MASK = 0x0f"

definition WAKE_LOCK_INITIALIZED :: u32 where
  "WAKE_LOCK_INITIALIZED = 0x100"

definition WAKE_LOCK_ACTIVE :: u32 where
  "WAKE_LOCK_ACTIVE = 0x200"

definition WAKE_LOCK_AUTO_EXPIRE :: u32 where
  "WAKE_LOCK_AUTO_EXPIRE = 0x400"

definition WAKE_LOCK_PREVENTING_SUSPEND :: u32 where
  "WAKE_LOCK_PREVENTING_SUSPEND = 0x800"

lemmas wl_flag_defs = WAKE_LOCK_TYPE_MASK_def WAKE_LOCK_INITIALIZED_def WAKE_LOCK_ACTIVE_def
  WAKE_LOCK_AUTO_EXPIRE_def WAKE_LOCK_PREVENTING_SUSPEND_def

definition DEBUG_EXIT_SUSPEND :: u32 where
  "DEBUG_EXIT_SUSPEND = 1"

definition DEBUG_WAKEUP :: u32 where
  "DEBUG_WAKEUP = 2"

record wake_lock_stat =
  stat_count :: u32
  expire_count :: u32
  wakeup_count :: u32
  total_time :: u64
  prevent_suspend_time :: u64
  max_time :: u64
  last_time :: u64

record wake_lock =
  wl_flags :: u32
  wl_name :: string
  expires :: u32
  stat :: wake_lock_stat

text \<open>
  The clocks: \<open>jiffies\<close>; \<open>ktime_get ()\<close>; the coarse monotonic time
  \<open>current_kernel_time () + wall_to_monotonic\<close> in nanoseconds; and \<open>jiffies_to_timespec\<close>
  as a number of nanoseconds.
\<close>

record clock =
  jiffies :: u32
  ktime_get :: u64
  coarse_time :: u64
  jiffies_to_ns :: "u32 \<Rightarrow> u64"

text \<open>The registers of the last wake-up, saved by the resume path of the platform.\<close>

record wakeup_regs =
  pih_isr :: u8
  sih_isr :: u8
  core_wkst :: u32
  core_wkst3 :: u32
  wkup_wkst :: u32
  per_wkst :: u32
  usbhost_wkst :: u32
  wkup_event_offset :: u16

record wl_state =
  locks :: "nat \<Rightarrow> wake_lock"
  inactive_locks :: "nat list"
  active_wake_locks :: "nat \<Rightarrow> nat list"
  current_event_num :: u32
  last_sleep_time_update :: u64
  wait_for_wakeup :: bool
  expire_timer :: "u32 option"
  suspend_pending :: bool
  requested_suspend_state :: u32
  debug_mask :: u32
  g_wakeup_reason :: u32
  wregs :: wakeup_regs
  power_button_events :: nat

text \<open>The three locks the file itself declares.\<close>

definition main_wake_lock :: nat where
  "main_wake_lock = 0"

definition unknown_wakeup :: nat where
  "unknown_wakeup = 1"

definition deleted_wake_locks :: nat where
  "deleted_wake_locks = 2"

definition has_flag :: "wake_lock \<Rightarrow> u32 \<Rightarrow> bool" where
  "has_flag l m \<longleftrightarrow> wl_flags l AND m \<noteq> 0"

definition set_flag :: "u32 \<Rightarrow> wake_lock \<Rightarrow> wake_lock" where
  "set_flag m l = l\<lparr>wl_flags := wl_flags l OR m\<rparr>"

definition clear_flag :: "u32 \<Rightarrow> wake_lock \<Rightarrow> wake_lock" where
  "clear_flag m l = l\<lparr>wl_flags := wl_flags l AND NOT m\<rparr>"

definition wl_type :: "wake_lock \<Rightarrow> nat" where
  "wl_type l = unat (wl_flags l AND WAKE_LOCK_TYPE_MASK)"

definition upd_lock :: "nat \<Rightarrow> (wake_lock \<Rightarrow> wake_lock) \<Rightarrow> wl_state \<Rightarrow> wl_state" where
  "upd_lock i f st = st\<lparr>locks := (locks st)(i := f (locks st i))\<rparr>"

text \<open>\<open>list_del\<close> unlinks the lock from the list it is on.\<close>

definition unlink :: "nat \<Rightarrow> wl_state \<Rightarrow> wl_state" where
  "unlink i st = st\<lparr>inactive_locks := remove1 i (inactive_locks st),
     active_wake_locks := (\<lambda>t. remove1 i (active_wake_locks st t))\<rparr>"

definition link_inactive :: "nat \<Rightarrow> wl_state \<Rightarrow> wl_state" where
  "link_inactive i st = st\<lparr>inactive_locks := i # inactive_locks st\<rparr>"

definition link_active_head :: "nat \<Rightarrow> nat \<Rightarrow> wl_state \<Rightarrow> wl_state" where
  "link_active_head t i st =
     st\<lparr>active_wake_locks := (active_wake_locks st)(t := i # active_wake_locks st t)\<rparr>"

definition link_active_tail :: "nat \<Rightarrow> nat \<Rightarrow> wl_state \<Rightarrow> wl_state" where
  "link_active_tail t i st =
     st\<lparr>active_wake_locks := (active_wake_locks st)(t := active_wake_locks st t @ [i])\<rparr>"

section \<open>Statistics\<close>

definition time_left :: "clock \<Rightarrow> wake_lock \<Rightarrow> int" where
  "time_left clk l = sint (expires l - jiffies clk)"

definition get_expired_time :: "clock \<Rightarrow> wake_lock \<Rightarrow> u64 option" where
  "get_expired_time clk l =
     (if \<not> has_flag l WAKE_LOCK_AUTO_EXPIRE then None
      else if time_left clk l > 0 then None
      else Some (coarse_time clk - jiffies_to_ns clk (- (expires l - jiffies clk))))"

record stat_line =
  sl_name :: string
  sl_count :: u32
  sl_expire_count :: u32
  sl_wakeup_count :: u32
  sl_active :: u64
  sl_total :: u64
  sl_prevent :: u64
  sl_max :: u64
  sl_last :: u64

definition print_lock_stat :: "clock \<Rightarrow> wl_state \<Rightarrow> wake_lock \<Rightarrow> stat_line" where
  "print_lock_stat clk st l =
     (let s = stat l;
          line = \<lparr>sl_name = wl_name l, sl_count = stat_count s,
            sl_expire_count = expire_count s, sl_wakeup_count = wakeup_count s,
            sl_active = 0, sl_total = total_time s, sl_prevent = prevent_suspend_time s,
            sl_max = max_time s, sl_last = last_time s\<rparr>
      in if has_flag l WAKE_LOCK_ACTIVE then
           (let expired = get_expired_time clk l;
                now = (case expired of Some t \<Rightarrow> t | None \<Rightarrow> ktime_get clk);
                add_time = now - last_time s;
                line1 = line\<lparr>sl_count := stat_count s + 1\<rparr>;
                line2 = (if expired = None then line1\<lparr>sl_active := add_time\<rparr>
                         else line1\<lparr>sl_expire_count := expire_count s + 1\<rparr>);
                line3 = line2\<lparr>sl_total := total_time s + add_time\<rparr>;
                line4 = (if has_flag l WAKE_LOCK_PREVENTING_SUSPEND
                         then line3\<lparr>sl_prevent := prevent_suspend_time s
                                + (now - last_sleep_time_update st)\<rparr>
                         else line3)
            in if sint add_time > sint (max_time s) then line4\<lparr>sl_max := add_time\<rparr>
               else line4)
         else line)"

definition wakelock_stats_show :: "clock \<Rightarrow> wl_state \<Rightarrow> stat_line list" where
  "wakelock_stats_show clk st =
     map (print_lock_stat clk st \<circ> locks st) (inactive_locks st) @
     concat (map (\<lambda>t. map (print_lock_stat clk st \<circ> locks st) (active_wake_locks st t))
       [0 ..< WAKE_LOCK_TYPE_COUNT])"

definition wake_unlock_stat_locked :: "clock \<Rightarrow> u64 \<Rightarrow> bool \<Rightarrow> wake_lock \<Rightarrow> wake_lock" where
  "wake_unlock_stat_locked clk last_update expired0 l =
     (if \<not> has_flag l WAKE_LOCK_ACTIVE then l
      else let (expired, now) =
             (case get_expired_time clk l of
                Some t \<Rightarrow> (True, t) | None \<Rightarrow> (expired0, ktime_get clk));
             s = stat l;
             duration = now - last_time s;
             l1 = l\<lparr>stat := s\<lparr>stat_count := stat_count s + 1,
               expire_count := (if expired then expire_count s + 1 else expire_count s),
               total_time := total_time s + duration,
               max_time := (if sint duration > sint (max_time s) then duration else max_time s),
               last_time := ktime_get clk\<rparr>\<rparr>
           in if has_flag l1 WAKE_LOCK_PREVENTING_SUSPEND
              then clear_flag WAKE_LOCK_PREVENTING_SUSPEND
                (l1\<lparr>stat := (stat l1)\<lparr>prevent_suspend_time :=
                   prevent_suspend_time (stat l1) + (now - last_update)\<rparr>\<rparr>)
              else l1)"

definition sleep_wait_stat :: "clock \<Rightarrow> u64 \<Rightarrow> bool \<Rightarrow> wake_lock \<Rightarrow> wake_lock" where
  "sleep_wait_stat clk last_update finished l =
     (let elapsed = ktime_get clk - last_update;
          expired = get_expired_time clk l;
          l1 = (if has_flag l WAKE_LOCK_PREVENTING_SUSPEND
                then l\<lparr>stat := (stat l)\<lparr>prevent_suspend_time := prevent_suspend_time (stat l) +
                    (case expired of Some etime \<Rightarrow> etime - last_update | None \<Rightarrow> elapsed)\<rparr>\<rparr>
                else l)
      in if finished \<or> expired \<noteq> None then clear_flag WAKE_LOCK_PREVENTING_SUSPEND l1
         else set_flag WAKE_LOCK_PREVENTING_SUSPEND l1)"

definition update_sleep_wait_stats_locked :: "clock \<Rightarrow> bool \<Rightarrow> wl_state \<Rightarrow> wl_state" where
  "update_sleep_wait_stats_locked clk finished st =
     (fold (\<lambda>i. upd_lock i (sleep_wait_stat clk (last_sleep_time_update st) finished))
        (active_wake_locks st WAKE_LOCK_SUSPEND) st)
     \<lparr>last_sleep_time_update := ktime_get clk\<rparr>"

section \<open>The lists\<close>

definition expire_wake_lock :: "clock \<Rightarrow> nat \<Rightarrow> wl_state \<Rightarrow> wl_state" where
  "expire_wake_lock clk i st =
     (let st1 = upd_lock i (wake_unlock_stat_locked clk (last_sleep_time_update st) True) st;
          st2 = upd_lock i (clear_flag (WAKE_LOCK_ACTIVE OR WAKE_LOCK_AUTO_EXPIRE)) st1
      in link_inactive i (unlink i st2))"

fun has_wake_lock_loop ::
  "clock \<Rightarrow> nat list \<Rightarrow> int \<Rightarrow> wl_state \<Rightarrow> wl_state \<times> int" where
  "has_wake_lock_loop clk [] max_timeout st = (st, max_timeout)"
| "has_wake_lock_loop clk (i # is) max_timeout st =
     (if has_flag (locks st i) WAKE_LOCK_AUTO_EXPIRE then
        (let timeout = time_left clk (locks st i)
         in if timeout \<le> 0 then has_wake_lock_loop clk is max_timeout (expire_wake_lock clk i st)
            else if timeout > max_timeout then has_wake_lock_loop clk is timeout st
            else has_wake_lock_loop clk is max_timeout st)
      else (st, - 1))"

definition has_wake_lock_locked :: "clock \<Rightarrow> nat \<Rightarrow> wl_state \<Rightarrow> (wl_state \<times> int) option" where
  "has_wake_lock_locked clk t st =
     (if t \<ge> WAKE_LOCK_TYPE_COUNT then None
      else Some (has_wake_lock_loop clk (active_wake_locks st t) 0 st))"

text \<open>Apart from messages, \<open>has_wake_lock\<close> adds only the lock around the call.\<close>

definition has_wake_lock :: "clock \<Rightarrow> nat \<Rightarrow> wl_state \<Rightarrow> (wl_state \<times> int) option" where
  "has_wake_lock clk t st = has_wake_lock_locked clk t st"

datatype active_msg = Active_time_left string int | Expired string | Active string

fun print_active_loop ::
  "clock \<Rightarrow> wl_state \<Rightarrow> bool \<Rightarrow> bool \<Rightarrow> nat list \<Rightarrow> active_msg list" where
  "print_active_loop clk st dbg print_expired [] = []"
| "print_active_loop clk st dbg print_expired (i # is) =
     (let l = locks st i
      in if has_flag l WAKE_LOCK_AUTO_EXPIRE then
           (if time_left clk l > 0
            then Active_time_left (wl_name l) (time_left clk l)
                   # print_active_loop clk st dbg print_expired is
            else if print_expired
            then Expired (wl_name l) # print_active_loop clk st dbg print_expired is
            else print_active_loop clk st dbg print_expired is)
         else Active (wl_name l) # print_active_loop clk st dbg (dbg \<and> print_expired) is)"

definition DEBUG_EXPIRE :: u32 where
  "DEBUG_EXPIRE = 8"

definition print_active_locks :: "clock \<Rightarrow> nat \<Rightarrow> wl_state \<Rightarrow> active_msg list option" where
  "print_active_locks clk t st =
     (if t \<ge> WAKE_LOCK_TYPE_COUNT then None
      else Some (print_active_loop clk st (debug_mask st AND DEBUG_EXPIRE \<noteq> 0) True
        (active_wake_locks st t)))"

section \<open>Operations\<close>

definition mod_timer :: "u32 \<Rightarrow> wl_state \<Rightarrow> wl_state" where
  "mod_timer e st = st\<lparr>expire_timer := Some e\<rparr>"

definition del_timer :: "wl_state \<Rightarrow> wl_state" where
  "del_timer st = st\<lparr>expire_timer := None\<rparr>"

definition queue_suspend_work :: "wl_state \<Rightarrow> wl_state" where
  "queue_suspend_work st = st\<lparr>suspend_pending := True\<rparr>"

text \<open>The tail that \<open>wake_lock_internal\<close> and \<open>wake_unlock\<close> share.\<close>

definition rearm :: "clock \<Rightarrow> int \<Rightarrow> wl_state \<Rightarrow> wl_state" where
  "rearm clk expire_in st =
     (if expire_in > 0 then mod_timer (jiffies clk + word_of_int expire_in) st
      else (let st1 = del_timer st
            in if expire_in = 0 then queue_suspend_work st1 else st1))"

definition wake_lock_active :: "wake_lock \<Rightarrow> bool" where
  "wake_lock_active l \<longleftrightarrow> has_flag l WAKE_LOCK_ACTIVE"

definition zero_stat :: wake_lock_stat where
  "zero_stat = \<lparr>stat_count = 0, expire_count = 0, wakeup_count = 0, total_time = 0,
     prevent_suspend_time = 0, max_time = 0, last_time = 0\<rparr>"

definition wake_lock_init :: "nat \<Rightarrow> u32 \<Rightarrow> string \<Rightarrow> wl_state \<Rightarrow> wl_state" where
  "wake_lock_init i t name st =
     link_inactive i (upd_lock i (\<lambda>l. l\<lparr>wl_name := name, stat := zero_stat,
       wl_flags := (t AND WAKE_LOCK_TYPE_MASK) OR WAKE_LOCK_INITIALIZED\<rparr>) st)"

definition add_deleted_stat :: "wake_lock_stat \<Rightarrow> wake_lock \<Rightarrow> wake_lock" where
  "add_deleted_stat s l =
     l\<lparr>stat := (stat l)\<lparr>stat_count := stat_count (stat l) + stat_count s,
        expire_count := expire_count (stat l) + expire_count s,
        total_time := total_time (stat l) + total_time s,
        prevent_suspend_time := prevent_suspend_time (stat l) + prevent_suspend_time s,
        max_time := max_time (stat l) + max_time s\<rparr>\<rparr>"

definition wake_lock_destroy :: "nat \<Rightarrow> wl_state \<Rightarrow> wl_state" where
  "wake_lock_destroy i st =
     (let st1 = upd_lock i (clear_flag WAKE_LOCK_INITIALIZED) st;
          s = stat (locks st1 i);
          st2 = (if stat_count s \<noteq> 0
                 then upd_lock deleted_wake_locks (add_deleted_stat s) st1 else st1)
      in unlink i st2)"

text \<open>The part of \<open>wake_lock_internal\<close> before the lists are changed.\<close>

definition lock_acquired :: "clock \<Rightarrow> u64 \<Rightarrow> bool \<Rightarrow> wake_lock \<Rightarrow> wake_lock" where
  "lock_acquired clk last_update woken l =
     (let l1 = (if woken then l\<lparr>stat := (stat l)\<lparr>wakeup_count := wakeup_count (stat l) + 1\<rparr>\<rparr>
                else l);
          l2 = (if has_flag l1 WAKE_LOCK_AUTO_EXPIRE \<and> time_left clk l1 \<le> 0
                then (let l' = wake_unlock_stat_locked clk last_update False l1
                      in l'\<lparr>stat := (stat l')\<lparr>last_time := ktime_get clk\<rparr>\<rparr>)
                else l1)
      in if \<not> has_flag l2 WAKE_LOCK_ACTIVE
         then (let l' = set_flag WAKE_LOCK_ACTIVE l2
               in l'\<lparr>stat := (stat l')\<lparr>last_time := ktime_get clk\<rparr>\<rparr>)
         else l2)"

definition wake_lock_internal ::
  "clock \<Rightarrow> nat \<Rightarrow> u32 \<Rightarrow> bool \<Rightarrow> wl_state \<Rightarrow> wl_state option" where
  "wake_lock_internal clk i timeout has_timeout st =
     (let t = wl_type (locks st i)
      in if t \<ge> WAKE_LOCK_TYPE_COUNT then None
         else if \<not> has_flag (locks st i) WAKE_LOCK_INITIALIZED then None
         else
          (let woken = (t = WAKE_LOCK_SUSPEND \<and> wait_for_wakeup st);
               st1 = (if woken then st\<lparr>wait_for_wakeup := False\<rparr> else st);
               st2 = upd_lock i (lock_acquired clk (last_sleep_time_update st) woken) st1;
               st3 = unlink i st2;
               st4 = (if has_timeout
                      then link_active_tail t i (upd_lock i (\<lambda>l. set_flag WAKE_LOCK_AUTO_EXPIRE
                             (l\<lparr>expires := jiffies clk + timeout\<rparr>)) st3)
                      else link_active_head t i (upd_lock i (\<lambda>l. clear_flag WAKE_LOCK_AUTO_EXPIRE
                             (l\<lparr>expires := LONG_MAX\<rparr>)) st3))
           in if t = WAKE_LOCK_SUSPEND then
                (let st5 = st4\<lparr>current_event_num := current_event_num st4 + 1\<rparr>;
                     st6 = (if i = main_wake_lock then update_sleep_wait_stats_locked clk True st5
                            else if \<not> wake_lock_active (locks st5 main_wake_lock)
                            then update_sleep_wait_stats_locked clk False st5
                            else st5)
                 in if has_timeout
                    then map_option (\<lambda>(st7, expire_in). rearm clk expire_in st7)
                           (has_wake_lock_locked clk t st6)
                    else Some (rearm clk (- 1) st6))
              else Some st4))"

definition wake_lock :: "clock \<Rightarrow> nat \<Rightarrow> wl_state \<Rightarrow> wl_state option" where
  "wake_lock clk i st = wake_lock_internal clk i 0 False st"

definition wake_lock_timeout :: "clock \<Rightarrow> nat \<Rightarrow> u32 \<Rightarrow> wl_state \<Rightarrow> wl_state option" where
  "wake_lock_timeout clk i timeout st = wake_lock_internal clk i timeout True st"

definition wake_unlock :: "clock \<Rightarrow> nat \<Rightarrow> wl_state \<Rightarrow> wl_state option" where
  "wake_unlock clk i st =
     (let t = wl_type (locks st i);
          st1 = upd_lock i (wake_unlock_stat_locked clk (last_sleep_time_update st) False) st;
          st2 = upd_lock i (clear_flag (WAKE_LOCK_ACTIVE OR WAKE_LOCK_AUTO_EXPIRE)) st1;
          st3 = link_inactive i (unlink i st2)
      in if t = WAKE_LOCK_SUSPEND then
           map_option (\<lambda>(st4, has_lock).
             (let st5 = rearm clk has_lock st4
              in if i = main_wake_lock then update_sleep_wait_stats_locked clk False st5 else st5))
             (has_wake_lock_locked clk t st3)
         else Some st3)"

definition expire_wake_locks :: "clock \<Rightarrow> wl_state \<Rightarrow> wl_state option" where
  "expire_wake_locks clk st =
     map_option (\<lambda>(st1, has_lock). if has_lock = 0 then queue_suspend_work st1 else st1)
       (has_wake_lock_locked clk WAKE_LOCK_SUSPEND st)"

definition power_suspend_late :: "clock \<Rightarrow> wl_state \<Rightarrow> (wl_state \<times> (errno + unit)) option" where
  "power_suspend_late clk st =
     map_option (\<lambda>(st1, has_lock).
         (st1\<lparr>wait_for_wakeup := True\<rparr>, if has_lock \<noteq> 0 then Inl EAGAIN else Inr ()))
       (has_wake_lock clk WAKE_LOCK_SUSPEND st)"

section \<open>Suspend\<close>

datatype wkup_reason =
    WKUP_PWR_KEY | WKUP_KEYPAD | WKUP_RTC | WKUP_CABLE | WKUP_SD | WKUP_SIM_CARD
  | WKUP_BATT_LOW | WKUP_CHG_FULL | WKUP_UNKNOWN

fun wkup_code :: "wkup_reason \<Rightarrow> u32" where
  "wkup_code WKUP_PWR_KEY = 0"
| "wkup_code WKUP_KEYPAD = 1"
| "wkup_code WKUP_RTC = 2"
| "wkup_code WKUP_CABLE = 3"
| "wkup_code WKUP_SD = 4"
| "wkup_code WKUP_SIM_CARD = 5"
| "wkup_code WKUP_BATT_LOW = 6"
| "wkup_code WKUP_CHG_FULL = 7"
| "wkup_code WKUP_UNKNOWN = 8"

definition ep10_wkup_source :: "(u16 \<times> wkup_reason) list" where
  "ep10_wkup_source =
     [(0x01E0, WKUP_PWR_KEY), (0x01E0, WKUP_KEYPAD), (0x01E0, WKUP_RTC), (0x01E0, WKUP_CABLE),
      (0x01E0, WKUP_SD), (0x01E0, WKUP_SIM_CARD), (0x009E, WKUP_BATT_LOW),
      (0x017E, WKUP_CHG_FULL), (0, WKUP_UNKNOWN)]"

text \<open>The search stops at the entry with pad offset 0, the last of the table.\<close>

fun find_source :: "u16 \<Rightarrow> (u16 \<times> wkup_reason) list \<Rightarrow> u16 \<times> wkup_reason" where
  "find_source off [] = (0, WKUP_UNKNOWN)"
| "find_source off ((pad, r) # srcs) =
     (if pad = 0 \<or> pad = off then (pad, r) else find_source off srcs)"

definition pmic_reason :: "u8 \<Rightarrow> u8 \<Rightarrow> wkup_reason" where
  "pmic_reason pih sih =
     (if pih AND 0x20 \<noteq> 0 then
        (if sih AND 0x1 \<noteq> 0 then WKUP_PWR_KEY
         else if sih AND 0x4 \<noteq> 0 then WKUP_CABLE
         else if sih AND 0x8 \<noteq> 0 then WKUP_RTC
         else WKUP_UNKNOWN)
      else if pih AND 0x2 \<noteq> 0 then WKUP_KEYPAD
      else if pih AND 0x1 \<noteq> 0 then
        (if sih AND 0x1 \<noteq> 0 then WKUP_SD
         else if sih AND 0x2 \<noteq> 0 then WKUP_SIM_CARD
         else WKUP_UNKNOWN)
      else WKUP_UNKNOWN)"

definition omap3_get_wakeup_reason :: "wakeup_regs \<Rightarrow> wkup_reason" where
  "omap3_get_wakeup_reason r =
     (if wkup_wkst r AND 0x100 \<noteq> 0 then
        (if wkup_event_offset r = 0 then WKUP_UNKNOWN
         else let (pad, reason) = find_source (wkup_event_offset r) ep10_wkup_source
              in if pad = 0x01E0 then pmic_reason (pih_isr r) (sih_isr r) else reason)
      else WKUP_UNKNOWN)"

text \<open>
  \<open>suspend ()\<close> in two parts: up to the call of \<open>pm_suspend\<close>, which runs with no lock held while
  other code takes and releases wake locks, and from its return on. The first part returns
  \<open>entry_event_num\<close> if \<open>pm_suspend\<close> is called.
\<close>

definition suspend_enter :: "clock \<Rightarrow> wl_state \<Rightarrow> (wl_state \<times> u32 option) option" where
  "suspend_enter clk st =
     map_option (\<lambda>(st1, has_lock).
         if has_lock \<noteq> 0 then (st1, None) else (st1, Some (current_event_num st1)))
       (has_wake_lock clk WAKE_LOCK_SUSPEND st)"

definition suspend_report :: "wl_state \<Rightarrow> wl_state" where
  "suspend_report st =
     (let reason = omap3_get_wakeup_reason (wregs st);
          st1 = st\<lparr>g_wakeup_reason := wkup_code reason\<rparr>;
          send_event = (reason = WKUP_BATT_LOW
            \<or> requested_suspend_state st1 \<noteq> 0 \<and> reason = WKUP_SD
            \<or> requested_suspend_state st1 \<noteq> 0 \<and> reason = WKUP_CABLE);
          st2 = (if send_event then st1\<lparr>power_button_events := power_button_events st1 + 1\<rparr>
                 else st1)
      in st2\<lparr>wregs := (wregs st2)\<lparr>pih_isr := 0, sih_isr := 0, core_wkst := 0, core_wkst3 := 0,
           wkup_wkst := 0, per_wkst := 0, usbhost_wkst := 0\<rparr>\<rparr>)"

definition suspend_exit :: "clock \<Rightarrow> u32 \<Rightarrow> int \<Rightarrow> wl_state \<Rightarrow> wl_state option" where
  "suspend_exit clk entry_event_num ret st =
     Option.bind
       (if debug_mask st AND DEBUG_EXIT_SUSPEND \<noteq> 0
        then (let st1 = suspend_report st
              in if ret \<noteq> 0 then wake_lock_timeout clk unknown_wakeup (2 * HZ) st1 else Some st1)
        else Some st)
       (\<lambda>st2. if current_event_num st2 = entry_event_num
              then wake_lock_timeout clk unknown_wakeup (HZ div 2) st2 else Some st2)"

text \<open>
  The pad with a wake-up event, from the padconf registers \<open>omap_ctrl_readw\<close>; the loop skips the
  gap of the register file. With option 0 it only prints the enabled pads and returns 0.
\<close>

function wakeup_event_scan :: "(nat \<Rightarrow> u16) \<Rightarrow> bool \<Rightarrow> nat \<Rightarrow> nat" where
  "wakeup_event_scan readw option i =
     (if i \<le> 0x5FA then
        (let i = (if i = 0x268 then 0x5A0 else i); data = readw i
         in if option \<and> data AND push_bit 15 1 \<noteq> 0 then i
            else wakeup_event_scan readw option (i + 2))
      else 0)"
  by pat_completeness auto
termination
  by (relation "measure (\<lambda>(_, _, i). 0x5FC - i)") (auto split: if_splits)

definition omap3_get_wakeup_event :: "(nat \<Rightarrow> u16) \<Rightarrow> bool \<Rightarrow> nat" where
  "omap3_get_wakeup_event readw option = wakeup_event_scan readw option 0x30"

section \<open>Start and stop\<close>

definition wl_boot :: wl_state where
  "wl_boot = \<lparr>locks = (\<lambda>_. \<lparr>wl_flags = 0, wl_name = [], expires = 0, stat = zero_stat\<rparr>),
     inactive_locks = [], active_wake_locks = (\<lambda>_. []), current_event_num = 0,
     last_sleep_time_update = 0, wait_for_wakeup = False, expire_timer = None,
     suspend_pending = False, requested_suspend_state = 3,
     debug_mask = DEBUG_EXIT_SUSPEND OR DEBUG_WAKEUP, g_wakeup_reason = 0,
     wregs = \<lparr>pih_isr = 0, sih_isr = 0, core_wkst = 0, core_wkst3 = 0, wkup_wkst = 0,
       per_wkst = 0, usbhost_wkst = 0, wkup_event_offset = 0\<rparr>,
     power_button_events = 0\<rparr>"

text \<open>
  \<open>wakelocks_init\<close>: the results of registering the platform device and driver (an error code)
  and of creating the work queue are arguments. The result is the error code and the state; the
  second component says whether device and driver stay registered.
\<close>

definition destroy_locks :: "wl_state \<Rightarrow> wl_state" where
  "destroy_locks st =
     wake_lock_destroy deleted_wake_locks
       (wake_lock_destroy main_wake_lock (wake_lock_destroy unknown_wakeup st))"

definition wakelocks_init ::
  "clock \<Rightarrow> int \<Rightarrow> int \<Rightarrow> bool \<Rightarrow> wl_state \<Rightarrow> (wl_state \<times> bool \<times> int) option" where
  "wakelocks_init clk dev_ret drv_ret wq_ok st =
     (let st0 = st\<lparr>active_wake_locks := (\<lambda>_. [])\<rparr>;
          st1 = wake_lock_init deleted_wake_locks (of_nat WAKE_LOCK_SUSPEND) ''deleted_wake_locks'' st0;
          st2 = wake_lock_init main_wake_lock (of_nat WAKE_LOCK_SUSPEND) ''main'' st1
      in map_option (\<lambda>st3.
           (let st4 = wake_lock_init unknown_wakeup (of_nat WAKE_LOCK_SUSPEND) ''unknown_wakeups'' st3
            in if dev_ret \<noteq> 0 then (destroy_locks st4, False, dev_ret)
               else if drv_ret \<noteq> 0 then (destroy_locks st4, False, drv_ret)
               else if \<not> wq_ok then (destroy_locks st4, False, - int (errno_code ENOMEM))
               else (st4, True, 0)))
         (wake_lock clk main_wake_lock st2))"

definition wakelocks_exit :: "wl_state \<Rightarrow> wl_state" where
  "wakelocks_exit st = destroy_locks st"

section \<open>Flags\<close>

lemma has_set_flag [simp]:
  "has_flag (set_flag m l) m \<longleftrightarrow> m \<noteq> 0"
  "m AND k = 0 \<Longrightarrow> has_flag (set_flag m l) k = has_flag l k"
  by (auto simp: has_flag_def set_flag_def and_or_sub and_or_disj)

lemma has_clear_flag [simp]:
  "m AND k = k \<Longrightarrow> \<not> has_flag (clear_flag m l) k"
  "m AND k = 0 \<Longrightarrow> has_flag (clear_flag m l) k = has_flag l k"
  by (auto simp: has_flag_def clear_flag_def and_not_sub and_not_disj)

lemma wl_type_flag [simp]:
  "m AND WAKE_LOCK_TYPE_MASK = 0 \<Longrightarrow> wl_type (set_flag m l) = wl_type l"
  "m AND WAKE_LOCK_TYPE_MASK = 0 \<Longrightarrow> wl_type (clear_flag m l) = wl_type l"
  by (simp_all add: wl_type_def set_flag_def clear_flag_def and_or_disj and_not_disj)

lemma set_flag_simps [simp]:
  "expires (set_flag m l) = expires l" "wl_name (set_flag m l) = wl_name l"
  "stat (set_flag m l) = stat l" "expires (clear_flag m l) = expires l"
  "wl_name (clear_flag m l) = wl_name l" "stat (clear_flag m l) = stat l"
  by (simp_all add: set_flag_def clear_flag_def)

lemma has_flag_upd [simp]:
  "has_flag (l\<lparr>stat := s\<rparr>) m = has_flag l m" "has_flag (l\<lparr>expires := e\<rparr>) m = has_flag l m"
  "wl_type (l\<lparr>stat := s\<rparr>) = wl_type l" "wl_type (l\<lparr>expires := e\<rparr>) = wl_type l"
  by (simp_all add: has_flag_def wl_type_def)

end
