(* ===== verification/Wakelock_Lists.thy ===== *)
theory Wakelock_Lists
  imports Wakelock
begin

text \<open>
  The list invariant of the wake locks and the exact effect of \<open>has_wake_lock_locked\<close>, the
  function every decision to suspend rests on.
\<close>

section \<open>What the lists depend on\<close>

text \<open>
  The statistics never influence which locks are held: \<open>core\<close> is the part of a lock that does,
  and the statistics routines leave it alone.
\<close>

record core =
  c_init :: bool
  c_active :: bool
  c_auto :: bool
  c_type :: nat
  c_expires :: u32

definition core :: "wake_lock \<Rightarrow> core" where
  "core l = \<lparr>c_init = has_flag l WAKE_LOCK_INITIALIZED, c_active = has_flag l WAKE_LOCK_ACTIVE,
     c_auto = has_flag l WAKE_LOCK_AUTO_EXPIRE, c_type = wl_type l, c_expires = expires l\<rparr>"

named_theorems core_simps \<open>effect of the routines on the core of a lock\<close>

lemma core_sel [core_simps]:
  "c_init (core l) = has_flag l WAKE_LOCK_INITIALIZED"
  "c_active (core l) = has_flag l WAKE_LOCK_ACTIVE"
  "c_auto (core l) = has_flag l WAKE_LOCK_AUTO_EXPIRE"
  "c_type (core l) = wl_type l" "c_expires (core l) = expires l"
  by (simp_all add: core_def)

lemma core_stat [simp]: "core (l\<lparr>stat := s\<rparr>) = core l"
  by (simp add: core_def)

lemma core_preventing [simp]:
  "core (clear_flag WAKE_LOCK_PREVENTING_SUSPEND l) = core l"
  "core (set_flag WAKE_LOCK_PREVENTING_SUSPEND l) = core l"
  by (simp_all add: core_def wl_flag_defs)

lemma core_unlock_stat [simp]: "core (wake_unlock_stat_locked clk u e l) = core l"
  by (simp add: wake_unlock_stat_locked_def Let_def split: option.split)

lemma core_sleep_wait_stat [simp]: "core (sleep_wait_stat clk u d l) = core l"
  by (simp add: sleep_wait_stat_def Let_def)

lemma core_clear_active [simp]:
  "core (clear_flag (WAKE_LOCK_ACTIVE OR WAKE_LOCK_AUTO_EXPIRE) l)
   = (core l)\<lparr>c_active := False, c_auto := False\<rparr>"
  by (simp add: core_def wl_flag_defs)

lemma core_set_active [simp]: "core (set_flag WAKE_LOCK_ACTIVE l) = (core l)\<lparr>c_active := True\<rparr>"
  by (simp add: core_def wl_flag_defs)

lemma core_clear_init [simp]:
  "core (clear_flag WAKE_LOCK_INITIALIZED l) = (core l)\<lparr>c_init := False\<rparr>"
  by (simp add: core_def wl_flag_defs)

lemma core_timeout [simp]:
  "core (set_flag WAKE_LOCK_AUTO_EXPIRE (l\<lparr>expires := e\<rparr>))
   = (core l)\<lparr>c_auto := True, c_expires := e\<rparr>"
  by (simp add: core_def wl_flag_defs)

lemma core_no_timeout [simp]:
  "core (clear_flag WAKE_LOCK_AUTO_EXPIRE (l\<lparr>expires := e\<rparr>))
   = (core l)\<lparr>c_auto := False, c_expires := e\<rparr>"
  by (simp add: core_def wl_flag_defs)

lemma core_eq_active: "core l = core l' \<Longrightarrow> has_flag l WAKE_LOCK_ACTIVE = has_flag l' WAKE_LOCK_ACTIVE"
  by (simp add: core_def)

lemma core_lock_acquired [simp]: "core (lock_acquired clk u w l) = (core l)\<lparr>c_active := True\<rparr>"
proof -
  have "core l = (core l)\<lparr>c_active := True\<rparr>" if "has_flag l WAKE_LOCK_ACTIVE"
    using that by (simp add: core_def)
  moreover have "has_flag (wake_unlock_stat_locked clk u e l') WAKE_LOCK_ACTIVE
      = has_flag l' WAKE_LOCK_ACTIVE" for e l'
    by (rule core_eq_active) simp
  ultimately show ?thesis
    by (simp add: lock_acquired_def Let_def)
qed

lemma core_deleted_stat [simp]: "core (add_deleted_stat s l) = core l"
  by (simp add: add_deleted_stat_def)

abbreviation cores :: "wl_state \<Rightarrow> nat \<Rightarrow> core" where
  "cores st \<equiv> \<lambda>i. core (locks st i)"

definition left :: "clock \<Rightarrow> core \<Rightarrow> int" where
  "left clk c = sint (c_expires c - jiffies clk)"

lemma time_left_core: "time_left clk l = left clk (core l)"
  by (simp add: time_left_def left_def core_def)

lemma auto_core: "has_flag l WAKE_LOCK_AUTO_EXPIRE = c_auto (core l)"
  by (simp add: core_def)

lemma cores_upd_lock [simp]:
  "cores (upd_lock i f st) = (cores st)(i := core (f (locks st i)))"
  by (auto simp: upd_lock_def)

lemma lists_upd_lock [simp]:
  "inactive_locks (upd_lock i f st) = inactive_locks st"
  "active_wake_locks (upd_lock i f st) = active_wake_locks st"
  "current_event_num (upd_lock i f st) = current_event_num st"
  "expire_timer (upd_lock i f st) = expire_timer st"
  "suspend_pending (upd_lock i f st) = suspend_pending st"
  "last_sleep_time_update (upd_lock i f st) = last_sleep_time_update st"
  "locks (upd_lock i f st) i = f (locks st i)"
  by (simp_all add: upd_lock_def)

lemma link_simps [simp]:
  "locks (unlink i st) = locks st" "locks (link_inactive i st) = locks st"
  "locks (link_active_head t i st) = locks st" "locks (link_active_tail t i st) = locks st"
  "inactive_locks (unlink i st) = remove1 i (inactive_locks st)"
  "inactive_locks (link_inactive i st) = i # inactive_locks st"
  "inactive_locks (link_active_head t i st) = inactive_locks st"
  "inactive_locks (link_active_tail t i st) = inactive_locks st"
  "active_wake_locks (unlink i st) = (\<lambda>t. remove1 i (active_wake_locks st t))"
  "active_wake_locks (link_inactive i st) = active_wake_locks st"
  "active_wake_locks (link_active_head t i st)
   = (active_wake_locks st)(t := i # active_wake_locks st t)"
  "active_wake_locks (link_active_tail t i st)
   = (active_wake_locks st)(t := active_wake_locks st t @ [i])"
  by (simp_all add: unlink_def link_inactive_def link_active_head_def link_active_tail_def)

lemma link_other_simps [simp]:
  "current_event_num (unlink i st) = current_event_num st"
  "current_event_num (link_inactive i st) = current_event_num st"
  "current_event_num (link_active_head t i st) = current_event_num st"
  "current_event_num (link_active_tail t i st) = current_event_num st"
  "expire_timer (unlink i st) = expire_timer st"
  "expire_timer (link_inactive i st) = expire_timer st"
  "expire_timer (link_active_head t i st) = expire_timer st"
  "expire_timer (link_active_tail t i st) = expire_timer st"
  "suspend_pending (unlink i st) = suspend_pending st"
  "suspend_pending (link_inactive i st) = suspend_pending st"
  "suspend_pending (link_active_head t i st) = suspend_pending st"
  "suspend_pending (link_active_tail t i st) = suspend_pending st"
  by (simp_all add: unlink_def link_inactive_def link_active_head_def link_active_tail_def)

section \<open>The invariant\<close>

definition wl_inv :: "wl_state \<Rightarrow> bool" where
  "wl_inv st \<longleftrightarrow>
     distinct (inactive_locks st @ active_wake_locks st 0 @ active_wake_locks st 1) \<and>
     (\<forall>i \<in> set (inactive_locks st). c_init (cores st i) \<and> \<not> c_active (cores st i)
        \<and> \<not> c_auto (cores st i)) \<and>
     (\<forall>t < 2. \<forall>i \<in> set (active_wake_locks st t). c_init (cores st i) \<and> c_active (cores st i)
        \<and> c_type (cores st i) = t) \<and>
     (\<forall>i. c_init (cores st i) \<longrightarrow> i \<in> set (inactive_locks st)
        \<or> i \<in> set (active_wake_locks st 0) \<or> i \<in> set (active_wake_locks st 1))"

lemma wl_inv_inactive:
  "wl_inv st \<Longrightarrow> i \<in> set (inactive_locks st)
   \<Longrightarrow> c_init (cores st i) \<and> \<not> c_active (cores st i) \<and> \<not> c_auto (cores st i)"
  by (simp add: wl_inv_def)

lemma wl_inv_active:
  "wl_inv st \<Longrightarrow> t < 2 \<Longrightarrow> i \<in> set (active_wake_locks st t)
   \<Longrightarrow> c_init (cores st i) \<and> c_active (cores st i) \<and> c_type (cores st i) = t"
  by (simp add: wl_inv_def)

text \<open>The invariant only speaks of the lists and the cores.\<close>

lemma wl_inv_cong:
  assumes "cores st = cores st'" and "inactive_locks st = inactive_locks st'"
    and "\<And>t. t < 2 \<Longrightarrow> active_wake_locks st t = active_wake_locks st' t"
  shows "wl_inv st \<longleftrightarrow> wl_inv st'"
proof -
  have "cores st i = cores st' i" for i using fun_cong [OF assms(1), of i] .
  then show ?thesis unfolding wl_inv_def using assms(2,3) by simp
qed

lemma wl_inv_update_stats [simp]:
  "wl_inv (st\<lparr>last_sleep_time_update := x\<rparr>) = wl_inv st"
  "wl_inv (st\<lparr>current_event_num := n\<rparr>) = wl_inv st"
  "wl_inv (st\<lparr>wait_for_wakeup := b\<rparr>) = wl_inv st"
  "wl_inv (st\<lparr>expire_timer := e\<rparr>) = wl_inv st"
  "wl_inv (st\<lparr>suspend_pending := b\<rparr>) = wl_inv st"
  by (rule wl_inv_cong; simp)+

lemma fold_upd_lock:
  assumes "\<And>l. core (f l) = core l"
  shows "cores (fold (\<lambda>i. upd_lock i f) is st) = cores st"
    "inactive_locks (fold (\<lambda>i. upd_lock i f) is st) = inactive_locks st"
    "active_wake_locks (fold (\<lambda>i. upd_lock i f) is st) = active_wake_locks st"
    "current_event_num (fold (\<lambda>i. upd_lock i f) is st) = current_event_num st"
    "expire_timer (fold (\<lambda>i. upd_lock i f) is st) = expire_timer st"
    "suspend_pending (fold (\<lambda>i. upd_lock i f) is st) = suspend_pending st"
  by (induction "is" arbitrary: st) (auto simp: assms fun_upd_idem)

lemma update_sleep_wait_stats_simps [simp]:
  "cores (update_sleep_wait_stats_locked clk d st) = cores st"
  "inactive_locks (update_sleep_wait_stats_locked clk d st) = inactive_locks st"
  "active_wake_locks (update_sleep_wait_stats_locked clk d st) = active_wake_locks st"
  "current_event_num (update_sleep_wait_stats_locked clk d st) = current_event_num st"
  "expire_timer (update_sleep_wait_stats_locked clk d st) = expire_timer st"
  "suspend_pending (update_sleep_wait_stats_locked clk d st) = suspend_pending st"
  by (simp_all add: update_sleep_wait_stats_locked_def fold_upd_lock)

lemma wl_inv_update_sleep_wait_stats [simp]:
  "wl_inv (update_sleep_wait_stats_locked clk d st) = wl_inv st"
  by (rule wl_inv_cong) simp_all

text \<open>
  A lock leaves its list for the list of inactive locks. Stated for any state that differs
  from \<open>st\<close> in this way, so that it serves expiry and release alike.
\<close>

lemma wl_inv_deactivate:
  assumes "wl_inv st" and "c_init (cores st i)"
    and "cores st' = (cores st)(i := (cores st i)\<lparr>c_active := False, c_auto := False\<rparr>)"
    and "inactive_locks st' = i # remove1 i (inactive_locks st)"
    and "active_wake_locks st' = (\<lambda>t. remove1 i (active_wake_locks st t))"
  shows "wl_inv st'"
proof -
  have c: "cores st' k = (if k = i then (cores st i)\<lparr>c_active := False, c_auto := False\<rparr>
      else cores st k)" for k
    using fun_cong [OF assms(3), of k] by simp
  show ?thesis
    using assms(1,2) unfolding wl_inv_def assms(4,5) c
    by (auto simp: distinct_remove1 less_2_cases_iff)
qed

lemma wl_inv_activate:
  assumes "wl_inv st" and "c_init (cores st i)" and t: "c_type (cores st i) = t" "t < 2"
    and "cores st' = (cores st)(i := (cores st i)\<lparr>c_active := True, c_auto := a, c_expires := e\<rparr>)"
    and "inactive_locks st' = remove1 i (inactive_locks st)"
    and "active_wake_locks st' = (\<lambda>t. remove1 i (active_wake_locks st t))(t := xs)"
    and "mset xs = add_mset i (mset (remove1 i (active_wake_locks st t)))"
  shows "wl_inv st'"
proof -
  have c: "cores st' k = (if k = i then (cores st i)\<lparr>c_active := True, c_auto := a, c_expires := e\<rparr>
      else cores st k)" for k
    using fun_cong [OF assms(5), of k] by simp
  have sx: "set xs = insert i (set (remove1 i (active_wake_locks st t)))"
    using assms(8) by (metis set_mset_mset set_mset_add_mset_insert)
  have "distinct (active_wake_locks st t)"
    using assms(1) t(2) by (auto simp: wl_inv_def less_2_cases_iff)
  then have dx: "distinct xs"
    using mset_eq_imp_distinct_iff [of xs "i # remove1 i (active_wake_locks st t)"] assms(8)
    by (simp add: distinct_remove1)
  consider "t = 0" | "t = 1" using t(2) by linarith
  then show ?thesis
    using assms(1,2) t dx unfolding wl_inv_def assms(6,7) c
    by cases (auto simp: distinct_remove1 sx less_2_cases_iff)
qed

section \<open>Expiry\<close>

definition off_core :: "core \<Rightarrow> core" where
  "off_core c = c\<lparr>c_active := False, c_auto := False\<rparr>"

lemma expire_wake_lock_simps [simp]:
  "cores (expire_wake_lock clk i st) = (cores st)(i := off_core (cores st i))"
  "inactive_locks (expire_wake_lock clk i st) = i # remove1 i (inactive_locks st)"
  "active_wake_locks (expire_wake_lock clk i st) = (\<lambda>t. remove1 i (active_wake_locks st t))"
  "current_event_num (expire_wake_lock clk i st) = current_event_num st"
  "expire_timer (expire_wake_lock clk i st) = expire_timer st"
  "suspend_pending (expire_wake_lock clk i st) = suspend_pending st"
  by (auto simp: expire_wake_lock_def Let_def off_core_def)

lemma core_expire_wake_lock:
  "core (locks (expire_wake_lock clk i st) k) = (if k = i then off_core (cores st i) else cores st k)"
  using fun_cong [OF expire_wake_lock_simps(1), of clk i st k] by simp

text \<open>The locks a walk over the list \<open>is\<close> expires: it stops at the first lock without a timeout.\<close>

definition expired_locks :: "clock \<Rightarrow> (nat \<Rightarrow> core) \<Rightarrow> nat list \<Rightarrow> nat list" where
  "expired_locks clk c is =
     filter (\<lambda>i. left clk (c i) \<le> 0) (takeWhile (\<lambda>i. c_auto (c i)) is)"

lemma expired_locks_cong:
  assumes "\<And>i. i \<in> set is \<Longrightarrow> c i = d i"
  shows "expired_locks clk c is = expired_locks clk d is"
proof -
  have "takeWhile (\<lambda>i. c_auto (c i)) is = takeWhile (\<lambda>i. c_auto (d i)) is"
    by (rule takeWhile_cong) (auto simp: assms)
  then show ?thesis unfolding expired_locks_def
    by (auto intro!: filter_cong dest!: set_takeWhileD simp: assms)
qed

lemma has_wake_lock_loop_eq:
  assumes "distinct is" and "0 \<le> m"
  shows "has_wake_lock_loop clk is m st =
    (fold (expire_wake_lock clk) (expired_locks clk (cores st) is) st,
     if \<forall>i \<in> set is. c_auto (cores st i) then fold max (map (\<lambda>i. left clk (cores st i)) is) m
     else - 1)"
  using assms
proof (induction "is" arbitrary: m st)
  case Nil
  then show ?case by (simp add: expired_locks_def)
next
  case (Cons i "is")
  let ?st = "expire_wake_lock clk i st"
  have same: "core (locks ?st k) = core (locks st k)" if "k \<in> set is" for k
    using that Cons.prems(1) by (auto simp: core_expire_wake_lock)
  have e: "expired_locks clk (cores ?st) is = expired_locks clk (cores st) is"
    by (rule expired_locks_cong) (rule same)
  have "map (\<lambda>i. left clk (cores ?st i)) is = map (\<lambda>i. left clk (cores st i)) is"
    by (rule map_cong) (simp_all add: same)
  then have m: "fold max (map (\<lambda>i. left clk (cores ?st i)) is) n
      = fold max (map (\<lambda>i. left clk (cores st i)) is) n" for n
    by (rule arg_cong)
  have a: "(\<forall>k \<in> set is. c_auto (cores ?st k)) = (\<forall>k \<in> set is. c_auto (cores st k))"
    by (rule ball_cong) (simp_all add: same)
  show ?case
  proof (cases "c_auto (cores st i)")
    case False
    then show ?thesis by (simp add: auto_core expired_locks_def)
  next
    case True
    consider (exp) "left clk (cores st i) \<le> 0" | (more) "left clk (cores st i) > m"
      | (less) "left clk (cores st i) > 0" "left clk (cores st i) \<le> m"
      by linarith
    then show ?thesis
    proof cases
      case exp
      then have "max (left clk (cores st i)) m = m" using Cons.prems(2) by simp
      moreover have "expired_locks clk (cores st) (i # is) = i # expired_locks clk (cores st) is"
        using True exp by (simp add: expired_locks_def)
      ultimately show ?thesis
        using True exp Cons.IH [of m ?st] Cons.prems e m a
        by (simp add: auto_core time_left_core)
    next
      case more
      then have "max (left clk (cores st i)) m = left clk (cores st i)" by simp
      moreover have "expired_locks clk (cores st) (i # is) = expired_locks clk (cores st) is"
        using True more Cons.prems(2) by (simp add: expired_locks_def)
      ultimately show ?thesis
        using True more Cons.IH [of "left clk (cores st i)" st] Cons.prems
        by (simp add: auto_core time_left_core)
    next
      case less
      then have "max (left clk (cores st i)) m = m" by simp
      moreover have "expired_locks clk (cores st) (i # is) = expired_locks clk (cores st) is"
        using True less by (simp add: expired_locks_def)
      ultimately show ?thesis
        using True less Cons.IH [of m st] Cons.prems
        by (simp add: auto_core time_left_core)
    qed
  qed
qed

lemma fold_expire:
  fixes clk st
  defines "res \<equiv> \<lambda>E. fold (expire_wake_lock clk) E st"
  assumes "wl_inv st" and "distinct E" and "t < 2" and "set E \<subseteq> set (active_wake_locks st t)"
  shows "cores (res E) = (\<lambda>k. if k \<in> set E then off_core (cores st k) else cores st k)
    \<and> inactive_locks (res E) = rev E @ inactive_locks st
    \<and> (\<forall>u < 2. active_wake_locks (res E) u
        = filter (\<lambda>k. k \<notin> set E) (active_wake_locks st u))
    \<and> current_event_num (res E) = current_event_num st
    \<and> expire_timer (res E) = expire_timer st
    \<and> suspend_pending (res E) = suspend_pending st
    \<and> wl_inv (res E)"
  using assms(3-)
proof (induction E rule: rev_induct)
  case Nil
  then show ?case using assms(2) by (simp add: res_def)
next
  case (snoc i E)
  then have IH: "cores (res E) = (\<lambda>k. if k \<in> set E then off_core (cores st k) else cores st k)"
      "inactive_locks (res E) = rev E @ inactive_locks st"
      "\<forall>u < 2. active_wake_locks (res E) u = filter (\<lambda>k. k \<notin> set E) (active_wake_locks st u)"
      "current_event_num (res E) = current_event_num st"
      "expire_timer (res E) = expire_timer st"
      "suspend_pending (res E) = suspend_pending st" "wl_inv (res E)"
    by auto
  have i: "i \<notin> set E" "i \<in> set (active_wake_locks st t)"
    using snoc.prems by auto
  have res: "res (E @ [i]) = expire_wake_lock clk i (res E)"
    by (simp add: res_def)
  have ci: "cores (res E) i = cores st i" using fun_cong [OF IH(1), of i] i by simp
  have "c_init (cores st i)"
    using i(2) assms(2) snoc.prems(2) by (auto simp: wl_inv_def)
  then have "wl_inv (res (E @ [i]))"
    by (intro wl_inv_deactivate [OF IH(7), of i])
      (simp_all add: res ci [simplified] off_core_def)
  moreover have "cores (res (E @ [i]))
      = (\<lambda>k. if k \<in> set (E @ [i]) then off_core (cores st k) else cores st k)"
    using IH(1) i(1) by (auto simp: res fun_eq_iff core_expire_wake_lock)
  moreover have "i \<notin> set (inactive_locks (res E))"
    using i assms(2) snoc.prems(2) IH(2) by (auto simp: wl_inv_def less_2_cases_iff)
  moreover from this have "remove1 i (inactive_locks (res E)) = inactive_locks (res E)"
    by (rule remove1_idem)
  moreover have "remove1 i (active_wake_locks (res E) u)
      = filter (\<lambda>k. k \<notin> set (E @ [i])) (active_wake_locks st u)" if "u < 2" for u
  proof -
    have "distinct (active_wake_locks st u)"
      using assms(2) that by (auto simp: wl_inv_def less_2_cases_iff)
    then show ?thesis
      using IH(3) that
      by (auto simp: distinct_remove1_removeAll removeAll_filter_not_eq intro!: filter_cong)
  qed
  ultimately show ?case using IH by (simp add: res)
qed

lemma fold_expire_other: "k \<notin> set E \<Longrightarrow> locks (fold (expire_wake_lock clk) E st) k = locks st k"
  by (induction E arbitrary: st) (simp_all add: expire_wake_lock_def Let_def upd_lock_def)

section \<open>The specification of \<open>has_wake_lock_locked\<close>\<close>

text \<open>
  The answer is \<open>-1\<close> when a lock without timeout is held, and the longest remaining time
  otherwise, 0 if every held lock has expired.
\<close>

definition longest_left :: "clock \<Rightarrow> (nat \<Rightarrow> core) \<Rightarrow> nat set \<Rightarrow> int" where
  "longest_left clk c S = (if \<forall>i \<in> S. c_auto (c i) then Max (insert 0 ((\<lambda>i. left clk (c i)) ` S))
     else - 1)"

lemma fold_max_eq_Max: "fold max xs m = Max (insert m (set xs))" for m :: "'a::linorder"
proof -
  have "fold max xs m = Max (set (m # xs))"
    by (simp add: Max.set_eq_fold del: list.set)
  then show ?thesis by simp
qed

lemma has_wake_lock_locked_eq:
  assumes "wl_inv st" and "t < 2"
  shows "has_wake_lock_locked clk t st =
    Some (fold (expire_wake_lock clk) (expired_locks clk (cores st) (active_wake_locks st t)) st,
      longest_left clk (cores st) (set (active_wake_locks st t)))"
proof -
  have "distinct (active_wake_locks st t)"
    using assms by (auto simp: wl_inv_def less_2_cases_iff)
  then show ?thesis
    using assms(2) by (simp add: has_wake_lock_locked_def WAKE_LOCK_TYPE_COUNT_def
        has_wake_lock_loop_eq longest_left_def fold_max_eq_Max)
qed

lemma longest_left_ge: "finite S \<Longrightarrow> - 1 \<le> longest_left clk c S"
  by (simp add: longest_left_def Max_ge_iff)

lemma longest_left_zero:
  assumes "finite S"
  shows "longest_left clk c S = 0 \<longleftrightarrow> (\<forall>i \<in> S. c_auto (c i) \<and> left clk (c i) \<le> 0)"
proof (cases "\<forall>i \<in> S. c_auto (c i)")
  case True
  have "Max (insert 0 ((\<lambda>i. left clk (c i)) ` S)) = 0 \<longleftrightarrow> (\<forall>i \<in> S. left clk (c i) \<le> 0)"
    using assms by (subst Max_eq_iff) auto
  with True show ?thesis by (simp add: longest_left_def)
qed (auto simp: longest_left_def)

text \<open>What is left after the call, as the callers need it.\<close>

lemma has_wake_lock_locked_cases:
  assumes inv: "wl_inv st" and t: "t < 2"
  obtains st' where
    "has_wake_lock_locked clk t st
       = Some (st', longest_left clk (cores st) (set (active_wake_locks st t)))"
    "wl_inv st'"
    "\<And>k. core (locks st' k) = (if k \<in> set (expired_locks clk (cores st) (active_wake_locks st t))
       then off_core (cores st k) else cores st k)"
    "\<And>u. u < 2 \<Longrightarrow> active_wake_locks st' u
       = filter (\<lambda>k. k \<notin> set (expired_locks clk (cores st) (active_wake_locks st t)))
           (active_wake_locks st u)"
    "inactive_locks st' = rev (expired_locks clk (cores st) (active_wake_locks st t)) @ inactive_locks st"
    "current_event_num st' = current_event_num st"
    "expire_timer st' = expire_timer st" "suspend_pending st' = suspend_pending st"
proof -
  let ?E = "expired_locks clk (cores st) (active_wake_locks st t)"
  have "distinct (active_wake_locks st t)"
    using assms by (auto simp: wl_inv_def less_2_cases_iff)
  then have E: "distinct ?E" "set ?E \<subseteq> set (active_wake_locks st t)"
    by (auto simp: expired_locks_def dest: set_takeWhileD)
  note f = fold_expire [OF inv E(1) t E(2), of clk]
  show thesis
    by (rule that [OF has_wake_lock_locked_eq [OF inv t]]) (use f in \<open>auto simp: fun_eq_iff\<close>)
qed

section \<open>The expire timer\<close>

text \<open>
  \<open>armed j st\<close> at time \<open>j\<close>: something will lead to the next attempt to suspend. Either a lock
  without timeout is held (its release decides), or the timer is set to the last expiry of all
  held locks (or is due, a walk having just expired them all), or no lock is held and the suspend
  work is queued.
\<close>

definition permanent :: "wl_state \<Rightarrow> bool" where
  "permanent st \<longleftrightarrow> (\<exists>i \<in> set (active_wake_locks st 0). \<not> c_auto (cores st i))"

definition covered :: "u32 \<Rightarrow> wl_state \<Rightarrow> bool" where
  "covered j st \<longleftrightarrow> (\<exists>e. expire_timer st = Some e \<and> unat (e - j) < 2 ^ 31 \<and>
     (\<forall>i \<in> set (active_wake_locks st 0). unat (e - c_expires (cores st i)) < 2 ^ 31) \<and>
     ((\<exists>i \<in> set (active_wake_locks st 0). c_expires (cores st i) = e)
      \<or> active_wake_locks st 0 = [] \<and> e = j))"

definition armed :: "u32 \<Rightarrow> wl_state \<Rightarrow> bool" where
  "armed j st \<longleftrightarrow> permanent st \<or> covered j st
     \<or> active_wake_locks st 0 = [] \<and> suspend_pending st"

lemma armed_cong:
  assumes "active_wake_locks st 0 = active_wake_locks st' 0"
    and "\<And>i. i \<in> set (active_wake_locks st' 0) \<Longrightarrow> cores st i = cores st' i"
    and "expire_timer st = expire_timer st'" and "suspend_pending st = suspend_pending st'"
  shows "armed j st \<longleftrightarrow> armed j st'"
proof -
  have "permanent st = permanent st'" "covered j st = covered j st'"
    unfolding permanent_def covered_def assms(1,3) by (simp_all add: assms(2))
  then show ?thesis unfolding armed_def using assms(1,4) by simp
qed

lemma longest_left_less: "finite S \<Longrightarrow> longest_left clk c S < 2 ^ 31"
proof -
  assume "finite S"
  moreover have "left clk x < 2 ^ 31" for x
    using sint_lt [of "c_expires x - jiffies clk"] by (simp add: left_def)
  ultimately show ?thesis by (simp add: longest_left_def)
qed

lemma unat_word_of_int31: "0 \<le> k \<Longrightarrow> k < 2 ^ 31 \<Longrightarrow> unat (word_of_int k :: u32) = nat k"
  by (simp add: unsigned_of_int take_bit_int_eq_self)

lemma timer_distance:
  fixes x j :: u32
  assumes "0 < sint (x - j)" and "sint (x - j) \<le> r" and "r < 2 ^ 31"
  shows "unat (j + word_of_int r - x) < 2 ^ 31"
proof -
  have "j + word_of_int r - x = word_of_int r - (x - j)" by simp
  also have "x - j = word_of_int (sint (x - j))" by simp
  also have "word_of_int r - word_of_int (sint (x - j)) = (word_of_int (r - sint (x - j)) :: u32)"
    by simp
  finally have "unat (j + word_of_int r - x) = unat (word_of_int (r - sint (x - j)) :: u32)"
    by (rule arg_cong)
  also have "\<dots> = nat (r - sint (x - j))"
    using assms by (intro unat_word_of_int31) auto
  finally show ?thesis using assms by (simp add: nat_less_iff)
qed

lemma rearm_simps [simp]:
  "locks (rearm clk r st) = locks st" "inactive_locks (rearm clk r st) = inactive_locks st"
  "active_wake_locks (rearm clk r st) = active_wake_locks st"
  "current_event_num (rearm clk r st) = current_event_num st"
  by (simp_all add: rearm_def Let_def mod_timer_def del_timer_def queue_suspend_work_def)

lemma wl_inv_rearm [simp]: "wl_inv (rearm clk r st) = wl_inv st"
  by (rule wl_inv_cong) simp_all

lemma rearm_fields:
  "expire_timer (rearm clk r st) = (if r > 0 then Some (jiffies clk + word_of_int r) else None)"
  "suspend_pending (rearm clk r st) = (r = 0 \<or> suspend_pending st)"
  by (simp_all add: rearm_def Let_def mod_timer_def del_timer_def queue_suspend_work_def)

lemma rearm_armed:
  assumes inv: "wl_inv st" and h: "has_wake_lock_locked clk 0 st = Some (st', r)"
  shows "armed (jiffies clk) (rearm clk r st')"
proof -
  let ?A = "active_wake_locks st 0" and ?c = "cores st"
  let ?E = "expired_locks clk ?c ?A"
  obtain st1 where st1: "has_wake_lock_locked clk 0 st = Some (st1, longest_left clk ?c (set ?A))"
      "\<And>k. core (locks st1 k) = (if k \<in> set ?E then off_core (?c k) else ?c k)"
      "active_wake_locks st1 0 = filter (\<lambda>k. k \<notin> set ?E) ?A"
    by (rule has_wake_lock_locked_cases [OF inv, of 0 clk]) auto
  then have st': "st' = st1" "r = longest_left clk ?c (set ?A)" using h by auto
  let ?s = "rearm clk r st'"
  have act: "active_wake_locks ?s 0 = filter (\<lambda>k. k \<notin> set ?E) ?A"
    using st1(3) st' by simp
  have core: "core (locks ?s k) = ?c k" if "k \<in> set (active_wake_locks ?s 0)" for k
    using that st1(2) [of k] act st' by simp
  have E: "set ?E \<subseteq> {i. c_auto (?c i)}"
    by (auto simp: expired_locks_def dest: set_takeWhileD)
  consider (perm) "\<exists>i \<in> set ?A. \<not> c_auto (?c i)"
    | (timed) "\<forall>i \<in> set ?A. c_auto (?c i)" by blast
  then show ?thesis
  proof cases
    case perm
    then obtain i where i: "i \<in> set ?A" "\<not> c_auto (?c i)" by blast
    then have "i \<in> set (active_wake_locks ?s 0)" using E act by auto
    moreover from this have "\<not> c_auto (cores ?s i)" using core i(2) by simp
    ultimately have "permanent ?s" unfolding permanent_def by blast
    then show ?thesis by (simp add: armed_def)
  next
    case timed
    then have tw: "takeWhile (\<lambda>i. c_auto (?c i)) ?A = ?A"
      by (simp add: takeWhile_eq_all_conv)
    have act': "set (active_wake_locks ?s 0) = {i \<in> set ?A. 0 < left clk (?c i)}"
      unfolding act expired_locks_def tw by auto
    have r: "r = Max (insert 0 ((\<lambda>i. left clk (?c i)) ` set ?A))"
      using timed st'(2) by (simp add: longest_left_def)
    then have le: "left clk (?c i) \<le> r" if "i \<in> set ?A" for i using that by simp
    have "0 \<le> r" unfolding r by (rule Max_ge) auto
    then have r31: "r < 2 ^ 31" "0 \<le> r" using longest_left_less [of "set ?A"] st'(2) by auto
    show ?thesis
    proof (cases "r = 0")
      case True
      then have "set (active_wake_locks ?s 0) = {}" unfolding act' using le by force
      with True show ?thesis by (simp add: armed_def rearm_fields)
    next
      case False
      have "unat (jiffies clk + word_of_int r - c_expires (cores ?s i)) < 2 ^ 31"
        if "i \<in> set (active_wake_locks ?s 0)" for i
        using that act' le [of i] r31 core [OF that]
        by (intro timer_distance) (auto simp: left_def)
      moreover have "unat (jiffies clk + word_of_int r - jiffies clk) < 2 ^ 31"
        using r31 by (simp add: unat_word_of_int31)
      moreover have "\<exists>i \<in> set (active_wake_locks ?s 0). c_expires (cores ?s i) = jiffies clk + word_of_int r"
      proof -
        have "r \<in> insert 0 ((\<lambda>i. left clk (?c i)) ` set ?A)" unfolding r by (rule Max_in) auto
        then obtain i where i: "i \<in> set ?A" "r = left clk (?c i)" using False by auto
        then have act: "i \<in> set (active_wake_locks ?s 0)" using act' False r31(2) by simp
        have "word_of_int r = c_expires (?c i) - jiffies clk" unfolding i(2) left_def by simp
        then have "c_expires (cores ?s i) = jiffies clk + word_of_int r" using core [OF act] by simp
        then show ?thesis using act by blast
      qed
      ultimately show ?thesis using False r31
        by (simp add: armed_def covered_def rearm_fields)
    qed
  qed
qed

section \<open>The operations\<close>

text \<open>What never changes between initialisation and destruction.\<close>

definition static :: "core \<Rightarrow> bool \<times> nat" where
  "static c = (c_init c, c_type c)"

lemma static_upd [simp]:
  "static (c\<lparr>c_active := a\<rparr>) = static c" "static (c\<lparr>c_auto := a\<rparr>) = static c"
  "static (c\<lparr>c_expires := e\<rparr>) = static c"
  "static (off_core c) = static c"
  by (simp_all add: static_def off_core_def)

lemma has_wake_lock_inv:
  assumes "wl_inv st" and "t < 2" and "has_wake_lock_locked clk t st = Some (st', r)"
  shows "wl_inv st'" "current_event_num st' = current_event_num st"
    "expire_timer st' = expire_timer st" "suspend_pending st' = suspend_pending st"
    "static (cores st' k) = static (cores st k)"
proof -
  obtain st1 where "st1 = st'" "wl_inv st1" "current_event_num st1 = current_event_num st"
    "expire_timer st1 = expire_timer st" "suspend_pending st1 = suspend_pending st"
    "core (locks st1 k) = (if k \<in> set (expired_locks clk (cores st) (active_wake_locks st t))
       then off_core (cores st k) else cores st k)"
    by (rule has_wake_lock_locked_cases [OF assms(1,2), of clk]) (use assms(3) in auto)
  then show "wl_inv st'" "current_event_num st' = current_event_num st"
    "expire_timer st' = expire_timer st" "suspend_pending st' = suspend_pending st"
    "static (cores st' k) = static (cores st k)"
    by (auto simp: off_core_def)
qed

text \<open>What the walk does to a lock: nothing, or it is released because its time has run out.\<close>

definition expires_only :: "clock \<Rightarrow> core \<Rightarrow> core \<Rightarrow> bool" where
  "expires_only clk c c' \<longleftrightarrow> c' = c \<or> c_auto c \<and> left clk c \<le> 0 \<and> c' = off_core c"

lemma expires_only_permanent: "expires_only clk c c' \<Longrightarrow> \<not> c_auto c \<Longrightarrow> c' = c"
  by (auto simp: expires_only_def)

lemma has_wake_lock_other:
  assumes "wl_inv st" and "t < 2" and "has_wake_lock_locked clk t st = Some (st', r)"
  shows "expires_only clk (cores st k) (cores st' k)"
proof -
  let ?E = "expired_locks clk (cores st) (active_wake_locks st t)"
  obtain st1 where "st1 = st'"
    "core (locks st1 k) = (if k \<in> set ?E then off_core (cores st k) else cores st k)"
    by (rule has_wake_lock_locked_cases [OF assms(1,2), of clk]) (use assms(3) in auto)
  moreover have "c_auto (cores st k) \<and> left clk (cores st k) \<le> 0" if "k \<in> set ?E"
    using that by (auto simp: expired_locks_def dest: set_takeWhileD)
  ultimately show ?thesis by (auto simp: expires_only_def)
qed

text \<open>
  Acquiring a lock, taken apart: the lock becomes active and goes to the list of its type
  (\<open>mid\<close>); for a lock of type suspend the tail recomputes the timer.
\<close>

definition acquired :: "clock \<Rightarrow> u32 \<Rightarrow> bool \<Rightarrow> core \<Rightarrow> core" where
  "acquired clk timeout has_timeout c = c\<lparr>c_active := True, c_auto := has_timeout,
     c_expires := (if has_timeout then jiffies clk + timeout else LONG_MAX)\<rparr>"

lemma wake_lock_internalE:
  assumes inv: "wl_inv st" and w: "wake_lock_internal clk i timeout has_timeout st = Some st'"
  obtains mid t where
    "t < 2" "c_type (cores st i) = t" "wl_inv mid"
    "\<And>k. core (locks mid k) = (if k = i then acquired clk timeout has_timeout (cores st i) else cores st k)"
    "i \<in> set (active_wake_locks mid t)"
    "t = 1 \<Longrightarrow> active_wake_locks mid 0 = remove1 i (active_wake_locks st 0)"
    "current_event_num mid = (if t = 0 then current_event_num st + 1 else current_event_num st)"
    "expire_timer mid = expire_timer st" "suspend_pending mid = suspend_pending st"
    "(if t = 0 then
        (if has_timeout then map_option (\<lambda>(st7, expire_in). rearm clk expire_in st7)
             (has_wake_lock_locked clk 0 mid)
         else Some (rearm clk (- 1) mid)) else Some mid) = Some st'"
    "t = 0 \<Longrightarrow> active_wake_locks mid 0 = (if has_timeout then remove1 i (active_wake_locks st 0) @ [i]
       else i # remove1 i (active_wake_locks st 0))"
proof -
  define t where "t = wl_type (locks st i)"
  define woken where "woken = (t = WAKE_LOCK_SUSPEND \<and> wait_for_wakeup st)"
  define st3 where "st3 = unlink i (upd_lock i (lock_acquired clk (last_sleep_time_update st) woken)
    (if woken then st\<lparr>wait_for_wakeup := False\<rparr> else st))"
  define st4 where "st4 = (if has_timeout
    then link_active_tail t i (upd_lock i (\<lambda>l. set_flag WAKE_LOCK_AUTO_EXPIRE
           (l\<lparr>expires := jiffies clk + timeout\<rparr>)) st3)
    else link_active_head t i (upd_lock i (\<lambda>l. clear_flag WAKE_LOCK_AUTO_EXPIRE
           (l\<lparr>expires := LONG_MAX\<rparr>)) st3))"
  define st5 where "st5 = st4\<lparr>current_event_num := current_event_num st4 + 1\<rparr>"
  define st6 where "st6 = (if i = main_wake_lock then update_sleep_wait_stats_locked clk True st5
    else if \<not> wake_lock_active (locks st5 main_wake_lock)
    then update_sleep_wait_stats_locked clk False st5 else st5)"
  define mid where "mid = (if t = 0 then st6 else st4)"
  have t: "t < 2" and init: "has_flag (locks st i) WAKE_LOCK_INITIALIZED"
    and w': "(if t = WAKE_LOCK_SUSPEND then
        (if has_timeout then map_option (\<lambda>(st7, expire_in). rearm clk expire_in st7)
             (has_wake_lock_locked clk t st6)
         else Some (rearm clk (- 1) st6)) else Some st4) = Some st'"
    using w unfolding wake_lock_internal_def Let_def t_def [symmetric] woken_def [symmetric]
      st3_def [symmetric] st4_def [symmetric] st5_def [symmetric] st6_def [symmetric]
    by (auto simp: WAKE_LOCK_TYPE_COUNT_def split: if_splits)
  have c4: "cores st4 = (cores st)(i := (cores st i)\<lparr>c_active := True, c_auto := has_timeout,
      c_expires := (if has_timeout then jiffies clk + timeout else LONG_MAX)\<rparr>)"
    by (auto simp: st4_def st3_def fun_eq_iff upd_lock_def)
  have l4: "inactive_locks st4 = remove1 i (inactive_locks st)"
    "active_wake_locks st4 = (\<lambda>t. remove1 i (active_wake_locks st t))
       (t := if has_timeout then remove1 i (active_wake_locks st t) @ [i]
             else i # remove1 i (active_wake_locks st t))"
    "current_event_num st4 = current_event_num st" "expire_timer st4 = expire_timer st"
    "suspend_pending st4 = suspend_pending st"
    by (auto simp: st4_def st3_def)
  have "wl_inv st4"
    by (rule wl_inv_activate [OF inv _ _ t c4 l4(1,2)])
      (use init in \<open>auto simp: core_simps t_def\<close>)
  then have inv: "wl_inv mid" by (simp add: mid_def st6_def st5_def)
  have "cores mid = cores st4" by (simp add: mid_def st6_def st5_def)
  then have c: "core (locks mid k)
      = (if k = i then acquired clk timeout has_timeout (cores st i) else cores st k)" for k
    using fun_cong [OF c4, of k] by (simp add: fun_eq_iff acquired_def)
  have a: "active_wake_locks mid = active_wake_locks st4" by (simp add: mid_def st6_def st5_def)
  show thesis
  proof (rule that [OF t _ inv c])
    show "c_type (cores st i) = t" by (simp add: core_simps t_def)
    show "(if t = 0 then (if has_timeout then map_option (\<lambda>(st7, expire_in). rearm clk expire_in st7)
          (has_wake_lock_locked clk 0 mid) else Some (rearm clk (- 1) mid)) else Some mid) = Some st'"
      using w' by (simp add: mid_def WAKE_LOCK_SUSPEND_def split: if_splits)
  qed (auto simp: a l4 mid_def st6_def st5_def)
qed

text \<open>
  A lock of type suspend counts an event and leaves the timer armed, whatever it was before; a
  lock of type idle leaves the suspend side alone.
\<close>

lemma wake_lock_internal_ok:
  assumes inv: "wl_inv st" and w: "wake_lock_internal clk i timeout has_timeout st = Some st'"
  shows "wl_inv st'" and "\<And>k. static (cores st' k) = static (cores st k)"
    and "c_type (cores st i) = 0 \<Longrightarrow> armed (jiffies clk) st'
      \<and> current_event_num st' = current_event_num st + 1"
    and "c_type (cores st i) = 1 \<Longrightarrow> current_event_num st' = current_event_num st
      \<and> active_wake_locks st' 0 = active_wake_locks st 0
      \<and> expire_timer st' = expire_timer st \<and> suspend_pending st' = suspend_pending st
      \<and> (\<forall>k \<in> set (active_wake_locks st 0). core (locks st' k) = cores st k)"
    and "\<And>k. k \<noteq> i \<Longrightarrow> expires_only clk (cores st k) (cores st' k)"
    and "\<not> has_timeout \<Longrightarrow> core (locks st' i) = acquired clk timeout False (cores st i)"
proof -
  obtain mid t where m: "t < 2" "c_type (cores st i) = t" "wl_inv mid"
    "\<And>k. core (locks mid k) = (if k = i then acquired clk timeout has_timeout (cores st i) else cores st k)"
    "i \<in> set (active_wake_locks mid t)"
    "t = 1 \<Longrightarrow> active_wake_locks mid 0 = remove1 i (active_wake_locks st 0)"
    "current_event_num mid = (if t = 0 then current_event_num st + 1 else current_event_num st)"
    "expire_timer mid = expire_timer st" "suspend_pending mid = suspend_pending st"
    "(if t = 0 then
        (if has_timeout then map_option (\<lambda>(st7, expire_in). rearm clk expire_in st7)
             (has_wake_lock_locked clk 0 mid)
         else Some (rearm clk (- 1) mid)) else Some mid) = Some st'"
    by (rule wake_lock_internalE [OF inv w]) blast
  have static: "static (cores mid k) = static (cores st k)" for k
    by (simp add: m(4) acquired_def)
  have res: "wl_inv st' \<and> (\<forall>k. static (cores st' k) = static (cores st k))
      \<and> (t = 0 \<longrightarrow> armed (jiffies clk) st' \<and> current_event_num st' = current_event_num st + 1)
      \<and> (\<forall>k. expires_only clk (cores mid k) (cores st' k))
      \<and> (t = 1 \<or> \<not> has_timeout \<longrightarrow> locks st' = locks mid)"
  proof -
    consider (timed) "t = 0" has_timeout | (perm) "t = 0" "\<not> has_timeout" | (idle) "t = 1"
      using m(1) by linarith
    then show ?thesis
    proof cases
      case timed
      then obtain st7 r where h: "has_wake_lock_locked clk 0 mid = Some (st7, r)"
        and st': "st' = rearm clk r st7"
        using m(10) by auto
      note h7 = has_wake_lock_inv [OF m(3) _ h]
      show ?thesis
        using h7(1,2) h7(5) rearm_armed [OF m(3) h] m(7) static has_wake_lock_other [OF m(3) _ h] timed
        by (simp add: st')
    next
      case perm
      then have st': "st' = rearm clk (- 1) mid" using m(10) by simp
      have "\<not> c_auto (cores mid i)" using m(4) [of i] perm by (simp add: acquired_def)
      then have "permanent mid" using m(5) perm unfolding permanent_def by blast
      then have "armed (jiffies clk) st'" by (simp add: armed_def permanent_def st')
      with perm m(3,7) static show ?thesis by (simp add: st' expires_only_def)
    next
      case idle
      then show ?thesis using m(3,10) static by (simp add: expires_only_def)
    qed
  qed
  show "wl_inv st'" "\<And>k. static (cores st' k) = static (cores st k)" using res by blast+
  show "armed (jiffies clk) st' \<and> current_event_num st' = current_event_num st + 1"
    if "c_type (cores st i) = 0" using res that m(2) by simp
  show "expires_only clk (cores st k) (cores st' k)" if "k \<noteq> i" for k
    using res m(4) [of k] that by metis
  show "core (locks st' i) = acquired clk timeout False (cores st i)" if "\<not> has_timeout"
    using res m(4) [of i] that by simp
  assume t: "c_type (cores st i) = 1"
  then have ni: "i \<notin> set (active_wake_locks st 0)"
    using wl_inv_active [OF inv, of 0 i] by auto
  then have "k \<noteq> i" if "k \<in> set (active_wake_locks st 0)" for k using that by blast
  then show "current_event_num st' = current_event_num st
      \<and> active_wake_locks st' 0 = active_wake_locks st 0
      \<and> expire_timer st' = expire_timer st \<and> suspend_pending st' = suspend_pending st
      \<and> (\<forall>k \<in> set (active_wake_locks st 0). core (locks st' k) = cores st k)"
    using m t ni by (simp add: remove1_idem)
qed

text \<open>Releasing.\<close>

lemma wake_unlock_ok:
  assumes inv: "wl_inv st" and i: "c_init (cores st i)" and w: "wake_unlock clk i st = Some st'"
  shows "wl_inv st' \<and> (\<forall>k. static (cores st' k) = static (cores st k))
    \<and> current_event_num st' = current_event_num st
    \<and> (if c_type (cores st i) = 0 then armed (jiffies clk) st'
       else active_wake_locks st' 0 = active_wake_locks st 0
         \<and> expire_timer st' = expire_timer st \<and> suspend_pending st' = suspend_pending st
         \<and> (\<forall>k \<in> set (active_wake_locks st 0). core (locks st' k) = cores st k))
    \<and> (\<forall>k. k \<noteq> i \<longrightarrow> expires_only clk (cores st k) (cores st' k))
    \<and> core (locks st' i) = off_core (cores st i)"
proof -
  define t where "t = wl_type (locks st i)"
  define st3 where "st3 = link_inactive i (unlink i
    (upd_lock i (clear_flag (WAKE_LOCK_ACTIVE OR WAKE_LOCK_AUTO_EXPIRE))
      (upd_lock i (wake_unlock_stat_locked clk (last_sleep_time_update st) False) st)))"
  have ct: "c_type (cores st i) = t" by (simp add: core_simps t_def)
  have c3: "cores st3 = (cores st)(i := (cores st i)\<lparr>c_active := False, c_auto := False\<rparr>)"
    by (auto simp: st3_def fun_eq_iff upd_lock_def)
  have l3: "inactive_locks st3 = i # remove1 i (inactive_locks st)"
    "active_wake_locks st3 = (\<lambda>t. remove1 i (active_wake_locks st t))"
    "current_event_num st3 = current_event_num st" "expire_timer st3 = expire_timer st"
    "suspend_pending st3 = suspend_pending st"
    by (auto simp: st3_def)
  have inv3: "wl_inv st3" by (rule wl_inv_deactivate [OF inv i c3 l3(1,2)])
  have c3': "core (locks st3 k) = (if k = i then off_core (cores st i) else cores st k)" for k
    using fun_cong [OF c3, of k] by (simp add: off_core_def)
  have ci: "static (cores st3 k) = static (cores st k)" for k by (simp add: c3')
  show ?thesis
  proof (cases "t = 0")
    case True
    then obtain st4 r where h: "has_wake_lock_locked clk 0 st3 = Some (st4, r)"
      and st': "st' = (if i = main_wake_lock
        then update_sleep_wait_stats_locked clk False (rearm clk r st4) else rearm clk r st4)"
      using w unfolding wake_unlock_def Let_def t_def [symmetric] st3_def [symmetric]
      by (auto simp: WAKE_LOCK_SUSPEND_def)
    note h4 = has_wake_lock_inv [OF inv3 _ h]
    have "core (locks st' k) = core (locks st4 k)" for k
      using fun_cong [OF update_sleep_wait_stats_simps(1), of clk False "rearm clk r st4" k]
      by (simp add: st')
    moreover from this have "armed (jiffies clk) st' = armed (jiffies clk) (rearm clk r st4)"
      by (intro armed_cong) (simp_all add: st')
    moreover have ex: "expires_only clk (cores st3 k) (cores st4 k)" for k
      by (rule has_wake_lock_other [OF inv3 _ h]) simp
    moreover have "core (locks st4 i) = off_core (cores st i)"
      using ex [of i] by (simp add: c3' expires_only_def off_core_def)
    moreover have "expires_only clk (cores st k) (cores st4 k)" if "k \<noteq> i" for k
      using ex [of k] that by (simp add: c3')
    ultimately show ?thesis
      using h4(1,2) h4(5) rearm_armed [OF inv3 h] l3(3) ci True ct by (simp add: st')
  next
    case False
    then have st': "st' = st3"
      using w unfolding wake_unlock_def Let_def t_def [symmetric] st3_def [symmetric]
      by (simp add: WAKE_LOCK_SUSPEND_def)
    have "i \<notin> set (active_wake_locks st 0)"
      using inv False ct by (force simp: wl_inv_def)
    then show ?thesis
      using False st' ct l3 inv3 ci by (auto simp: remove1_idem c3' expires_only_def)
  qed
qed

text \<open>The operations hit no \<open>BUG_ON\<close> on initialised locks of the two types.\<close>

lemma has_wake_lock_locked_Some: "t < 2 \<Longrightarrow> \<exists>r. has_wake_lock_locked clk t st = Some r"
  by (simp add: has_wake_lock_locked_def WAKE_LOCK_TYPE_COUNT_def)

lemma wake_lock_internal_Some:
  "(\<exists>st'. wake_lock_internal clk i timeout has_timeout st = Some st')
   \<longleftrightarrow> c_type (cores st i) < 2 \<and> c_init (cores st i)"
  using has_wake_lock_locked_Some
  by (auto simp: wake_lock_internal_def Let_def core_simps WAKE_LOCK_TYPE_COUNT_def
      WAKE_LOCK_SUSPEND_def split: if_splits)

lemma wake_unlock_Some: "\<exists>st'. wake_unlock clk i st = Some st'"
  using has_wake_lock_locked_Some [of 0 clk]
  by (auto simp: wake_unlock_def Let_def WAKE_LOCK_SUSPEND_def split: if_splits)

text \<open>Starting and ending the life of a lock.\<close>

lemma wake_lock_init_core:
  "core (locks (wake_lock_init i t name st) k) = (if k = i then \<lparr>c_init = True, c_active = False,
     c_auto = False, c_type = unat (t AND WAKE_LOCK_TYPE_MASK), c_expires = expires (locks st i)\<rparr>
   else cores st k)"
  by (simp add: wake_lock_init_def upd_lock_def core_def has_flag_def wl_type_def wl_flag_defs
      bit.conj_disj_distrib2 and.assoc)

lemma wake_lock_init_simps [simp]:
  "inactive_locks (wake_lock_init i t name st) = i # inactive_locks st"
  "active_wake_locks (wake_lock_init i t name st) = active_wake_locks st"
  "current_event_num (wake_lock_init i t name st) = current_event_num st"
  "expire_timer (wake_lock_init i t name st) = expire_timer st"
  "suspend_pending (wake_lock_init i t name st) = suspend_pending st"
  by (simp_all add: wake_lock_init_def)

lemma wl_inv_init:
  assumes "wl_inv st" and "\<not> c_init (cores st i)"
  shows "wl_inv (wake_lock_init i t name st)"
proof -
  have ni: "i \<notin> set (inactive_locks st)" and na: "\<And>t. t < 2 \<Longrightarrow> i \<notin> set (active_wake_locks st t)"
    using assms wl_inv_inactive wl_inv_active by blast+
  have "i \<notin> set (active_wake_locks st 0)" "i \<notin> set (active_wake_locks st (Suc 0))"
    using na [of 0] na [of 1] by simp_all
  with ni na show ?thesis
    using assms(1) unfolding wl_inv_def wake_lock_init_core
    by (auto split: if_splits)
qed

lemma wake_lock_destroy_simps:
  "cores (wake_lock_destroy i st) = (cores st)(i := (cores st i)\<lparr>c_init := False\<rparr>)"
  "inactive_locks (wake_lock_destroy i st) = remove1 i (inactive_locks st)"
  "active_wake_locks (wake_lock_destroy i st) = (\<lambda>t. remove1 i (active_wake_locks st t))"
  "current_event_num (wake_lock_destroy i st) = current_event_num st"
  "expire_timer (wake_lock_destroy i st) = expire_timer st"
  "suspend_pending (wake_lock_destroy i st) = suspend_pending st"
  by (auto simp: wake_lock_destroy_def Let_def upd_lock_def fun_eq_iff)

lemma wl_inv_destroy:
  assumes "wl_inv st"
  shows "wl_inv (wake_lock_destroy i st)"
proof -
  have c: "core (locks (wake_lock_destroy i st) k)
      = (if k = i then (cores st i)\<lparr>c_init := False\<rparr> else cores st k)" for k
    using fun_cong [OF wake_lock_destroy_simps(1), of i st k] by simp
  have "distinct (active_wake_locks st 0)" "distinct (active_wake_locks st 1)"
    "distinct (inactive_locks st)"
    using assms by (auto simp: wl_inv_def)
  then show ?thesis
    using assms unfolding wl_inv_def wake_lock_destroy_simps(2,3) c
    by (auto simp: less_2_cases_iff distinct_remove1)
qed

lemma distance_expired:
  fixes x j :: u32
  assumes "unat (j - x) < 2 ^ 31"
  shows "sint (x - j) \<le> 0"
proof -
  define k where "k = unat (j - x)"
  have "x - j = - (j - x)" by simp
  also have "j - x = of_nat k" by (simp add: k_def)
  finally have "sint (x - j) = sint (word_of_int (- int k) :: u32)"
    by simp
  also have "\<dots> = - int k"
    using assms by (subst sint_sbintrunc') (simp add: signed_take_bit_int_eq_self k_def [symmetric])
  finally show ?thesis by simp
qed

lemma distance_ahead:
  fixes x j :: u32
  assumes "unat (x - j) < 2 ^ 31" and "x \<noteq> j"
  shows "0 < sint (x - j)"
proof -
  define k where "k = unat (x - j)"
  have "0 < k" unfolding k_def using assms(2) by (metis eq_iff_diff_eq_0 neq0_conv unat_eq_zero)
  moreover have "sint (x - j) = sint (word_of_int (int k) :: u32)" by (simp add: k_def)
  moreover have "\<dots> = int k"
    using assms(1) by (subst sint_sbintrunc') (simp add: signed_take_bit_int_eq_self k_def [symmetric])
  ultimately show ?thesis by simp
qed

text \<open>Expiry alone: what the walk removes never disarms the timer.\<close>

lemma has_wake_lock_armed:
  assumes inv: "wl_inv st" and h: "has_wake_lock_locked clk 0 st = Some (st', r)"
  shows "armed (jiffies clk) st \<Longrightarrow> armed (jiffies clk) st'"
    and "r = 0 \<longleftrightarrow> active_wake_locks st' 0 = []"
    and "r \<noteq> 0 \<Longrightarrow> active_wake_locks st 0 \<noteq> []"
    and "r = 0 \<longleftrightarrow> (\<forall>i \<in> set (active_wake_locks st 0). c_auto (cores st i) \<and> left clk (cores st i) \<le> 0)"
proof -
  let ?A = "active_wake_locks st 0" and ?c = "cores st"
  let ?E = "expired_locks clk ?c ?A"
  obtain st1 where s1: "has_wake_lock_locked clk 0 st = Some (st1, longest_left clk ?c (set ?A))"
      "\<And>k. core (locks st1 k) = (if k \<in> set ?E then off_core (?c k) else ?c k)"
      "active_wake_locks st1 0 = filter (\<lambda>k. k \<notin> set ?E) ?A"
      "expire_timer st1 = expire_timer st" "suspend_pending st1 = suspend_pending st"
    by (rule has_wake_lock_locked_cases [OF inv, of 0 clk]) auto
  then have eq: "st1 = st'" "r = longest_left clk ?c (set ?A)" using h by simp_all
  note st' = eq(2) s1(2-) [unfolded eq(1)]
  have E: "c_auto (?c i) \<and> left clk (?c i) \<le> 0" if "i \<in> set ?E" for i
    using that by (auto simp: expired_locks_def dest: set_takeWhileD)
  show r0: "r = 0 \<longleftrightarrow> (\<forall>i \<in> set ?A. c_auto (?c i) \<and> left clk (?c i) \<le> 0)"
    unfolding st'(1) by (simp add: longest_left_zero)
  have EA: "?E = ?A" if "r = 0"
    using that r0 by (simp add: expired_locks_def takeWhile_eq_all_conv [THEN iffD2])
  show "r = 0 \<longleftrightarrow> active_wake_locks st' 0 = []"
    unfolding st'(3) filter_empty_conv using EA E r0 by auto
  show "r \<noteq> 0 \<Longrightarrow> active_wake_locks st 0 \<noteq> []" using r0 by auto
  have perm': "permanent st'" if perm: "permanent st"
  proof -
    obtain i where i: "i \<in> set ?A" "\<not> c_auto (?c i)"
      using perm unfolding permanent_def by blast
    then have "i \<notin> set ?E" using E by blast
    then have "i \<in> set (active_wake_locks st' 0)" "\<not> c_auto (cores st' i)"
      using i st'(2,3) by simp_all
    then show ?thesis unfolding permanent_def by blast
  qed
  have "covered (jiffies clk) st' \<or> permanent st'" if cov: "covered (jiffies clk) st"
  proof -
    obtain e where e: "expire_timer st = Some e" "unat (e - jiffies clk) < 2 ^ 31"
      "\<forall>i \<in> set ?A. unat (e - c_expires (?c i)) < 2 ^ 31"
      "(\<exists>i \<in> set ?A. c_expires (?c i) = e) \<or> ?A = [] \<and> e = jiffies clk"
      using cov unfolding covered_def by blast
    have "(\<exists>i \<in> set (active_wake_locks st' 0). c_expires (cores st' i) = e)
        \<or> active_wake_locks st' 0 = [] \<and> e = jiffies clk" if np: "\<not> permanent st"
    proof (cases "e = jiffies clk")
      case True
      then have "left clk (?c i) \<le> 0" if "i \<in> set ?A" for i
        unfolding left_def using e(3) that by (intro distance_expired) simp
      then have "r = 0" using r0 np by (auto simp: permanent_def)
      then show ?thesis using EA True st'(3) by simp
    next
      case False
      then obtain i where i: "i \<in> set ?A" "c_expires (?c i) = e" using e(4) by blast
      have "0 < left clk (?c i)" unfolding left_def i(2) using e(2) False by (rule distance_ahead)
      then have "i \<notin> set ?E" using E by force
      then show ?thesis using i st'(2,3) by auto
    qed
    then show ?thesis using e(1-3) perm' unfolding covered_def st'(4)
      by (cases "permanent st") (simp_all add: st'(2,3))
  qed
  moreover have "active_wake_locks st' 0 = []" if "?A = []" using that st'(3) by simp
  ultimately show "armed (jiffies clk) st \<Longrightarrow> armed (jiffies clk) st'"
    unfolding armed_def st'(5) using perm' by blast
qed

lemma distance_tick:
  fixes e j :: u32
  assumes "unat (e - j) < 2 ^ 31" and "e \<noteq> j"
  shows "unat (e - (j + 1)) = unat (e - j) - 1"
proof -
  have "e - (j + 1) = (e - j) - 1" by simp
  moreover have "e - j \<noteq> 0" using assms(2) by simp
  ultimately show ?thesis by (metis unat_minus_one)
qed

end
