(* ===== verification/Wakelock_Props.thy ===== *)
theory Wakelock_Props
  imports Wakelock_Lists
begin

text \<open>
  The wake locks as a running system: a step relation over the operations of
  \<open>kernel/power/wakelock.c\<close>, the passing of time and the two halves of \<open>suspend\<close>, and the
  properties that hold in every reachable state.
\<close>

section \<open>Steps\<close>

text \<open>
  A step is labelled with the lock it operates on. A configuration is the state of the module, the value of \<open>jiffies\<close>, and, while the suspend
  work is inside \<open>pm_suspend\<close>, its \<open>entry_event_num\<close>. A timer that is due runs before the next
  tick (the kernel's timer softirq). Callers initialise a lock before they use it, destroy only
  released locks and never the three locks of the module; the fields written by user space and
  by the resume path of the platform change at any time. (\<open>evdev_release\<close> in
  \<open>drivers/input/evdev.c\<close> destroys the lock of a client that may still hold it; what then
  happens is shown apart, at the end of this theory.)
\<close>

record wl_sys =
  sys_wl :: wl_state
  sys_jiffies :: u32
  sys_running :: "u32 option"

inductive time_step :: "wl_sys \<Rightarrow> wl_sys \<Rightarrow> bool" where
  tick: "expire_timer (sys_wl s) \<noteq> Some (sys_jiffies s) \<Longrightarrow>
    time_step s (s\<lparr>sys_jiffies := sys_jiffies s + 1\<rparr>)"
| fire: "expire_timer (sys_wl s) = Some (sys_jiffies s) \<Longrightarrow> jiffies clk = sys_jiffies s \<Longrightarrow>
    expire_wake_locks clk ((sys_wl s)\<lparr>expire_timer := None\<rparr>) = Some st \<Longrightarrow>
    time_step s (s\<lparr>sys_wl := st\<rparr>)"

inductive wl_step :: "nat option \<Rightarrow> wl_sys \<Rightarrow> wl_sys \<Rightarrow> bool" where
  time: "time_step s s' \<Longrightarrow> wl_step None s s'"
| init: "\<not> c_init (cores (sys_wl s) i) \<Longrightarrow>
    wl_step (Some i) s (s\<lparr>sys_wl := wake_lock_init i t name (sys_wl s)\<rparr>)"
| destroy: "\<not> c_active (cores (sys_wl s) i) \<Longrightarrow>
    i \<notin> {main_wake_lock, unknown_wakeup, deleted_wake_locks} \<Longrightarrow>
    wl_step (Some i) s (s\<lparr>sys_wl := wake_lock_destroy i (sys_wl s)\<rparr>)"
| lock: "jiffies clk = sys_jiffies s \<Longrightarrow> wake_lock clk i (sys_wl s) = Some st \<Longrightarrow>
    wl_step (Some i) s (s\<lparr>sys_wl := st\<rparr>)"
| lock_timeout: "jiffies clk = sys_jiffies s \<Longrightarrow>
    wake_lock_timeout clk i timeout (sys_wl s) = Some st \<Longrightarrow> wl_step (Some i) s (s\<lparr>sys_wl := st\<rparr>)"
| unlock: "jiffies clk = sys_jiffies s \<Longrightarrow> c_init (cores (sys_wl s) i) \<Longrightarrow>
    wake_unlock clk i (sys_wl s) = Some st \<Longrightarrow> wl_step (Some i) s (s\<lparr>sys_wl := st\<rparr>)"
| idle_check: "jiffies clk = sys_jiffies s \<Longrightarrow>
    has_wake_lock clk WAKE_LOCK_IDLE (sys_wl s) = Some (st, r) \<Longrightarrow> wl_step None s (s\<lparr>sys_wl := st\<rparr>)"
| suspend_late: "jiffies clk = sys_jiffies s \<Longrightarrow>
    power_suspend_late clk (sys_wl s) = Some (st, ret) \<Longrightarrow> wl_step None s (s\<lparr>sys_wl := st\<rparr>)"
| suspend_start: "suspend_pending (sys_wl s) \<Longrightarrow> sys_running s = None \<Longrightarrow>
    jiffies clk = sys_jiffies s \<Longrightarrow>
    suspend_enter clk ((sys_wl s)\<lparr>suspend_pending := False\<rparr>) = Some (st, run) \<Longrightarrow>
    wl_step None s (s\<lparr>sys_wl := st, sys_running := run\<rparr>)"
| suspend_end: "sys_running s = Some entry \<Longrightarrow> jiffies clk = sys_jiffies s \<Longrightarrow>
    suspend_exit clk entry ret (sys_wl s) = Some st \<Longrightarrow>
    wl_step (Some unknown_wakeup) s (s\<lparr>sys_wl := st, sys_running := None\<rparr>)"
| environment: "wl_step None s (s\<lparr>sys_wl := (sys_wl s)\<lparr>requested_suspend_state := a, debug_mask := b,
    wregs := c\<rparr>\<rparr>)"

inductive reachable :: "wl_sys \<Rightarrow> bool" where
  boot: "wakelocks_init clk 0 0 True wl_boot = Some (st, True, 0) \<Longrightarrow>
    reachable \<lparr>sys_wl = st, sys_jiffies = jiffies clk, sys_running = None\<rparr>"
| step: "reachable s \<Longrightarrow> wl_step i s s' \<Longrightarrow> reachable s'"

section \<open>The system invariant\<close>

definition sys_inv :: "wl_sys \<Rightarrow> bool" where
  "sys_inv s \<longleftrightarrow> wl_inv (sys_wl s) \<and> c_init (cores (sys_wl s) unknown_wakeup)
     \<and> c_type (cores (sys_wl s) unknown_wakeup) = 0
     \<and> (armed (sys_jiffies s) (sys_wl s)
        \<or> active_wake_locks (sys_wl s) 0 = []
          \<and> sys_running s = Some (current_event_num (sys_wl s)))"

text \<open>The invariant as a proof rule: the two ways to keep the disjunction.\<close>

lemma sys_invI:
  assumes "wl_inv st" and "static (cores st unknown_wakeup) = (True, 0)"
    and "armed j st \<or> active_wake_locks st 0 = [] \<and> run = Some (current_event_num st)"
  shows "sys_inv \<lparr>sys_wl = st, sys_jiffies = j, sys_running = run\<rparr>"
  using assms by (simp add: sys_inv_def static_def)

lemma sys_invD:
  assumes "sys_inv s"
  shows "wl_inv (sys_wl s)" "static (cores (sys_wl s) unknown_wakeup) = (True, 0)"
    "armed (sys_jiffies s) (sys_wl s) \<or> active_wake_locks (sys_wl s) 0 = []
       \<and> sys_running s = Some (current_event_num (sys_wl s))"
  using assms by (simp_all add: sys_inv_def static_def)

lemma static_type: "static c = (a, t) \<Longrightarrow> c_type c = t" "static c = (a, t) \<Longrightarrow> c_init c = a"
  by (simp_all add: static_def)

lemma armed_upd [simp]:
  "armed j (st\<lparr>wait_for_wakeup := b\<rparr>) = armed j st"
  "armed j (st\<lparr>requested_suspend_state := x, debug_mask := y, wregs := z\<rparr>) = armed j st"
  by (rule armed_cong; simp)+

lemma armed_tick:
  assumes "armed j st" and "expire_timer st \<noteq> Some j"
  shows "armed (j + 1) st"
proof -
  have "covered (j + 1) st" if cov: "covered j st"
  proof -
    obtain e where e: "expire_timer st = Some e" "unat (e - j) < 2 ^ 31"
      "\<forall>i \<in> set (active_wake_locks st 0). unat (e - c_expires (cores st i)) < 2 ^ 31"
      "(\<exists>i \<in> set (active_wake_locks st 0). c_expires (cores st i) = e)
        \<or> active_wake_locks st 0 = [] \<and> e = j"
      using cov unfolding covered_def by blast
    then have "unat (e - (j + 1)) < 2 ^ 31" "e \<noteq> j"
      using distance_tick [of e j] assms(2) by (metis less_imp_diff_less, auto)
    with e show ?thesis unfolding covered_def by blast
  qed
  with assms(1) show ?thesis by (auto simp: armed_def)
qed

text \<open>When the timer fires, every held lock with a timeout has expired.\<close>

lemma fire_expires_all:
  assumes inv: "wl_inv st" and e: "expire_timer st = Some (jiffies clk)"
    and a: "armed (jiffies clk) st \<or> active_wake_locks st 0 = []"
    and w: "expire_wake_locks clk (st\<lparr>expire_timer := None\<rparr>) = Some st'"
  shows "wl_inv st'" "static (cores st' k) = static (cores st k)" "armed (jiffies clk) st'"
    "current_event_num st' = current_event_num st"
    "permanent st \<or> active_wake_locks st' 0 = [] \<and> suspend_pending st'"
proof -
  let ?st = "st\<lparr>expire_timer := None\<rparr>"
  obtain st1 r where h: "has_wake_lock_locked clk 0 ?st = Some (st1, r)"
    and st': "st' = (if r = 0 then queue_suspend_work st1 else st1)"
    using w by (auto simp: expire_wake_locks_def WAKE_LOCK_SUSPEND_def)
  have inv': "wl_inv ?st" using inv by simp
  note h1 = has_wake_lock_inv [OF inv' _ h] and h2 = has_wake_lock_armed [OF inv' h]
  show "wl_inv st'" "current_event_num st' = current_event_num st"
    "static (cores st' k) = static (cores st k)"
    using h1(1,2) h1(5) [of k] by (simp_all add: st' queue_suspend_work_def)
  have r0: "r = 0" if "\<not> permanent st"
  proof -
    have "c_auto (cores st i) \<and> left clk (cores st i) \<le> 0" if i: "i \<in> set (active_wake_locks st 0)" for i
    proof -
      have "covered (jiffies clk) st"
        using a i \<open>\<not> permanent st\<close> by (auto simp: armed_def)
      then have "unat (jiffies clk - c_expires (cores st i)) < 2 ^ 31"
        using e i by (auto simp: covered_def)
      then have "left clk (cores st i) \<le> 0"
        unfolding left_def by (rule distance_expired)
      then show ?thesis using i \<open>\<not> permanent st\<close> by (auto simp: permanent_def)
    qed
    then show ?thesis using h2(4) by simp
  qed
  have q: "active_wake_locks st' 0 = [] \<and> suspend_pending st'" if "r = 0"
    using that h2(2) by (simp add: st' queue_suspend_work_def)
  then show "permanent st \<or> active_wake_locks st' 0 = [] \<and> suspend_pending st'"
    using r0 by blast
  show "armed (jiffies clk) st'"
  proof (cases "r = 0")
    case True
    then show ?thesis using q by (simp add: armed_def)
  next
    case False
    then have "permanent ?st" using r0 by (auto simp: permanent_def)
    then show ?thesis using h2(1) False by (simp add: armed_def st')
  qed
qed

text \<open>Every operation keeps the invariant.\<close>

lemma lock_keeps_inv:
  assumes "sys_inv s" and "jiffies clk = sys_jiffies s"
    and "wake_lock_internal clk i timeout has_timeout (sys_wl s) = Some st"
  shows "sys_inv (s\<lparr>sys_wl := st\<rparr>)"
proof -
  note s = sys_invD [OF assms(1)] and ok = wake_lock_internal_ok [OF sys_invD(1) [OF assms(1)] assms(3)]
  have "c_type (cores (sys_wl s) i) < 2"
    using wake_lock_internal_Some [of clk i timeout has_timeout "sys_wl s"] assms(3) by blast
  then consider "c_type (cores (sys_wl s) i) = 0" | "c_type (cores (sys_wl s) i) = 1"
    by linarith
  then have "armed (sys_jiffies s) st
    \<or> active_wake_locks st 0 = [] \<and> sys_running s = Some (current_event_num st)"
  proof cases
    case 1
    then show ?thesis using ok(3) assms(2) by simp
  next
    case 2
    then have "armed (sys_jiffies s) st = armed (sys_jiffies s) (sys_wl s)"
      using ok(4) by (intro armed_cong) simp_all
    then show ?thesis using ok(4) [OF 2] s(3) by auto
  qed
  then show ?thesis
    using ok(1) ok(2) [of unknown_wakeup] s(2) by (simp add: sys_inv_def static_def)
qed

lemma unlock_keeps_inv:
  assumes "sys_inv s" and "jiffies clk = sys_jiffies s" and "c_init (cores (sys_wl s) i)"
    and "wake_unlock clk i (sys_wl s) = Some st"
  shows "sys_inv (s\<lparr>sys_wl := st\<rparr>)"
proof -
  note s = sys_invD [OF assms(1)] and ok = wake_unlock_ok [OF sys_invD(1) [OF assms(1)] assms(3,4)]
  have "armed (sys_jiffies s) st
    \<or> active_wake_locks st 0 = [] \<and> sys_running s = Some (current_event_num st)"
  proof (cases "c_type (cores (sys_wl s) i) = 0")
    case True
    then show ?thesis using ok assms(2) by simp
  next
    case False
    then have "armed (sys_jiffies s) st = armed (sys_jiffies s) (sys_wl s)"
      using ok by (intro armed_cong) simp_all
    then show ?thesis using ok False s(3) by auto
  qed
  then show ?thesis
    using ok s(2) by (simp add: sys_inv_def static_def)
qed

lemma idle_check_keeps_inv:
  assumes "sys_inv s" and h: "has_wake_lock_locked clk 1 (sys_wl s) = Some (st, r)"
  shows "sys_inv (s\<lparr>sys_wl := st\<rparr>)"
proof -
  note s = sys_invD [OF assms(1)]
  let ?E = "expired_locks clk (cores (sys_wl s)) (active_wake_locks (sys_wl s) 1)"
  note h1 = has_wake_lock_inv [OF s(1) _ h]
  obtain st1 where st1: "st1 = st"
    "\<And>k. core (locks st1 k) = (if k \<in> set ?E then off_core (cores (sys_wl s) k) else cores (sys_wl s) k)"
    "\<And>u. u < 2 \<Longrightarrow> active_wake_locks st1 u
       = filter (\<lambda>k. k \<notin> set ?E) (active_wake_locks (sys_wl s) u)"
    by (rule has_wake_lock_locked_cases [OF s(1), of 1 clk]) (use h in auto)
  have "set ?E \<subseteq> set (active_wake_locks (sys_wl s) 1)"
    by (auto simp: expired_locks_def dest: set_takeWhileD)
  then have disj: "k \<notin> set ?E" if "k \<in> set (active_wake_locks (sys_wl s) 0)" for k
    using that wl_inv_active [OF s(1), of 0 k] wl_inv_active [OF s(1), of 1 k] by auto
  then have "filter (\<lambda>k. k \<notin> set ?E) (active_wake_locks (sys_wl s) 0) = active_wake_locks (sys_wl s) 0"
    by (simp add: filter_id_conv)
  then have a: "active_wake_locks st 0 = active_wake_locks (sys_wl s) 0" using st1 by simp
  have "armed (sys_jiffies s) st = armed (sys_jiffies s) (sys_wl s)"
    by (rule armed_cong) (use a h1(3,4) st1(1,2) disj in auto)
  then show ?thesis
    using h1(1,2) h1(5) [of unknown_wakeup] s(2,3) a by (auto simp: sys_inv_def static_def)
qed

lemma time_step_keeps_inv:
  assumes "time_step s s'" and "sys_inv s"
  shows "sys_inv s'"
  using assms
proof cases
  case tick
  then show ?thesis using assms(2) armed_tick by (auto simp: sys_inv_def)
next
  case (fire clk st)
  note s = sys_invD [OF assms(2)]
  have "armed (jiffies clk) (sys_wl s) \<or> active_wake_locks (sys_wl s) 0 = []"
    using s(3) fire by auto
  note f = fire_expires_all [OF s(1) _ this fire(4)]
  show ?thesis
    using f(1) f(2) [of unknown_wakeup] f(3,4) s(2) fire by (auto simp: sys_inv_def static_def)
qed

lemma suspend_end_keeps_inv:
  assumes inv: "sys_inv s" and "sys_running s = Some entry" and j: "jiffies clk = sys_jiffies s"
    and w: "suspend_exit clk entry ret (sys_wl s) = Some st"
  shows "sys_inv (s\<lparr>sys_wl := st, sys_running := None\<rparr>)"
proof -
  note s = sys_invD [OF inv]
  define st1 where "st1 = suspend_report (sys_wl s)"
  have st1: "locks st1 = locks (sys_wl s)" "inactive_locks st1 = inactive_locks (sys_wl s)"
    "active_wake_locks st1 = active_wake_locks (sys_wl s)"
    "current_event_num st1 = current_event_num (sys_wl s)"
    "expire_timer st1 = expire_timer (sys_wl s)" "suspend_pending st1 = suspend_pending (sys_wl s)"
    by (auto simp: st1_def suspend_report_def Let_def)
  have arm1: "armed j' st1 = armed j' (sys_wl s)" for j'
    by (rule armed_cong) (simp_all add: st1)
  have inv1: "wl_inv st1" using s(1) wl_inv_cong [of st1 "sys_wl s"] by (simp add: st1)
  obtain st2 where st2: "wl_inv st2" "static (cores st2 unknown_wakeup) = (True, 0)"
      "armed (sys_jiffies s) st2 \<or> current_event_num st2 = entry"
      "(if current_event_num st2 = entry then wake_lock_timeout clk unknown_wakeup (HZ div 2) st2
        else Some st2) = Some st"
  proof (cases "debug_mask (sys_wl s) AND DEBUG_EXIT_SUSPEND \<noteq> 0 \<and> ret \<noteq> 0")
    case True
    then obtain st2 where l: "wake_lock_internal clk unknown_wakeup (2 * HZ) True st1 = Some st2"
      and e: "(if current_event_num st2 = entry
        then wake_lock_timeout clk unknown_wakeup (HZ div 2) st2 else Some st2) = Some st"
      using w by (auto simp: suspend_exit_def Let_def wake_lock_timeout_def st1_def [symmetric]
          bind_eq_Some_conv)
    note ok = wake_lock_internal_ok [OF inv1 l]
    show thesis
      by (rule that [of st2])
        (use ok(1) ok(2) [of unknown_wakeup] ok(3) e s(2) st1(1) j in \<open>auto simp: static_def\<close>)
  next
    case False
    define st2 where "st2 = (if debug_mask (sys_wl s) AND DEBUG_EXIT_SUSPEND \<noteq> 0 then st1 else sys_wl s)"
    have e: "(if current_event_num st2 = entry
        then wake_lock_timeout clk unknown_wakeup (HZ div 2) st2 else Some st2) = Some st"
      using w False
      by (auto simp: suspend_exit_def Let_def st1_def [symmetric] st2_def split: if_splits)
    show thesis
      by (rule that [of st2, OF _ _ _ e]) (use s st1 inv1 arm1 assms(2) in \<open>auto simp: st2_def\<close>)
  qed
  show ?thesis
  proof (cases "current_event_num st2 = entry")
    case True
    then have l: "wake_lock_internal clk unknown_wakeup (HZ div 2) True st2 = Some st"
      using st2(4) by (simp add: wake_lock_timeout_def)
    note ok = wake_lock_internal_ok [OF st2(1) l]
    show ?thesis
      using ok(1) ok(2) [of unknown_wakeup] ok(3) st2(2) j by (auto simp: sys_inv_def static_def)
  next
    case False
    then show ?thesis using st2 by (auto simp: sys_inv_def static_def)
  qed
qed

lemma suspend_start_keeps_inv:
  assumes inv: "sys_inv s" and "sys_running s = None" and j: "jiffies clk = sys_jiffies s"
    and w: "suspend_enter clk ((sys_wl s)\<lparr>suspend_pending := False\<rparr>) = Some (st, run)"
  shows "sys_inv (s\<lparr>sys_wl := st, sys_running := run\<rparr>)"
proof -
  note s = sys_invD [OF inv]
  let ?st = "(sys_wl s)\<lparr>suspend_pending := False\<rparr>"
  obtain r where h: "has_wake_lock_locked clk 0 ?st = Some (st, r)"
    and run: "run = (if r \<noteq> 0 then None else Some (current_event_num st))"
    using w by (auto simp: suspend_enter_def has_wake_lock_def WAKE_LOCK_SUSPEND_def split: if_splits)
  have inv': "wl_inv ?st" using s(1) by simp
  note h1 = has_wake_lock_inv [OF inv' _ h] and h2 = has_wake_lock_armed [OF inv' h]
  have "armed (sys_jiffies s) st" if "r \<noteq> 0"
  proof -
    have "armed (sys_jiffies s) ?st"
      using h2(3) [OF that] s(3) assms(2) by (auto simp: armed_def permanent_def covered_def)
    then show ?thesis using h2(1) j by simp
  qed
  then show ?thesis
    using h1(1) h1(5) [of unknown_wakeup] h2(2) s(2) by (auto simp: sys_inv_def static_def run)
qed

lemma wl_step_keeps_inv:
  assumes "wl_step lb s s'" and inv: "sys_inv s"
  shows "sys_inv s'"
  using assms(1)
proof cases
  case time
  then show ?thesis using time_step_keeps_inv inv by blast
next
  case (init i t name)
  have "wl_inv (wake_lock_init i t name (sys_wl s))"
    using init(3) sys_invD(1) [OF inv] by (intro wl_inv_init) auto
  moreover have "i \<noteq> unknown_wakeup" using init(3) sys_invD(2) [OF inv] by (auto simp: static_def)
  moreover have "armed (sys_jiffies s) (wake_lock_init i t name (sys_wl s))
      = armed (sys_jiffies s) (sys_wl s)"
    using init(3) wl_inv_active [OF sys_invD(1) [OF inv], of 0]
    by (intro armed_cong) (auto simp: wake_lock_init_core)
  ultimately show ?thesis
    using inv init(2) by (auto simp: sys_inv_def wake_lock_init_core)
next
  case (destroy i)
  let ?st = "wake_lock_destroy i (sys_wl s)"
  have c: "core (locks ?st k) = (if k = i then (cores (sys_wl s) i)\<lparr>c_init := False\<rparr>
      else cores (sys_wl s) k)" for k
    using fun_cong [OF wake_lock_destroy_simps(1), of i "sys_wl s" k] by simp
  have ni: "i \<notin> set (active_wake_locks (sys_wl s) 0)"
    using destroy(3) wl_inv_active [OF sys_invD(1) [OF inv], of 0 i] by auto
  then have a: "active_wake_locks ?st 0 = active_wake_locks (sys_wl s) 0"
    by (simp add: wake_lock_destroy_simps remove1_idem)
  have "armed (sys_jiffies s) ?st = armed (sys_jiffies s) (sys_wl s)"
    by (rule armed_cong) (use a c ni in \<open>auto simp: wake_lock_destroy_simps\<close>)
  then show ?thesis
    using inv destroy(2,4) wl_inv_destroy [of "sys_wl s" i] a c [of unknown_wakeup]
    by (auto simp: sys_inv_def wake_lock_destroy_simps(4))
next
  case (lock clk i st)
  then show ?thesis using lock_keeps_inv [OF inv] by (auto simp: wake_lock_def)
next
  case (lock_timeout clk i timeout st)
  then show ?thesis using lock_keeps_inv [OF inv] by (auto simp: wake_lock_timeout_def)
next
  case (unlock clk i st)
  then show ?thesis using unlock_keeps_inv [OF inv] by auto
next
  case (idle_check clk st r)
  then show ?thesis
    using idle_check_keeps_inv [OF inv] by (auto simp: has_wake_lock_def WAKE_LOCK_IDLE_def)
next
  case (suspend_late clk st ret)
  then obtain st1 r where h: "has_wake_lock_locked clk 0 (sys_wl s) = Some (st1, r)"
    and st: "st = st1\<lparr>wait_for_wakeup := True\<rparr>"
    by (auto simp: power_suspend_late_def has_wake_lock_def WAKE_LOCK_SUSPEND_def)
  note i = sys_invD [OF inv]
  note h1 = has_wake_lock_inv [OF i(1) _ h] and h2 = has_wake_lock_armed [OF i(1) h]
  have "r = 0" if "active_wake_locks (sys_wl s) 0 = []" using h2(3) that by blast
  then show ?thesis
    using h1(1,2) h1(5) [of unknown_wakeup] h2(1,2) i(2,3) suspend_late(2,3)
    by (auto simp: sys_inv_def static_def st)
next
  case (suspend_start clk st run)
  then show ?thesis using suspend_start_keeps_inv [OF inv] by blast
next
  case (suspend_end entry clk ret st)
  then show ?thesis using suspend_end_keeps_inv [OF inv] by blast
next
  case (environment c b a)
  have "wl_inv ((sys_wl s)\<lparr>requested_suspend_state := a, debug_mask := b, wregs := c\<rparr>)
      = wl_inv (sys_wl s)"
    by (rule wl_inv_cong) simp_all
  then show ?thesis using inv environment by (simp add: sys_inv_def)
qed

lemma boot_inv:
  assumes "wakelocks_init clk 0 0 True wl_boot = Some (st, True, 0)"
  shows "sys_inv \<lparr>sys_wl = st, sys_jiffies = jiffies clk, sys_running = None\<rparr>"
    and "static (cores st main_wake_lock) = (True, 0)"
    and "c_active (cores st main_wake_lock) \<and> \<not> c_auto (cores st main_wake_lock)"
proof -
  define st0 where "st0 = wl_boot\<lparr>active_wake_locks := (\<lambda>_. [])\<rparr>"
  define st2 where "st2 = wake_lock_init main_wake_lock (of_nat WAKE_LOCK_SUSPEND) ''main''
    (wake_lock_init deleted_wake_locks (of_nat WAKE_LOCK_SUSPEND) ''deleted_wake_locks'' st0)"
  obtain st3 where l: "wake_lock_internal clk main_wake_lock 0 False st2 = Some st3"
    and st: "st = wake_lock_init unknown_wakeup (of_nat WAKE_LOCK_SUSPEND) ''unknown_wakeups'' st3"
    using assms by (auto simp: wakelocks_init_def Let_def st0_def st2_def wake_lock_def)
  have i0: "\<not> c_init (cores st0 k)" for k
    by (simp add: st0_def wl_boot_def core_def has_flag_def)
  have "wl_inv st0" using i0 by (simp add: wl_inv_def) (simp add: st0_def wl_boot_def)
  then have inv2: "wl_inv st2"
    unfolding st2_def by (intro wl_inv_init) (auto simp: i0 wake_lock_init_core main_wake_lock_def
        deleted_wake_locks_def)
  note ok = wake_lock_internal_ok [OF inv2 l]
  have "c_type (cores st2 main_wake_lock) = 0"
    by (simp add: st2_def wake_lock_init_core WAKE_LOCK_SUSPEND_def)
  then have a3: "armed (jiffies clk) st3" using ok(3) by simp
  have "static (cores st3 unknown_wakeup) = static (cores st2 unknown_wakeup)" by (rule ok(2))
  then have i3: "\<not> c_init (cores st3 unknown_wakeup)"
    using i0 by (simp add: static_def st2_def wake_lock_init_core main_wake_lock_def
        deleted_wake_locks_def unknown_wakeup_def)
  have "wl_inv st" unfolding st by (rule wl_inv_init [OF ok(1) i3])
  moreover have "unknown_wakeup \<notin> set (active_wake_locks st3 0)"
    using i3 wl_inv_active [OF ok(1), of 0] by auto
  then have "armed (jiffies clk) st = armed (jiffies clk) st3"
    by (intro armed_cong) (auto simp: st wake_lock_init_core)
  ultimately show "sys_inv \<lparr>sys_wl = st, sys_jiffies = jiffies clk, sys_running = None\<rparr>"
    using a3 by (simp add: sys_inv_def st wake_lock_init_core WAKE_LOCK_SUSPEND_def)
  show "static (cores st main_wake_lock) = (True, 0)"
    "c_active (cores st main_wake_lock) \<and> \<not> c_auto (cores st main_wake_lock)"
    using ok(6) by (simp_all add: st wake_lock_init_core main_wake_lock_def unknown_wakeup_def
        static_def acquired_def st2_def WAKE_LOCK_SUSPEND_def)
qed

lemma reachable_inv: "reachable s \<Longrightarrow> sys_inv s"
  by (induction rule: reachable.induct) (auto intro: boot_inv wl_step_keeps_inv)

section \<open>Time alone leads to the next attempt to suspend\<close>

lemma expire_wake_locks_Some: "\<exists>st'. expire_wake_locks clk st = Some st'"
  using has_wake_lock_locked_Some [of 0 clk st]
  by (auto simp: expire_wake_locks_def WAKE_LOCK_SUSPEND_def)

definition some_clock :: "u32 \<Rightarrow> clock" where
  "some_clock j = \<lparr>jiffies = j, ktime_get = 0, coarse_time = 0, jiffies_to_ns = (\<lambda>_. 0)\<rparr>"

lemma time_leads_to_suspend:
  assumes "sys_inv s" and "\<not> permanent (sys_wl s)" and "expire_timer (sys_wl s) = Some e"
    and "unat (e - sys_jiffies s) = n" and "covered (sys_jiffies s) (sys_wl s)"
  shows "\<exists>s'. time_step\<^sup>*\<^sup>* s s' \<and> active_wake_locks (sys_wl s') 0 = []
    \<and> suspend_pending (sys_wl s') \<and> sys_running s' = sys_running s"
  using assms
proof (induction n arbitrary: s)
  case 0
  then have e: "e = sys_jiffies s" by (metis eq_iff_diff_eq_0 unat_eq_zero)
  let ?clk = "some_clock (sys_jiffies s)"
  obtain st where st: "expire_wake_locks ?clk ((sys_wl s)\<lparr>expire_timer := None\<rparr>) = Some st"
    using expire_wake_locks_Some by blast
  have "time_step s (s\<lparr>sys_wl := st\<rparr>)"
    by (rule time_step.fire [OF _ _ st]) (use 0 e in \<open>auto simp: some_clock_def\<close>)
  moreover have "active_wake_locks st 0 = [] \<and> suspend_pending st"
    using fire_expires_all(5) [OF sys_invD(1) [OF 0(1)] _ _ st] 0 e
    by (auto simp: some_clock_def armed_def)
  ultimately show ?case by (intro exI [of _ "s\<lparr>sys_wl := st\<rparr>"]) auto
next
  case (Suc n)
  let ?s = "s\<lparr>sys_jiffies := sys_jiffies s + 1\<rparr>"
  have ne: "e \<noteq> sys_jiffies s" using Suc.prems(4) by auto
  have lt: "unat (e - sys_jiffies s) < 2 ^ 31" using Suc.prems(3,5) by (auto simp: covered_def)
  have step: "time_step s ?s" by (rule time_step.tick) (use Suc.prems(3) ne in auto)
  have d: "unat (e - (sys_jiffies s + 1)) = n"
    using distance_tick [OF lt ne] Suc.prems(4) by simp
  then have "covered (sys_jiffies s + 1) (sys_wl s)"
    using Suc.prems(3,4,5) lt ne by (auto simp: covered_def)
  then obtain s' where "time_step\<^sup>*\<^sup>* ?s s'" "active_wake_locks (sys_wl s') 0 = []"
    "suspend_pending (sys_wl s')" "sys_running s' = sys_running s"
    using Suc.IH [of ?s] time_step_keeps_inv [OF step Suc.prems(1)] Suc.prems(2,3) d by auto
  then show ?case using converse_rtranclp_into_rtranclp [of time_step, OF step] by blast
qed

section \<open>Properties\<close>

text \<open>A run for the witnesses: at boot, \<open>unknown_wakeup\<close> is taken for 64 jiffies and then the
  main lock is released.\<close>

definition demo_boot :: wl_state where
  "demo_boot = fst (the (wakelocks_init (some_clock 0) 0 0 True wl_boot))"

definition demo_timeout :: wl_state where
  "demo_timeout = the (wake_lock_timeout (some_clock 0) unknown_wakeup 64 demo_boot)"

definition demo_released :: wl_state where
  "demo_released = the (wake_unlock (some_clock 0) main_wake_lock demo_timeout)"

lemmas demo_defs = demo_boot_def demo_timeout_def demo_released_def

lemma demo_results:
  "map_option snd (wakelocks_init (some_clock 0) 0 0 True wl_boot) = Some (True, 0)"
  "\<not> Option.is_none (wake_lock_timeout (some_clock 0) unknown_wakeup 64 demo_boot)"
  "\<not> Option.is_none (wake_unlock (some_clock 0) main_wake_lock demo_timeout)"
  by code_simp+

lemma demo_lists:
  "active_wake_locks demo_timeout 0 = [0, 1]" "active_wake_locks demo_released 0 = [1]"
  "expire_timer demo_released = Some 64" "\<not> suspend_pending demo_released"
  by code_simp+

lemma demo_reachable:
  "reachable \<lparr>sys_wl = demo_boot, sys_jiffies = 0, sys_running = None\<rparr>"
  "reachable \<lparr>sys_wl = demo_released, sys_jiffies = 0, sys_running = None\<rparr>"
proof -
  obtain st where st: "wakelocks_init (some_clock 0) 0 0 True wl_boot = Some (st, True, 0)"
    using demo_results(1) by (auto simp del: fun_upd_apply)
  have j: "jiffies (some_clock 0) = 0" by (simp add: some_clock_def)
  from reachable.boot [OF st]
  show b: "reachable \<lparr>sys_wl = demo_boot, sys_jiffies = 0, sys_running = None\<rparr>"
    by (simp add: demo_boot_def st j)
  have "wake_lock_timeout (some_clock 0) unknown_wakeup 64 demo_boot = Some demo_timeout"
    using demo_results(2) by (auto simp: demo_timeout_def Option.is_none_def)
  then have "wl_step (Some unknown_wakeup) \<lparr>sys_wl = demo_boot, sys_jiffies = 0, sys_running = None\<rparr>
      \<lparr>sys_wl = demo_timeout, sys_jiffies = 0, sys_running = None\<rparr>"
    using wl_step.lock_timeout [of "some_clock 0" "\<lparr>sys_wl = demo_boot, sys_jiffies = 0, sys_running = None\<rparr>"] j
    by simp
  with b have t: "reachable \<lparr>sys_wl = demo_timeout, sys_jiffies = 0, sys_running = None\<rparr>"
    by (rule reachable.step)
  then have inv: "wl_inv demo_timeout" using reachable_inv sys_invD(1) by fastforce
  have u: "wake_unlock (some_clock 0) main_wake_lock demo_timeout = Some demo_released"
    using demo_results(3) by (auto simp: demo_released_def Option.is_none_def)
  have "c_init (cores demo_timeout main_wake_lock)"
    using wl_inv_active [OF inv, of 0 0] demo_lists(1) by (simp add: main_wake_lock_def)
  then have "wl_step (Some main_wake_lock) \<lparr>sys_wl = demo_timeout, sys_jiffies = 0, sys_running = None\<rparr>
      \<lparr>sys_wl = demo_released, sys_jiffies = 0, sys_running = None\<rparr>"
    using wl_step.unlock [of "some_clock 0" "\<lparr>sys_wl = demo_timeout, sys_jiffies = 0, sys_running = None\<rparr>"] j u
    by simp
  with t show "reachable \<lparr>sys_wl = demo_released, sys_jiffies = 0, sys_running = None\<rparr>"
    by (rule reachable.step)
qed

lemma demo_inv: "wl_inv demo_released" "wl_inv demo_timeout" "wl_inv demo_boot"
proof -
  show r: "wl_inv demo_released" using demo_reachable(2) reachable_inv sys_invD(1) by fastforce
  show "wl_inv demo_boot" using demo_reachable(1) reachable_inv sys_invD(1) by fastforce
  then show "wl_inv demo_timeout"
  proof (rule wake_lock_internal_ok(1))
    show "wake_lock_internal (some_clock 0) unknown_wakeup 64 True demo_boot = Some demo_timeout"
      using demo_results(2)
      by (auto simp: demo_timeout_def Option.is_none_def wake_lock_timeout_def)
  qed
qed

text \<open>
  C18. The question whether a wake lock of a type is held: under the list invariant the walk
  answers \<open>-1\<close> if a lock without timeout is held, and otherwise the longest remaining time in
  jiffies, 0 when all held locks have expired. It releases the expired locks in front of the first
  lock without timeout, no others: they move to the inactive list and lose their flags, every
  other lock and the other list stay as they are, and the invariant is kept. So when the answer
  is \<open>-1\<close>, expired locks behind the first lock without timeout stay on the list; when it is not,
  exactly the locks with time left stay held, in their order.
\<close>

theorem has_wake_lock_spec:
  assumes "wl_inv st" and "t < 2"
    and "moved = filter (\<lambda>i. time_left clk (locks st i) \<le> 0)
      (takeWhile (\<lambda>i. has_flag (locks st i) WAKE_LOCK_AUTO_EXPIRE) (active_wake_locks st t))"
  shows "\<exists>st' r. has_wake_lock_locked clk t st = Some (st', r) \<and> wl_inv st'
    \<and> (r = - 1 \<longleftrightarrow> (\<exists>i \<in> set (active_wake_locks st t). \<not> has_flag (locks st i) WAKE_LOCK_AUTO_EXPIRE))
    \<and> (r \<noteq> - 1 \<longrightarrow>
         r = Max (insert 0 ((\<lambda>i. time_left clk (locks st i)) ` set (active_wake_locks st t)))
       \<and> active_wake_locks st' t = filter (\<lambda>i. time_left clk (locks st i) > 0) (active_wake_locks st t)
       \<and> (\<forall>i \<in> set (active_wake_locks st t). wake_lock_active (locks st' i) \<longleftrightarrow> time_left clk (locks st i) > 0))
    \<and> (\<forall>u < 2. active_wake_locks st' u = filter (\<lambda>i. i \<notin> set moved) (active_wake_locks st u))
    \<and> inactive_locks st' = rev moved @ inactive_locks st
    \<and> (\<forall>i. if i \<in> set moved then \<not> wake_lock_active (locks st' i) else locks st' i = locks st i)"
proof -
  let ?A = "active_wake_locks st t" and ?c = "cores st"
  let ?E = "expired_locks clk ?c ?A" and ?r = "longest_left clk ?c (set ?A)"
  have moved: "moved = ?E" unfolding assms(3) expired_locks_def time_left_core auto_core ..
  obtain st' where st': "has_wake_lock_locked clk t st = Some (st', ?r)" "wl_inv st'"
      "\<And>k. core (locks st' k) = (if k \<in> set ?E then off_core (?c k) else ?c k)"
      "\<And>u. u < 2 \<Longrightarrow> active_wake_locks st' u = filter (\<lambda>k. k \<notin> set ?E) (active_wake_locks st u)"
      "inactive_locks st' = rev ?E @ inactive_locks st"
    by (rule has_wake_lock_locked_cases [OF assms(1,2), of clk]) auto
  have r: "?r = - 1 \<longleftrightarrow> (\<exists>i \<in> set ?A. \<not> c_auto (?c i))"
  proof (cases "\<forall>i \<in> set ?A. c_auto (?c i)")
    case True
    have "0 \<le> Max (insert 0 ((\<lambda>i. left clk (?c i)) ` set ?A))" by (rule Max_ge) auto
    then have "Max (insert 0 ((\<lambda>i. left clk (?c i)) ` set ?A)) \<noteq> - 1" by linarith
    with True show ?thesis by (auto simp: longest_left_def)
  qed (auto simp: longest_left_def)
  have rest: "?r = Max (insert 0 ((\<lambda>i. left clk (?c i)) ` set ?A))
      \<and> active_wake_locks st' t = filter (\<lambda>i. left clk (?c i) > 0) ?A
      \<and> (\<forall>i \<in> set ?A. c_active (core (locks st' i)) \<longleftrightarrow> left clk (?c i) > 0)"
    if "\<forall>i \<in> set ?A. c_auto (?c i)"
  proof -
    have E: "?E = filter (\<lambda>i. left clk (?c i) \<le> 0) ?A"
      using that by (simp add: expired_locks_def takeWhile_eq_all_conv [THEN iffD2])
    have "filter (\<lambda>k. k \<notin> set ?E) ?A = filter (\<lambda>i. left clk (?c i) > 0) ?A"
      by (rule filter_cong) (auto simp: E)
    moreover have "c_active (core (locks st' i)) \<longleftrightarrow> left clk (?c i) > 0" if "i \<in> set ?A" for i
      using that st'(3) [of i] wl_inv_active [OF assms(1,2), of i] by (auto simp: E off_core_def)
    ultimately show ?thesis using that st'(4) [OF assms(2)] by (simp add: longest_left_def)
  qed
  have "if i \<in> set ?E then \<not> c_active (core (locks st' i)) else locks st' i = locks st i" for i
    using st'(1) st'(3) [of i] fold_expire_other [of i ?E clk st] has_wake_lock_locked_eq [OF assms(1,2), of clk]
    by (simp add: off_core_def)
  then show ?thesis
    using st'(1,2,4,5) r rest
    unfolding moved time_left_core auto_core wake_lock_active_def core_sel(2) [symmetric]
    by blast
qed

theorem has_wake_lock_spec_witness:
  "\<exists>st' r. has_wake_lock_locked (some_clock 7) 0 demo_released = Some (st', r) \<and> wl_inv st'
    \<and> (r \<noteq> - 1 \<longrightarrow> active_wake_locks st' 0 =
         filter (\<lambda>i. time_left (some_clock 7) (locks demo_released i) > 0) [1])"
  using has_wake_lock_spec [OF demo_inv(1) _ refl, of 0 "some_clock 7"] demo_lists(2) by fastforce

text \<open>
  C14. The module never loses track of the next attempt to suspend, as long as callers initialise
  a lock before they use it and destroy only released locks. In every reachable state the lists
  are consistent, and unless the suspend work is running, a lock without timeout is held, or the
  expire timer is set to the latest expiry of the held locks, less than half the range of jiffies
  ahead (or it is due right now and no lock is held any more), or no lock is held and the suspend
  work is queued.
\<close>

theorem wakelock_never_stuck:
  assumes "reachable s"
  shows "wl_inv (sys_wl s) \<and> (sys_running s = None \<longrightarrow> armed (sys_jiffies s) (sys_wl s))"
  using sys_invD [OF reachable_inv [OF assms]] by auto

theorem wakelock_never_stuck_witness:
  "wl_inv demo_released \<and> armed 0 demo_released"
  using wakelock_never_stuck [OF demo_reachable(2)] by simp

text \<open>
  C16. Locks with a timeout do not keep the system awake: in a reachable state in which no lock
  without timeout is held and the suspend work is not running, the passing of time alone
  (ticks and the expiry of the timer) ends in a state in which no lock is held and the suspend
  work is queued.
\<close>

theorem wakelock_timeouts_end:
  assumes "reachable s" and "sys_running s = None"
    and "\<forall>i \<in> set (active_wake_locks (sys_wl s) 0). has_flag (locks (sys_wl s) i) WAKE_LOCK_AUTO_EXPIRE"
  shows "\<exists>s'. time_step\<^sup>*\<^sup>* s s' \<and> active_wake_locks (sys_wl s') 0 = [] \<and> suspend_pending (sys_wl s')"
proof -
  note inv = reachable_inv [OF assms(1)]
  have np: "\<not> permanent (sys_wl s)" using assms(3) by (auto simp: permanent_def core_simps)
  then consider "covered (sys_jiffies s) (sys_wl s)"
    | "active_wake_locks (sys_wl s) 0 = []" "suspend_pending (sys_wl s)"
    using sys_invD(3) [OF inv] assms(2) by (auto simp: armed_def)
  then show ?thesis
  proof cases
    case 1
    then obtain e where "expire_timer (sys_wl s) = Some e" by (auto simp: covered_def)
    then show ?thesis using time_leads_to_suspend [OF inv np _ refl 1] by blast
  qed blast
qed

theorem wakelock_timeouts_end_witness:
  "\<exists>s'. time_step\<^sup>*\<^sup>* \<lparr>sys_wl = demo_released, sys_jiffies = 0, sys_running = None\<rparr> s'
    \<and> active_wake_locks (sys_wl s') 0 = [] \<and> suspend_pending (sys_wl s')"
proof -
  have "has_flag (locks demo_released 1) WAKE_LOCK_AUTO_EXPIRE" by code_simp
  then show ?thesis
    by (intro wakelock_timeouts_end [OF demo_reachable(2)]) (simp_all add: demo_lists)
qed

text \<open>
  C19. The decision to suspend. The suspend work goes on to \<open>pm_suspend\<close> exactly when every held
  lock has a timeout and has expired, and then no lock is held any more; the last check with
  interrupts off answers \<open>EAGAIN\<close> exactly when this is not so.
\<close>

theorem suspend_only_unlocked:
  assumes "wl_inv st"
    and "ready = (\<forall>i \<in> set (active_wake_locks st 0).
      has_flag (locks st i) WAKE_LOCK_AUTO_EXPIRE \<and> time_left clk (locks st i) \<le> 0)"
  shows "\<exists>st' run. suspend_enter clk st = Some (st', run)
      \<and> run = (if ready then Some (current_event_num st) else None)
      \<and> (ready \<longleftrightarrow> active_wake_locks st' 0 = [])
    \<and> (\<exists>st2. power_suspend_late clk st = Some (st2, if ready then Inr () else Inl EAGAIN)
        \<and> wait_for_wakeup st2)"
proof -
  obtain st' r where h: "has_wake_lock_locked clk 0 st = Some (st', r)"
    using has_wake_lock_locked_Some [of 0 clk st] by auto
  note h2 = has_wake_lock_armed [OF assms(1) h] and h1 = has_wake_lock_inv [OF assms(1) _ h]
  have "ready \<longleftrightarrow> r = 0"
    unfolding h2(4) assms(2) time_left_core auto_core ..
  then show ?thesis
    using h h2(2) h1(2) by (simp add: suspend_enter_def power_suspend_late_def has_wake_lock_def
        WAKE_LOCK_SUSPEND_def)
qed

theorem suspend_only_unlocked_witness:
  "\<exists>st'. suspend_enter (some_clock 7) demo_released = Some (st', None)"
proof -
  have "time_left (some_clock 7) (locks demo_released 1) > 0" by code_simp
  then show ?thesis
    using suspend_only_unlocked [OF demo_inv(1) refl, of "some_clock 7"] demo_lists(2) by auto
qed

text \<open>
  C40. Destroying a held lock is not the same as releasing it. Take a lock of type suspend, without
  timeout, in a state in which no lock is held and the suspend work is not queued. Releasing it
  queues the suspend work. Destroying it instead leaves no lock held, no timer set and no work
  queued: nothing leads to an attempt to suspend.
\<close>

theorem destroy_held_lock_stuck:
  assumes "wl_inv st" and "active_wake_locks st 0 = []" and "\<not> suspend_pending st"
    and "has_flag (locks st i) WAKE_LOCK_INITIALIZED" and "wl_type (locks st i) = WAKE_LOCK_SUSPEND"
  shows "\<exists>st1. wake_lock clk i st = Some st1 \<and> active_wake_locks st1 0 = [i]
    \<and> (\<exists>st2. wake_unlock clk2 i st1 = Some st2 \<and> active_wake_locks st2 0 = [] \<and> suspend_pending st2)
    \<and> active_wake_locks (wake_lock_destroy i st1) 0 = [] \<and> expire_timer (wake_lock_destroy i st1) = None
    \<and> \<not> suspend_pending (wake_lock_destroy i st1) \<and> \<not> armed j (wake_lock_destroy i st1)"
proof -
  have c: "c_type (cores st i) = 0" "c_init (cores st i)"
    using assms(4,5) by (simp_all add: core_simps WAKE_LOCK_SUSPEND_def)
  then obtain st1 where w: "wake_lock_internal clk i 0 False st = Some st1"
    using wake_lock_internal_Some [of clk i 0 False st] by auto
  then obtain mid where m: "active_wake_locks mid 0 = [i]" "suspend_pending mid = suspend_pending st"
      "st1 = rearm clk (- 1) mid" "c_type (core (locks mid i)) = 0"
    by (rule wake_lock_internalE [OF assms(1)]) (use assms(2) c in \<open>auto simp: acquired_def\<close>)
  have t: "wl_type (locks st1 i) = 0" using m(3,4) by (simp add: core_simps)
  define st3 where "st3 = link_inactive i (unlink i
    (upd_lock i (clear_flag (WAKE_LOCK_ACTIVE OR WAKE_LOCK_AUTO_EXPIRE))
      (upd_lock i (wake_unlock_stat_locked clk2 (last_sleep_time_update st1) False) st1)))"
  have "active_wake_locks st3 0 = []" by (simp add: st3_def m(1,3))
  then have "\<exists>st2. wake_unlock clk2 i st1 = Some st2 \<and> active_wake_locks st2 0 = [] \<and> suspend_pending st2"
    unfolding wake_unlock_def Let_def t st3_def [symmetric]
    by (simp add: WAKE_LOCK_SUSPEND_def has_wake_lock_locked_def WAKE_LOCK_TYPE_COUNT_def rearm_fields)
  moreover have "wake_lock clk i st = Some st1" using w by (simp add: wake_lock_def)
  moreover have "active_wake_locks st1 0 = [i]" "expire_timer st1 = None" "\<not> suspend_pending st1"
    using m assms(3) by (simp_all add: rearm_fields)
  ultimately show ?thesis
    by (simp add: wake_lock_destroy_simps armed_def permanent_def covered_def)
qed

text \<open>The state for the example: the last lock has been released and the suspend work has started.\<close>

definition demo_idle :: wl_state where
  "demo_idle = (the (wake_unlock (some_clock 0) main_wake_lock demo_boot))\<lparr>suspend_pending := False\<rparr>"

theorem destroy_held_lock_stuck_witness:
  "\<exists>st1. wake_lock (some_clock 1) 0 demo_idle = Some st1 \<and> active_wake_locks st1 0 = [0]
    \<and> \<not> armed 1 (wake_lock_destroy 0 st1)"
proof -
  have "\<not> Option.is_none (wake_unlock (some_clock 0) main_wake_lock demo_boot)" by code_simp
  then obtain st where st: "wake_unlock (some_clock 0) main_wake_lock demo_boot = Some st"
    by (auto simp: Option.is_none_def)
  have "has_flag (locks demo_boot 0) WAKE_LOCK_INITIALIZED" by code_simp
  then have "wl_inv st"
    using wake_unlock_ok [OF demo_inv(3) _ st] by (simp add: core_simps main_wake_lock_def)
  then have inv: "wl_inv demo_idle" by (simp add: demo_idle_def st)
  have "active_wake_locks demo_idle 0 = []" "\<not> suspend_pending demo_idle"
    "has_flag (locks demo_idle 0) WAKE_LOCK_INITIALIZED" "wl_type (locks demo_idle 0) = WAKE_LOCK_SUSPEND"
    by code_simp+
  then show ?thesis
    using destroy_held_lock_stuck [OF inv, of 0 "some_clock 1" "some_clock 1" 1] by blast
qed

end
