(* ===== verification/Earlysuspend.thy ===== *)
theory Earlysuspend
  imports Wakelock_Props
begin

text \<open>
  Early suspend and late resume, \<open>kernel/power/earlysuspend.c\<close>: the two-bit state machine
  between the requests of user space and the two work items, the list of handlers ordered by
  level, and the main wake lock that keeps the system awake unless user space asked to sleep.

  Handlers have identities; a call of a handler is recorded in \<open>calls\<close> (latest first). The
  body of \<open>early_suspend\<close> is two steps, because requests may come between its two critical
  sections. The calls on \<open>main_wake_lock\<close> are those of theory Wakelock.
\<close>

section \<open>State and operations\<close>

definition SUSPEND_REQUESTED :: u32 where
  "SUSPEND_REQUESTED = 1"

definition SUSPENDED :: u32 where
  "SUSPENDED = 2"

definition SUSPEND_REQUESTED_AND_SUSPENDED :: u32 where
  "SUSPEND_REQUESTED_AND_SUSPENDED = SUSPEND_REQUESTED OR SUSPENDED"

definition PM_SUSPEND_ON :: u32 where
  "PM_SUSPEND_ON = 0"

record early_suspend_handler =
  level :: int
  has_suspend :: bool
  has_resume :: bool

datatype handler_call = Suspend nat | Resume nat

record es_state =
  handler :: "nat \<Rightarrow> early_suspend_handler"
  early_suspend_handlers :: "nat list"
  es_state :: u32
  early_suspend_pending :: bool
  late_resume_pending :: bool
  calls :: "handler_call list"
  lcd_enabled :: bool
  es_wl :: wl_state

text \<open>The walk of \<open>register_early_suspend\<close> stops at the first handler of a higher level.\<close>

fun insert_handler :: "(nat \<Rightarrow> int) \<Rightarrow> nat \<Rightarrow> nat list \<Rightarrow> nat list" where
  "insert_handler lv h [] = [h]"
| "insert_handler lv h (e # es) = (if lv e > lv h then h # e # es else e # insert_handler lv h es)"

definition call_suspend :: "nat \<Rightarrow> es_state \<Rightarrow> es_state" where
  "call_suspend h es = (if has_suspend (handler es h) then es\<lparr>calls := Suspend h # calls es\<rparr> else es)"

definition call_resume :: "nat \<Rightarrow> es_state \<Rightarrow> es_state" where
  "call_resume h es = (if has_resume (handler es h) then es\<lparr>calls := Resume h # calls es\<rparr> else es)"

definition register_early_suspend :: "nat \<Rightarrow> es_state \<Rightarrow> es_state" where
  "register_early_suspend h es =
     (let es1 = es\<lparr>early_suspend_handlers :=
        insert_handler (level \<circ> handler es) h (early_suspend_handlers es)\<rparr>
      in if es_state es1 AND SUSPENDED \<noteq> 0 then call_suspend h es1 else es1)"

definition unregister_early_suspend :: "nat \<Rightarrow> es_state \<Rightarrow> es_state" where
  "unregister_early_suspend h es =
     es\<lparr>early_suspend_handlers := remove1 h (early_suspend_handlers es)\<rparr>"

definition early_suspend_begin :: "es_state \<Rightarrow> es_state" where
  "early_suspend_begin es =
     (if es_state es = SUSPEND_REQUESTED
      then fold call_suspend (early_suspend_handlers es) (es\<lparr>es_state := es_state es OR SUSPENDED\<rparr>)
      else es)"

definition early_suspend_end :: "clock \<Rightarrow> es_state \<Rightarrow> es_state option" where
  "early_suspend_end clk es =
     (if es_state es = SUSPEND_REQUESTED_AND_SUSPENDED
      then map_option (\<lambda>wl. es\<lparr>es_wl := wl\<rparr>) (wake_unlock clk main_wake_lock (es_wl es))
      else Some es)"

definition late_resume :: "es_state \<Rightarrow> es_state" where
  "late_resume es =
     (if es_state es = SUSPENDED
      then fold call_resume (rev (early_suspend_handlers es))
             (es\<lparr>es_state := es_state es AND NOT SUSPENDED\<rparr>)
      else es)"

definition request_suspend_state :: "clock \<Rightarrow> u32 \<Rightarrow> es_state \<Rightarrow> es_state option" where
  "request_suspend_state clk new_state es =
     (let old_sleep = es_state es AND SUSPEND_REQUESTED \<noteq> 0
      in map_option (\<lambda>es1. es1\<lparr>es_wl := (es_wl es1)\<lparr>requested_suspend_state := new_state\<rparr>\<rparr>)
       (if \<not> old_sleep \<and> new_state \<noteq> PM_SUSPEND_ON
        then Some (es\<lparr>es_state := es_state es OR SUSPEND_REQUESTED, early_suspend_pending := True\<rparr>)
        else if old_sleep \<and> new_state = PM_SUSPEND_ON
        then map_option (\<lambda>wl. es\<lparr>es_state := es_state es AND NOT SUSPEND_REQUESTED, es_wl := wl,
                late_resume_pending := True, lcd_enabled := True\<rparr>)
               (wake_lock clk main_wake_lock (es_wl es))
        else Some es))"

definition get_suspend_state :: "es_state \<Rightarrow> u32" where
  "get_suspend_state es = requested_suspend_state (es_wl es)"

section \<open>The order of the handlers\<close>

lemma set_insert_handler [simp]: "set (insert_handler lv h es) = insert h (set es)"
  by (induction es) auto

lemma sorted_insert_handler:
  "sorted_wrt (\<lambda>a b. lv a \<le> lv b) es \<Longrightarrow> sorted_wrt (\<lambda>a b. lv a \<le> lv b) (insert_handler lv h es)"
  by (induction es) auto

text \<open>On a sorted list the new handler comes after all handlers of its level.\<close>

lemma insert_handler_eq:
  "sorted_wrt (\<lambda>a b. lv a \<le> lv b) es
   \<Longrightarrow> insert_handler lv h es = filter (\<lambda>e. lv e \<le> lv h) es @ h # filter (\<lambda>e. lv e > lv h) es"
proof (induction es)
  case (Cons e es)
  show ?case
  proof (cases "lv e > lv h")
    case True
    then have "\<forall>x \<in> set es. lv x > lv h" using Cons.prems by force
    then have "filter (\<lambda>e. lv e \<le> lv h) es = []" "filter (\<lambda>e. lv e > lv h) es = es"
      by (auto simp: filter_empty_conv filter_id_conv)
    with True show ?thesis by simp
  qed (use Cons in simp)
qed simp

lemma distinct_insert_handler:
  "h \<notin> set es \<Longrightarrow> distinct es \<Longrightarrow> distinct (insert_handler lv h es)"
  by (induction es) auto

lemma fold_call_suspend:
  "fold call_suspend hs es
   = es\<lparr>calls := rev (map Suspend (filter (\<lambda>h. has_suspend (handler es h)) hs)) @ calls es\<rparr>"
  by (induction hs arbitrary: es) (auto simp: call_suspend_def)

lemma fold_call_resume:
  "fold call_resume hs es
   = es\<lparr>calls := rev (map Resume (filter (\<lambda>h. has_resume (handler es h)) hs)) @ calls es\<rparr>"
  by (induction hs arbitrary: es) (auto simp: call_resume_def)

section \<open>Other locks do not touch the main lock\<close>

lemma suspend_exit_other:
  assumes "wl_inv st" and "suspend_exit clk entry ret st = Some st'" and "k \<noteq> unknown_wakeup"
    and "\<not> c_auto (cores st k)"
  shows "cores st' k = cores st k"
proof -
  define st1 where "st1 = suspend_report st"
  have st1: "locks st1 = locks st" "inactive_locks st1 = inactive_locks st"
    "active_wake_locks st1 = active_wake_locks st"
    by (auto simp: st1_def suspend_report_def Let_def)
  have inv1: "wl_inv st1" using assms(1) wl_inv_cong [of st1 st] by (simp add: st1)
  have step: "wl_inv b \<and> cores b k = cores a k"
    if "wl_inv a" "wake_lock_timeout clk unknown_wakeup d a = Some b" "\<not> c_auto (cores a k)" for a b d
    using wake_lock_internal_ok(1,5) [OF that(1), of clk unknown_wakeup d True b] that assms(3)
      expires_only_permanent [OF _ that(3)]
    by (auto simp: wake_lock_timeout_def)
  obtain st2 where st2: "(if debug_mask st AND DEBUG_EXIT_SUSPEND \<noteq> 0
      then (if ret \<noteq> 0 then wake_lock_timeout clk unknown_wakeup (2 * HZ) st1 else Some st1)
      else Some st) = Some st2"
    "(if current_event_num st2 = entry then wake_lock_timeout clk unknown_wakeup (HZ div 2) st2
      else Some st2) = Some st'"
    using assms(2) unfolding suspend_exit_def Let_def st1_def [symmetric] bind_eq_Some_conv
    by blast
  have "wl_inv st2 \<and> cores st2 k = cores st k"
    using st2(1) step [OF inv1, of "2 * HZ" st2] assms(1,4) inv1 st1(1) by (auto split: if_splits)
  with st2(2) show ?thesis using step [of st2] assms(4) by (auto split: if_splits)
qed

lemma wl_step_other:
  assumes "wl_step lb s s'" and inv: "sys_inv s" and "lb \<noteq> Some k" and "k \<noteq> unknown_wakeup"
    and perm: "\<not> c_auto (cores (sys_wl s) k)"
  shows "cores (sys_wl s') k = cores (sys_wl s) k"
proof -
  note i = sys_invD(1) [OF inv] and only = expires_only_permanent [OF _ perm]
  have walk: "cores st k = cores (sys_wl s) k"
    if "has_wake_lock_locked clk t st0 = Some (st, r)" "t < 2" "wl_inv st0"
      "cores st0 k = cores (sys_wl s) k" for clk t st0 st r
    using has_wake_lock_other [OF that(3,2,1), of k] that(4) only by simp
  show ?thesis
    using assms(1)
  proof cases
    case time
    from time(2) show ?thesis
    proof cases
      case (fire clk st)
      then show ?thesis
        using walk [of clk 0 "(sys_wl s)\<lparr>expire_timer := None\<rparr>"] i
        by (auto simp: expire_wake_locks_def WAKE_LOCK_SUSPEND_def queue_suspend_work_def)
    qed simp
  next
    case (destroy i)
    then show ?thesis
      using assms(3) fun_cong [OF wake_lock_destroy_simps(1), of i "sys_wl s" k] by auto
  next
    case (lock clk i st)
    then show ?thesis
      using wake_lock_internal_ok(5) [OF sys_invD(1) [OF inv], of clk i 0 False st k] only [of clk] assms(3)
      by (auto simp: wake_lock_def)
  next
    case (lock_timeout clk i timeout st)
    then show ?thesis
      using wake_lock_internal_ok(5) [OF sys_invD(1) [OF inv], of clk i timeout True st k] only assms(3)
      by (auto simp: wake_lock_timeout_def)
  next
    case (unlock clk j st)
    then show ?thesis using wake_unlock_ok [OF i, of j clk st] only [of clk] assms(3) by auto
  next
    case (idle_check clk st r)
    then show ?thesis using walk [of clk 1 "sys_wl s" st r] i
      by (simp add: has_wake_lock_def WAKE_LOCK_IDLE_def)
  next
    case (suspend_late clk st ret)
    then show ?thesis using walk [of clk 0 "sys_wl s"] i
      by (auto simp: power_suspend_late_def has_wake_lock_def WAKE_LOCK_SUSPEND_def)
  next
    case (suspend_start clk st run)
    then show ?thesis using walk [of clk 0 "(sys_wl s)\<lparr>suspend_pending := False\<rparr>"] i
      by (auto simp: suspend_enter_def has_wake_lock_def WAKE_LOCK_SUSPEND_def split: if_splits)
  next
    case (suspend_end entry clk ret st)
    then show ?thesis using suspend_exit_other [OF i _ assms(4) perm] by simp
  qed (use assms(3) in \<open>auto simp: wake_lock_init_core\<close>)
qed

section \<open>The system\<close>

text \<open>
  Early suspend on top of the wake locks. The steps of theory Wakelock\_Props are steps here
  unless they operate on the main lock, which only this component uses. Work items run one at a
  time; \<open>early_running\<close> marks the time between the two critical sections of \<open>early_suspend\<close>.
\<close>

record es_sys =
  es :: es_state
  es_jiffies :: u32
  pm_running :: "u32 option"
  early_running :: bool

definition wls :: "es_sys \<Rightarrow> wl_sys" where
  "wls s = \<lparr>sys_wl = es_wl (es s), sys_jiffies = es_jiffies s, sys_running = pm_running s\<rparr>"

inductive es_step :: "es_sys \<Rightarrow> es_sys \<Rightarrow> bool" where
  wakelock: "wl_step lb (wls s) w \<Longrightarrow> lb \<noteq> Some main_wake_lock \<Longrightarrow>
    es_step s (s\<lparr>es := (es s)\<lparr>es_wl := sys_wl w\<rparr>, es_jiffies := sys_jiffies w,
      pm_running := sys_running w\<rparr>)"
| register: "h \<notin> set (early_suspend_handlers (es s)) \<Longrightarrow>
    es_step s (s\<lparr>es := register_early_suspend h (es s)\<rparr>)"
| unregister: "es_step s (s\<lparr>es := unregister_early_suspend h (es s)\<rparr>)"
| request: "jiffies clk = es_jiffies s \<Longrightarrow>
    request_suspend_state clk new_state (es s) = Some e \<Longrightarrow> es_step s (s\<lparr>es := e\<rparr>)"
| early_begin: "early_suspend_pending (es s) \<Longrightarrow> \<not> early_running s \<Longrightarrow>
    es_step s (s\<lparr>es := early_suspend_begin ((es s)\<lparr>early_suspend_pending := False\<rparr>),
      early_running := True\<rparr>)"
| early_end: "early_running s \<Longrightarrow> jiffies clk = es_jiffies s \<Longrightarrow>
    early_suspend_end clk (es s) = Some e \<Longrightarrow> es_step s (s\<lparr>es := e, early_running := False\<rparr>)"
| late: "late_resume_pending (es s) \<Longrightarrow> \<not> early_running s \<Longrightarrow>
    es_step s (s\<lparr>es := late_resume ((es s)\<lparr>late_resume_pending := False\<rparr>)\<rparr>)"

definition es_boot :: "(nat \<Rightarrow> early_suspend_handler) \<Rightarrow> wl_state \<Rightarrow> es_state" where
  "es_boot hs wl = \<lparr>handler = hs, early_suspend_handlers = [], es_state = 0,
     early_suspend_pending = False, late_resume_pending = False, calls = [], lcd_enabled = False,
     es_wl = wl\<rparr>"

inductive es_reachable :: "es_sys \<Rightarrow> bool" where
  boot: "wakelocks_init clk 0 0 True wl_boot = Some (wl, True, 0) \<Longrightarrow>
    es_reachable \<lparr>es = es_boot hs wl, es_jiffies = jiffies clk, pm_running = None,
      early_running = False\<rparr>"
| step: "es_reachable s \<Longrightarrow> es_step s s' \<Longrightarrow> es_reachable s'"

section \<open>The invariant\<close>

definition requested :: "es_state \<Rightarrow> bool" where
  "requested e \<longleftrightarrow> es_state e = 1 \<or> es_state e = 3"

definition main_held :: "es_state \<Rightarrow> bool" where
  "main_held e \<longleftrightarrow> wake_lock_active (locks (es_wl e) main_wake_lock)"

text \<open>The main lock is initialised, of type suspend, and never has a timeout.\<close>

definition main_ok :: "wl_state \<Rightarrow> bool" where
  "main_ok st \<longleftrightarrow> static (cores st main_wake_lock) = (True, 0)
     \<and> \<not> c_auto (cores st main_wake_lock)"

text \<open>The last call made to a handler was \<open>suspend\<close>.\<close>

fun last_suspend :: "nat \<Rightarrow> handler_call list \<Rightarrow> bool" where
  "last_suspend h [] = False"
| "last_suspend h (c # cs) =
     (if c = Suspend h then True else if c = Resume h then False else last_suspend h cs)"

definition handlers_off :: "es_state \<Rightarrow> bool" where
  "handlers_off e \<longleftrightarrow> (\<forall>h \<in> set (early_suspend_handlers e).
     has_suspend (handler e h) \<longrightarrow> last_suspend h (calls e))"

definition handlers_ok :: "es_state \<Rightarrow> bool" where
  "handlers_ok e \<longleftrightarrow> distinct (early_suspend_handlers e)
     \<and> sorted_wrt (\<lambda>a b. level (handler e a) \<le> level (handler e b)) (early_suspend_handlers e)
     \<and> (es_state e = 2 \<or> es_state e = 3 \<longrightarrow> handlers_off e)"

text \<open>The protocol between the requests, the two work items and the main lock.\<close>

definition protocol :: "bool \<Rightarrow> es_state \<Rightarrow> bool" where
  "protocol run e \<longleftrightarrow> es_state e \<in> {0, 1, 2, 3}
     \<and> (\<not> main_held e \<longrightarrow> es_state e = 3)
     \<and> (requested e \<longrightarrow> es_state e = 3 \<and> \<not> main_held e \<or> early_suspend_pending e
          \<or> run \<and> es_state e = 3)
     \<and> (es_state e = 2 \<longrightarrow> late_resume_pending e)"

definition es_inv :: "es_sys \<Rightarrow> bool" where
  "es_inv s \<longleftrightarrow> sys_inv (wls s) \<and> main_ok (es_wl (es s)) \<and> handlers_ok (es s)
     \<and> protocol (early_running s) (es s)"

text \<open>Each part of the invariant only looks at some fields.\<close>

lemma handlers_ok_cong:
  assumes "handler e = handler e'" "early_suspend_handlers e = early_suspend_handlers e'"
    "es_state e = es_state e'" "calls e = calls e'"
  shows "handlers_ok e = handlers_ok e'"
  using assms by (simp add: handlers_ok_def handlers_off_def)

lemma protocol_cong:
  assumes "es_state e = es_state e'" "main_held e = main_held e'"
    "early_suspend_pending e = early_suspend_pending e'"
    "late_resume_pending e = late_resume_pending e'"
  shows "protocol r e = protocol r e'"
  using assms by (simp add: protocol_def requested_def)

lemma main_held_core: "main_held e = c_active (cores (es_wl e) main_wake_lock)"
  by (simp add: main_held_def wake_lock_active_def core_def)

lemma wakelock_keeps_inv:
  assumes inv: "es_inv s" and st: "wl_step lb (wls s) w" and "lb \<noteq> Some main_wake_lock"
  shows "es_inv (s\<lparr>es := (es s)\<lparr>es_wl := sys_wl w\<rparr>, es_jiffies := sys_jiffies w,
      pm_running := sys_running w\<rparr>)"
proof -
  let ?e = "(es s)\<lparr>es_wl := sys_wl w\<rparr>"
  have i: "sys_inv (wls s)" "main_ok (es_wl (es s))" "handlers_ok (es s)"
    "protocol (early_running s) (es s)"
    using inv by (simp_all add: es_inv_def)
  have wl: "sys_wl (wls s) = es_wl (es s)" by (simp add: wls_def)
  have c: "cores (sys_wl w) main_wake_lock = cores (es_wl (es s)) main_wake_lock"
    using wl_step_other [OF st i(1) assms(3)] i(2)
    by (simp add: wl main_ok_def main_wake_lock_def unknown_wakeup_def)
  have "handlers_ok ?e = handlers_ok (es s)" by (rule handlers_ok_cong) simp_all
  moreover have "protocol r ?e = protocol r (es s)" for r
    by (rule protocol_cong) (simp_all add: main_held_core c)
  moreover have "sys_inv w" by (rule wl_step_keeps_inv [OF st i(1)])
  then have "sys_inv \<lparr>sys_wl = sys_wl w, sys_jiffies = sys_jiffies w, sys_running = sys_running w\<rparr>"
    by (simp add: sys_inv_def)
  ultimately show ?thesis
    using i c by (simp add: es_inv_def wls_def main_ok_def)
qed

lemma handlers_off_fold:
  "handlers_off (fold call_suspend (early_suspend_handlers e) e)"
proof -
  have "last_suspend h (rev (map Suspend hs) @ cs)" if "h \<in> set hs" for h hs cs
    using that by (induction hs arbitrary: cs rule: rev_induct) auto
  then show ?thesis by (simp add: handlers_off_def fold_call_suspend)
qed

lemma register_keeps_ok:
  assumes "handlers_ok e" and "h \<notin> set (early_suspend_handlers e)" and "es_state e \<in> {0, 1, 2, 3}"
  shows "handlers_ok (register_early_suspend h e)"
proof -
  let ?hs = "insert_handler (level \<circ> handler e) h (early_suspend_handlers e)"
  have "distinct ?hs" using assms(1,2) by (intro distinct_insert_handler) (auto simp: handlers_ok_def)
  moreover have "sorted_wrt (\<lambda>a b. level (handler e a) \<le> level (handler e b)) ?hs"
    using sorted_insert_handler [of "level \<circ> handler e"] assms(1) by (simp add: handlers_ok_def)
  moreover have "es_state e AND SUSPENDED \<noteq> 0 \<longleftrightarrow> es_state e = 2 \<or> es_state e = 3"
    using assms(3) by (auto simp: SUSPENDED_def)
  ultimately show ?thesis
    using assms(1,2)
    by (auto simp: handlers_ok_def register_early_suspend_def Let_def call_suspend_def handlers_off_def)
qed

lemma es_state_begin [simp]:
  "es_wl (early_suspend_begin e) = es_wl e"
  "early_suspend_pending (early_suspend_begin e) = early_suspend_pending e"
  "late_resume_pending (early_suspend_begin e) = late_resume_pending e"
  "es_state (early_suspend_begin e) = (if es_state e = 1 then 3 else es_state e)"
  by (simp_all add: early_suspend_begin_def fold_call_suspend SUSPEND_REQUESTED_def SUSPENDED_def)

lemma es_state_late [simp]:
  "es_wl (late_resume e) = es_wl e"
  "early_suspend_pending (late_resume e) = early_suspend_pending e"
  "late_resume_pending (late_resume e) = late_resume_pending e"
  "es_state (late_resume e) = (if es_state e = 2 then 0 else es_state e)"
  by (simp_all add: late_resume_def fold_call_resume SUSPENDED_def)

lemma begin_keeps_ok:
  assumes "handlers_ok e"
  shows "handlers_ok (early_suspend_begin e)"
proof (cases "es_state e = 1")
  case True
  let ?e = "e\<lparr>es_state := es_state e OR SUSPENDED\<rparr>"
  have "handlers_off (fold call_suspend (early_suspend_handlers ?e) ?e)" by (rule handlers_off_fold)
  then show ?thesis
    using True assms by (simp add: early_suspend_begin_def SUSPEND_REQUESTED_def handlers_ok_def
        fold_call_suspend)
next
  case False
  then show ?thesis using assms by (simp add: early_suspend_begin_def SUSPEND_REQUESTED_def)
qed

lemma late_keeps_ok: "handlers_ok e \<Longrightarrow> handlers_ok (late_resume e)"
  by (simp add: late_resume_def handlers_ok_def fold_call_resume SUSPENDED_def)


lemma sys_inv_request:
  "sys_inv \<lparr>sys_wl = st\<lparr>requested_suspend_state := x\<rparr>, sys_jiffies = j, sys_running = r\<rparr>
   = sys_inv \<lparr>sys_wl = st, sys_jiffies = j, sys_running = r\<rparr>"
proof -
  have "wl_inv (st\<lparr>requested_suspend_state := x\<rparr>) = wl_inv st" by (rule wl_inv_cong) simp_all
  moreover have "armed j (st\<lparr>requested_suspend_state := x\<rparr>) = armed j st" by (rule armed_cong) simp_all
  ultimately show ?thesis by (simp add: sys_inv_def)
qed

lemma lock_main:
  assumes "sys_inv (wls s)" and "jiffies clk = es_jiffies s" and "main_ok (es_wl (es s))"
    and "wake_lock clk main_wake_lock (es_wl (es s)) = Some wl"
  shows "sys_inv \<lparr>sys_wl = wl, sys_jiffies = es_jiffies s, sys_running = pm_running s\<rparr>"
    and "main_ok wl" and "c_active (cores wl main_wake_lock)"
proof -
  have l: "wake_lock_internal clk main_wake_lock 0 False (sys_wl (wls s)) = Some wl"
    using assms(4) by (simp add: wls_def wake_lock_def)
  have "sys_inv ((wls s)\<lparr>sys_wl := wl\<rparr>)"
    by (rule lock_keeps_inv [OF assms(1) _ l]) (simp add: wls_def assms(2))
  then show "sys_inv \<lparr>sys_wl = wl, sys_jiffies = es_jiffies s, sys_running = pm_running s\<rparr>"
    by (simp add: wls_def)
  note ok = wake_lock_internal_ok [OF sys_invD(1) [OF assms(1)] l]
  show "main_ok wl" "c_active (cores wl main_wake_lock)"
    using ok(2) [of main_wake_lock] ok(6) assms(3) by (simp_all add: main_ok_def wls_def acquired_def)
qed

lemma unlock_main:
  assumes "sys_inv (wls s)" and "jiffies clk = es_jiffies s" and "main_ok (es_wl (es s))"
    and "wake_unlock clk main_wake_lock (es_wl (es s)) = Some wl"
  shows "sys_inv \<lparr>sys_wl = wl, sys_jiffies = es_jiffies s, sys_running = pm_running s\<rparr>"
    and "main_ok wl" and "\<not> c_active (cores wl main_wake_lock)"
proof -
  have i: "c_init (cores (sys_wl (wls s)) main_wake_lock)"
    using assms(3) by (simp add: main_ok_def static_def wls_def)
  have l: "wake_unlock clk main_wake_lock (sys_wl (wls s)) = Some wl"
    using assms(4) by (simp add: wls_def)
  have "sys_inv ((wls s)\<lparr>sys_wl := wl\<rparr>)"
    by (rule unlock_keeps_inv [OF assms(1) _ i l]) (simp add: wls_def assms(2))
  then show "sys_inv \<lparr>sys_wl = wl, sys_jiffies = es_jiffies s, sys_running = pm_running s\<rparr>"
    by (simp add: wls_def)
  note ok = wake_unlock_ok [OF sys_invD(1) [OF assms(1)] i l]
  then show "main_ok wl" "\<not> c_active (cores wl main_wake_lock)"
    using assms(3) by (simp_all add: main_ok_def wls_def off_core_def static_def)
qed

lemma request_keeps_inv:
  assumes inv: "es_inv s" and j: "jiffies clk = es_jiffies s"
    and r: "request_suspend_state clk new_state (es s) = Some e"
  shows "es_inv (s\<lparr>es := e\<rparr>)"
proof -
  let ?old = "es_state (es s) AND SUSPEND_REQUESTED \<noteq> 0"
  have i: "sys_inv (wls s)" "main_ok (es_wl (es s))" "handlers_ok (es s)"
    "protocol (early_running s) (es s)"
    using inv by (simp_all add: es_inv_def)
  have st: "es_state (es s) \<in> {0, 1, 2, 3}" using i(4) by (simp add: protocol_def)
  then have old: "?old = requested (es s)" by (auto simp: requested_def SUSPEND_REQUESTED_def)
  have req: "main_ok (w\<lparr>requested_suspend_state := x\<rparr>) = main_ok w" for w x
    by (simp add: main_ok_def)
  consider (sleep) "\<not> ?old" "new_state \<noteq> PM_SUSPEND_ON" | (wake) "?old" "new_state = PM_SUSPEND_ON"
    | (none) "?old \<noteq> (new_state = PM_SUSPEND_ON)"
    by blast
  then show ?thesis
  proof cases
    case sleep
    then have e: "e = (es s)\<lparr>es_state := es_state (es s) OR SUSPEND_REQUESTED,
        early_suspend_pending := True, es_wl := (es_wl (es s))\<lparr>requested_suspend_state := new_state\<rparr>\<rparr>"
      using r by (simp add: request_suspend_state_def Let_def)
    have n: "es_state (es s) = 0 \<and> es_state e = 1 \<or> es_state (es s) = 2 \<and> es_state e = 3"
      using st sleep(1) old by (auto simp: e requested_def SUSPEND_REQUESTED_def)
    then have "handlers_ok e" using i(3) by (auto simp: handlers_ok_def e handlers_off_def)
    moreover have "early_suspend_pending e" "late_resume_pending e = late_resume_pending (es s)"
      "main_held e = main_held (es s)"
      by (simp_all add: e main_held_def)
    then have "protocol (early_running s) e"
      using i(4) n unfolding protocol_def requested_def by auto
    ultimately show ?thesis
      using i(1,2) by (simp add: es_inv_def wls_def e sys_inv_request req)
  next
    case wake
    then obtain wl where wl: "wake_lock clk main_wake_lock (es_wl (es s)) = Some wl"
      and e: "e = (es s)\<lparr>es_state := es_state (es s) AND NOT SUSPEND_REQUESTED,
        es_wl := wl\<lparr>requested_suspend_state := new_state\<rparr>,
        late_resume_pending := True, lcd_enabled := True\<rparr>"
      using r by (auto simp: request_suspend_state_def Let_def)
    note m = lock_main [OF i(1) j i(2) wl]
    have n: "es_state (es s) = 1 \<and> es_state e = 0 \<or> es_state (es s) = 3 \<and> es_state e = 2"
      using st wake(1) old by (auto simp: e requested_def SUSPEND_REQUESTED_def)
    then have "handlers_ok e" using i(3) by (auto simp: handlers_ok_def e handlers_off_def)
    moreover have "main_held e" using m(3) by (simp add: main_held_core e)
    then have "protocol (early_running s) e"
      using n by (auto simp: protocol_def requested_def e)
    ultimately show ?thesis
      using m(1,2) by (simp add: es_inv_def wls_def e sys_inv_request req)
  next
    case none
    then have e: "e = (es s)\<lparr>es_wl := (es_wl (es s))\<lparr>requested_suspend_state := new_state\<rparr>\<rparr>"
      using r by (auto simp: request_suspend_state_def Let_def)
    have "handlers_ok e = handlers_ok (es s)" by (rule handlers_ok_cong) (simp_all add: e)
    moreover have "protocol (early_running s) e = protocol (early_running s) (es s)"
      by (rule protocol_cong) (simp_all add: e main_held_def)
    ultimately show ?thesis
      using i by (simp add: es_inv_def wls_def e sys_inv_request req)
  qed
qed

lemma early_end_keeps_inv:
  assumes inv: "es_inv s" and "early_running s" and j: "jiffies clk = es_jiffies s"
    and r: "early_suspend_end clk (es s) = Some e"
  shows "es_inv (s\<lparr>es := e, early_running := False\<rparr>)"
proof (cases "es_state (es s) = 3")
  case True
  have i: "sys_inv (wls s)" "main_ok (es_wl (es s))" "handlers_ok (es s)"
    "protocol (early_running s) (es s)"
    using inv by (simp_all add: es_inv_def)
  obtain wl where wl: "wake_unlock clk main_wake_lock (es_wl (es s)) = Some wl"
    and e: "e = (es s)\<lparr>es_wl := wl\<rparr>"
    using r True by (auto simp: early_suspend_end_def SUSPEND_REQUESTED_AND_SUSPENDED_def
        SUSPENDED_def SUSPEND_REQUESTED_def)
  note m = unlock_main [OF i(1) j i(2) wl]
  have "\<not> main_held e" using m(3) by (simp add: main_held_core e)
  moreover have "handlers_ok e = handlers_ok (es s)" by (rule handlers_ok_cong) (simp_all add: e)
  ultimately show ?thesis
    using m(1,2) i(3) True by (simp add: es_inv_def wls_def e protocol_def requested_def)
next
  case False
  then have "e = es s"
    using r by (simp add: early_suspend_end_def SUSPEND_REQUESTED_AND_SUSPENDED_def
        SUSPENDED_def SUSPEND_REQUESTED_def)
  with False inv show ?thesis by (auto simp: es_inv_def wls_def protocol_def)
qed

lemma es_step_keeps_inv:
  assumes "es_step s s'" and inv: "es_inv s"
  shows "es_inv s'"
  using assms(1)
proof cases
  case wakelock
  then show ?thesis using wakelock_keeps_inv [OF inv] by blast
next
  case (register h)
  have "handlers_ok (register_early_suspend h (es s))"
    using inv register(2) by (intro register_keeps_ok) (auto simp: es_inv_def protocol_def)
  moreover have "protocol (early_running s) (register_early_suspend h (es s))
      = protocol (early_running s) (es s)"
    by (rule protocol_cong)
      (simp_all add: register_early_suspend_def Let_def call_suspend_def main_held_def)
  ultimately show ?thesis
    using inv register(1)
    by (simp add: es_inv_def wls_def register_early_suspend_def Let_def call_suspend_def)
next
  case (unregister h)
  have "protocol (early_running s) (unregister_early_suspend h (es s))
      = protocol (early_running s) (es s)"
    by (rule protocol_cong) (simp_all add: unregister_early_suspend_def main_held_def)
  moreover have "handlers_ok (unregister_early_suspend h (es s))" if "handlers_ok (es s)"
    using that by (auto simp: handlers_ok_def unregister_early_suspend_def sorted_wrt_remove1
        handlers_off_def distinct_remove1 dest: notin_set_remove1 set_remove1_subset [THEN subsetD])
  ultimately show ?thesis
    using inv unregister by (simp add: es_inv_def wls_def unregister_early_suspend_def)
next
  case (request clk new_state e)
  then show ?thesis using request_keeps_inv [OF inv] by blast
next
  case early_begin
  let ?e = "(es s)\<lparr>early_suspend_pending := False\<rparr>"
  have "handlers_ok ?e = handlers_ok (es s)" by (rule handlers_ok_cong) simp_all
  then have "handlers_ok (early_suspend_begin ?e)"
    using inv by (intro begin_keeps_ok) (simp add: es_inv_def)
  moreover have "protocol True (early_suspend_begin ?e)"
    using inv by (auto simp: es_inv_def protocol_def requested_def main_held_def)
  ultimately show ?thesis using inv early_begin(1) by (simp add: es_inv_def wls_def)
next
  case (early_end clk e)
  then show ?thesis using early_end_keeps_inv [OF inv] by blast
next
  case late
  let ?e = "(es s)\<lparr>late_resume_pending := False\<rparr>"
  have "handlers_ok ?e = handlers_ok (es s)" by (rule handlers_ok_cong) simp_all
  then have "handlers_ok (late_resume ?e)"
    using inv by (intro late_keeps_ok) (simp add: es_inv_def)
  moreover have "protocol (early_running s) (late_resume ?e)"
    using inv late(3) by (auto simp: es_inv_def protocol_def requested_def main_held_def)
  ultimately show ?thesis using inv late(1) by (simp add: es_inv_def wls_def)
qed

lemma es_reachable_inv: "es_reachable s \<Longrightarrow> es_inv s"
proof (induction rule: es_reachable.induct)
  case (boot clk wl hs)
  note b = boot_inv [OF boot]
  show ?case
    using b by (simp add: es_inv_def wls_def es_boot_def main_ok_def handlers_ok_def protocol_def
        requested_def main_held_core)
next
  case (step s s')
  then show ?case using es_step_keeps_inv by blast
qed

section \<open>Properties\<close>

text \<open>
  C30. The order of the handlers, as \<open>include/linux/earlysuspend.h\<close> states it: registration puts
  a handler after all handlers of the same or a lower level; when the suspend request is
  carried out the suspend handlers are called in list order, and late resume calls the resume
  handlers in the opposite order.
\<close>

theorem early_suspend_order:
  assumes "es_reachable s"
  defines "e \<equiv> es s"
  defines "lv \<equiv> \<lambda>h. level (handler e h)" and "hs \<equiv> early_suspend_handlers e"
  shows "sorted_wrt (\<lambda>a b. lv a \<le> lv b) hs
    \<and> early_suspend_handlers (register_early_suspend h e)
        = filter (\<lambda>a. lv a \<le> lv h) hs @ h # filter (\<lambda>a. lv a > lv h) hs
    \<and> rev (calls (early_suspend_begin e)) = rev (calls e)
        @ (if es_state e = SUSPEND_REQUESTED then map Suspend (filter (\<lambda>a. has_suspend (handler e a)) hs) else [])
    \<and> rev (calls (late_resume e)) = rev (calls e)
        @ (if es_state e = SUSPENDED then rev (map Resume (filter (\<lambda>a. has_resume (handler e a)) hs)) else [])"
proof -
  have s: "sorted_wrt (\<lambda>a b. lv a \<le> lv b) hs"
    using es_reachable_inv [OF assms(1)]
    by (simp add: es_inv_def handlers_ok_def lv_def hs_def e_def)
  have "early_suspend_handlers (register_early_suspend h e) = insert_handler lv h hs"
    by (simp add: register_early_suspend_def Let_def call_suspend_def lv_def hs_def comp_def)
  then have "early_suspend_handlers (register_early_suspend h e)
      = filter (\<lambda>a. lv a \<le> lv h) hs @ h # filter (\<lambda>a. lv a > lv h) hs"
    by (simp add: insert_handler_eq [OF s])
  with s show ?thesis
    by (simp add: early_suspend_begin_def late_resume_def fold_call_suspend fold_call_resume
        hs_def rev_filter rev_map)
qed

text \<open>
  C22. The system goes to sleep only on request and with the devices off. In a reachable state,
  if the suspend work gets past its check and calls \<open>pm_suspend\<close>, then user space has
  requested suspend, the early suspend work has run, and for every registered handler with a
  suspend function the last call made was \<open>suspend\<close>.
\<close>

theorem pm_suspend_after_early_suspend:
  assumes "es_reachable s" and "suspend_enter clk (es_wl (es s)) = Some (st, Some n)"
  shows "es_state (es s) = SUSPEND_REQUESTED_AND_SUSPENDED
    \<and> (\<forall>h \<in> set (early_suspend_handlers (es s)).
         has_suspend (handler (es s) h) \<longrightarrow> last_suspend h (calls (es s)))"
proof -
  have i: "sys_inv (wls s)" "main_ok (es_wl (es s))" "handlers_ok (es s)"
    "protocol (early_running s) (es s)"
    using es_reachable_inv [OF assms(1)] by (simp_all add: es_inv_def)
  have wl: "wl_inv (es_wl (es s))" using sys_invD(1) [OF i(1)] by (simp add: wls_def)
  obtain r where h: "has_wake_lock_locked clk 0 (es_wl (es s)) = Some (st, r)" and "r = 0"
    using assms(2) by (auto simp: suspend_enter_def has_wake_lock_def WAKE_LOCK_SUSPEND_def
        split: if_splits)
  then have "main_wake_lock \<notin> set (active_wake_locks (es_wl (es s)) 0)"
    using has_wake_lock_armed(4) [OF wl h] i(2) by (auto simp: main_ok_def)
  then have "\<not> main_held (es s)"
    using wl i(2) wl_inv_inactive [OF wl, of main_wake_lock] wl_inv_active [OF wl, of 1 main_wake_lock]
    unfolding wl_inv_def by (auto simp: main_ok_def main_held_core static_def)
  then have "es_state (es s) = 3" using i(4) by (simp add: protocol_def)
  with i(3) show ?thesis
    by (simp add: handlers_ok_def handlers_off_def SUSPEND_REQUESTED_AND_SUSPENDED_def
        SUSPENDED_def SUSPEND_REQUESTED_def)
qed

text \<open>
  C21. The requests are carried out: in every reachable state in which neither work item is
  queued or running, either the system is awake and the main wake lock is held, or suspend was
  requested, the early suspend work is done and the main wake lock is released. However
  requests and work items interleave, nothing is left half done.
\<close>

theorem early_suspend_settles:
  assumes "es_reachable s" and "\<not> early_suspend_pending (es s)" and "\<not> late_resume_pending (es s)"
    and "\<not> early_running s"
  shows "es_state (es s) = 0 \<and> wake_lock_active (locks (es_wl (es s)) main_wake_lock)
    \<or> es_state (es s) = SUSPEND_REQUESTED_AND_SUSPENDED
        \<and> \<not> wake_lock_active (locks (es_wl (es s)) main_wake_lock)"
proof -
  have p: "protocol (early_running s) (es s)"
    using es_reachable_inv [OF assms(1)] by (simp add: es_inv_def)
  have both: "SUSPEND_REQUESTED_AND_SUSPENDED = 3"
    by (simp add: SUSPEND_REQUESTED_AND_SUSPENDED_def SUSPENDED_def SUSPEND_REQUESTED_def)
  consider "es_state (es s) = 0" | "requested (es s)" | "es_state (es s) = 2"
    using p by (auto simp: protocol_def requested_def)
  then have "es_state (es s) = 0 \<and> main_held (es s) \<or> es_state (es s) = 3 \<and> \<not> main_held (es s)"
  proof cases
    case 1
    then show ?thesis using p by (auto simp: protocol_def)
  next
    case 2
    then show ?thesis using p assms(2,4) by (simp add: protocol_def)
  next
    case 3
    then show ?thesis using p assms(3) by (simp add: protocol_def)
  qed
  then show ?thesis unfolding both main_held_def .
qed

section \<open>Witnesses\<close>

text \<open>
  One run: boot, a handler is registered, sleep is requested, the early suspend work runs.
\<close>

definition demo_handlers :: "nat \<Rightarrow> early_suspend_handler" where
  "demo_handlers h = \<lparr>level = int h, has_suspend = True, has_resume = True\<rparr>"

definition demo_es0 :: es_state where
  "demo_es0 = register_early_suspend 50 (es_boot demo_handlers demo_boot)"

definition demo_es1 :: es_state where
  "demo_es1 = the (request_suspend_state (some_clock 0) 3 demo_es0)"

definition demo_es2 :: es_state where
  "demo_es2 = the (early_suspend_end (some_clock 0)
     (early_suspend_begin (demo_es1\<lparr>early_suspend_pending := False\<rparr>)))"

abbreviation demo_sys :: "es_state \<Rightarrow> bool \<Rightarrow> es_sys" where
  "demo_sys e run \<equiv> \<lparr>es = e, es_jiffies = 0, pm_running = None, early_running = run\<rparr>"

lemma demo_es_facts:
  "\<not> Option.is_none (request_suspend_state (some_clock 0) 3 demo_es0)"
  "early_suspend_pending demo_es1"
  "\<not> Option.is_none (early_suspend_end (some_clock 0)
     (early_suspend_begin (demo_es1\<lparr>early_suspend_pending := False\<rparr>)))"
  "\<not> early_suspend_pending demo_es2" "\<not> late_resume_pending demo_es2"
  "map_option snd (suspend_enter (some_clock 0) (es_wl demo_es2)) = Some (Some 1)"
  "es_state demo_es1 = 1" "early_suspend_handlers demo_es1 = [50]" "calls demo_es1 = []"
  by code_simp+

lemma demo_es_reachable:
  "es_reachable (demo_sys demo_es1 False)" "es_reachable (demo_sys demo_es2 False)"
proof -
  obtain st where st: "wakelocks_init (some_clock 0) 0 0 True wl_boot = Some (st, True, 0)"
    using demo_results(1) by auto
  have j: "jiffies (some_clock 0) = 0" by (simp add: some_clock_def)
  from es_reachable.boot [OF st, of demo_handlers]
  have "es_reachable (demo_sys (es_boot demo_handlers demo_boot) False)"
    by (simp add: demo_boot_def st j)
  moreover have "es_step (demo_sys (es_boot demo_handlers demo_boot) False) (demo_sys demo_es0 False)"
    using es_step.register [of 50 "demo_sys (es_boot demo_handlers demo_boot) False"]
    by (simp add: demo_es0_def es_boot_def)
  ultimately have "es_reachable (demo_sys demo_es0 False)" by (rule es_reachable.step)
  moreover have "request_suspend_state (some_clock 0) 3 demo_es0 = Some demo_es1"
    using demo_es_facts(1) by (auto simp: demo_es1_def Option.is_none_def)
  then have "es_step (demo_sys demo_es0 False) (demo_sys demo_es1 False)"
    using es_step.request [of "some_clock 0" "demo_sys demo_es0 False" 3 demo_es1] j by simp
  ultimately show 1: "es_reachable (demo_sys demo_es1 False)" by (rule es_reachable.step)
  let ?e = "early_suspend_begin (demo_es1\<lparr>early_suspend_pending := False\<rparr>)"
  have "es_step (demo_sys demo_es1 False) (demo_sys ?e True)"
    using es_step.early_begin [of "demo_sys demo_es1 False"] demo_es_facts(2) by simp
  with 1 have "es_reachable (demo_sys ?e True)" by (rule es_reachable.step)
  moreover have "early_suspend_end (some_clock 0) ?e = Some demo_es2"
    using demo_es_facts(3) by (auto simp: demo_es2_def Option.is_none_def)
  then have "es_step (demo_sys ?e True) (demo_sys demo_es2 False)"
    using es_step.early_end [of "demo_sys ?e True" "some_clock 0" demo_es2] j by simp
  ultimately show "es_reachable (demo_sys demo_es2 False)" by (rule es_reachable.step)
qed

theorem early_suspend_order_witness:
  "rev (calls (early_suspend_begin demo_es1)) = [Suspend 50]"
proof -
  have "has_suspend (handler demo_es1 50)" by code_simp
  then show ?thesis
    using early_suspend_order [OF demo_es_reachable(1), of 0] demo_es_facts(7-9)
    by (simp add: SUSPEND_REQUESTED_def)
qed

theorem pm_suspend_after_early_suspend_witness:
  "es_state demo_es2 = SUSPEND_REQUESTED_AND_SUSPENDED"
proof -
  obtain st where "suspend_enter (some_clock 0) (es_wl demo_es2) = Some (st, Some 1)"
    using demo_es_facts(6) by auto
  then show ?thesis using pm_suspend_after_early_suspend [OF demo_es_reachable(2)] by simp
qed

theorem early_suspend_settles_witness:
  "\<not> wake_lock_active (locks (es_wl demo_es2) main_wake_lock)"
proof -
  have "es_state demo_es2 \<noteq> 0" by code_simp
  then show ?thesis
    using early_suspend_settles [OF demo_es_reachable(2)] demo_es_facts(4,5) by simp
qed

end
