(* ===== verification/Rbtree.thy ===== *)
theory Rbtree
  imports KPrelude
begin

text \<open>
  The red-black trees of the kernel, \<open>lib/rbtree.c\<close> and \<open>include/linux/rbtree.h\<close>, on a memory of
  nodes. Addresses are 32-bit words; \<open>rb_parent_color\<close> keeps the parent pointer and the colour
  in one word, as the code does. The loops run on whatever the memory holds, so they are partial
  functions; theory Rbtree\_Refine shows that on a tree they return.
\<close>

section \<open>Nodes\<close>

record rb_mem =
  rb_parent_color :: "u32 \<Rightarrow> u32"
  rb_right :: "u32 \<Rightarrow> u32"
  rb_left :: "u32 \<Rightarrow> u32"
  rb_root :: u32

definition RB_RED :: u32 where
  "RB_RED = 0"

definition RB_BLACK :: u32 where
  "RB_BLACK = 1"

definition rb_parent :: "rb_mem \<Rightarrow> u32 \<Rightarrow> u32" where
  "rb_parent m r = rb_parent_color m r AND NOT 3"

definition rb_color :: "rb_mem \<Rightarrow> u32 \<Rightarrow> u32" where
  "rb_color m r = rb_parent_color m r AND 1"

definition rb_is_red :: "rb_mem \<Rightarrow> u32 \<Rightarrow> bool" where
  "rb_is_red m r \<longleftrightarrow> rb_color m r = 0"

definition rb_is_black :: "rb_mem \<Rightarrow> u32 \<Rightarrow> bool" where
  "rb_is_black m r \<longleftrightarrow> rb_color m r \<noteq> 0"

definition upd_pc :: "u32 \<Rightarrow> u32 \<Rightarrow> rb_mem \<Rightarrow> rb_mem" where
  "upd_pc r x m = m\<lparr>rb_parent_color := (rb_parent_color m)(r := x)\<rparr>"

definition rb_set_red :: "u32 \<Rightarrow> rb_mem \<Rightarrow> rb_mem" where
  "rb_set_red r m = upd_pc r (rb_parent_color m r AND NOT 1) m"

definition rb_set_black :: "u32 \<Rightarrow> rb_mem \<Rightarrow> rb_mem" where
  "rb_set_black r m = upd_pc r (rb_parent_color m r OR 1) m"

definition rb_set_parent :: "u32 \<Rightarrow> u32 \<Rightarrow> rb_mem \<Rightarrow> rb_mem" where
  "rb_set_parent r p m = upd_pc r ((rb_parent_color m r AND 3) OR p) m"

definition rb_set_color :: "u32 \<Rightarrow> u32 \<Rightarrow> rb_mem \<Rightarrow> rb_mem" where
  "rb_set_color r c m = upd_pc r ((rb_parent_color m r AND NOT 1) OR c) m"

definition set_left :: "u32 \<Rightarrow> u32 \<Rightarrow> rb_mem \<Rightarrow> rb_mem" where
  "set_left r x m = m\<lparr>rb_left := (rb_left m)(r := x)\<rparr>"

definition set_right :: "u32 \<Rightarrow> u32 \<Rightarrow> rb_mem \<Rightarrow> rb_mem" where
  "set_right r x m = m\<lparr>rb_right := (rb_right m)(r := x)\<rparr>"

definition set_root :: "u32 \<Rightarrow> rb_mem \<Rightarrow> rb_mem" where
  "set_root x m = m\<lparr>rb_root := x\<rparr>"

text \<open>The place a node hangs on: \<open>&parent->rb_left\<close>, \<open>&parent->rb_right\<close> or \<open>&root->rb_node\<close>.\<close>

datatype rb_slot = Slot_left u32 | Slot_right u32 | Slot_root

fun store_slot :: "rb_slot \<Rightarrow> u32 \<Rightarrow> rb_mem \<Rightarrow> rb_mem" where
  "store_slot (Slot_left p) x m = set_left p x m"
| "store_slot (Slot_right p) x m = set_right p x m"
| "store_slot Slot_root x m = set_root x m"

definition rb_link_node :: "u32 \<Rightarrow> u32 \<Rightarrow> rb_slot \<Rightarrow> rb_mem \<Rightarrow> rb_mem" where
  "rb_link_node node parent rb_link m =
     store_slot rb_link node (set_left node 0 (set_right node 0 (upd_pc node parent m)))"

definition RB_EMPTY_ROOT :: "rb_mem \<Rightarrow> bool" where
  "RB_EMPTY_ROOT m \<longleftrightarrow> rb_root m = 0"

definition RB_EMPTY_NODE :: "rb_mem \<Rightarrow> u32 \<Rightarrow> bool" where
  "RB_EMPTY_NODE m node \<longleftrightarrow> rb_parent m node = node"

definition RB_CLEAR_NODE :: "u32 \<Rightarrow> rb_mem \<Rightarrow> rb_mem" where
  "RB_CLEAR_NODE node m = rb_set_parent node node m"

section \<open>Rotations\<close>

definition rb_rotate_left :: "u32 \<Rightarrow> rb_mem \<Rightarrow> rb_mem" where
  "rb_rotate_left node m =
     (let right = rb_right m node;
          parent = rb_parent m node;
          m1 = set_right node (rb_left m right) m;
          m2 = (if rb_left m1 right \<noteq> 0 then rb_set_parent (rb_left m1 right) node m1 else m1);
          m3 = set_left right node m2;
          m4 = rb_set_parent right parent m3;
          m5 = (if parent \<noteq> 0
                then (if node = rb_left m4 parent then set_left parent right m4
                      else set_right parent right m4)
                else set_root right m4)
      in rb_set_parent node right m5)"

definition rb_rotate_right :: "u32 \<Rightarrow> rb_mem \<Rightarrow> rb_mem" where
  "rb_rotate_right node m =
     (let left = rb_left m node;
          parent = rb_parent m node;
          m1 = set_left node (rb_right m left) m;
          m2 = (if rb_right m1 left \<noteq> 0 then rb_set_parent (rb_right m1 left) node m1 else m1);
          m3 = set_right left node m2;
          m4 = rb_set_parent left parent m3;
          m5 = (if parent \<noteq> 0
                then (if node = rb_right m4 parent then set_right parent left m4
                      else set_left parent left m4)
                else set_root left m4)
      in rb_set_parent node left m5)"

section \<open>Insertion\<close>

partial_function (option) rb_insert_loop :: "u32 \<Rightarrow> rb_mem \<Rightarrow> rb_mem option" where
  "rb_insert_loop node m =
     (let parent = rb_parent m node
      in if parent \<noteq> 0 \<and> rb_is_red m parent then
        (let gparent = rb_parent m parent
         in if parent = rb_left m gparent then
              (let uncle = rb_right m gparent
               in if uncle \<noteq> 0 \<and> rb_is_red m uncle then
                    rb_insert_loop gparent (rb_set_red gparent (rb_set_black parent (rb_set_black uncle m)))
                  else
                   (let (m1, parent1, node1) =
                      (if rb_right m parent = node then (rb_rotate_left parent m, node, parent)
                       else (m, parent, node))
                    in rb_insert_loop node1
                         (rb_rotate_right gparent (rb_set_red gparent (rb_set_black parent1 m1)))))
            else
              (let uncle = rb_left m gparent
               in if uncle \<noteq> 0 \<and> rb_is_red m uncle then
                    rb_insert_loop gparent (rb_set_red gparent (rb_set_black parent (rb_set_black uncle m)))
                  else
                   (let (m1, parent1, node1) =
                      (if rb_left m parent = node then (rb_rotate_right parent m, node, parent)
                       else (m, parent, node))
                    in rb_insert_loop node1
                         (rb_rotate_left gparent (rb_set_red gparent (rb_set_black parent1 m1))))))
      else Some m)"

declare rb_insert_loop.simps [code]

definition rb_insert_color :: "u32 \<Rightarrow> rb_mem \<Rightarrow> rb_mem option" where
  "rb_insert_color node m = map_option (\<lambda>m'. rb_set_black (rb_root m') m') (rb_insert_loop node m)"

section \<open>Deletion\<close>

definition no_red :: "rb_mem \<Rightarrow> u32 \<Rightarrow> bool" where
  "no_red m n \<longleftrightarrow> n = 0 \<or> rb_is_black m n"

text \<open>The two halves of the loop body of \<open>__rb_erase_color\<close>: a red sibling is rotated away, then
  the sibling is recoloured and the loop goes on (the last component is True), or a rotation ends
  the repair and \<open>node\<close> is the root.\<close>

definition erase_turn_left :: "u32 \<Rightarrow> rb_mem \<Rightarrow> rb_mem" where
  "erase_turn_left parent m =
     (let other = rb_right m parent;
          m1 = rb_set_color other (rb_color m parent) m;
          m2 = rb_set_black parent m1;
          m3 = rb_set_black (rb_right m2 other) m2
      in rb_rotate_left parent m3)"

definition erase_tail_left :: "u32 \<Rightarrow> rb_mem \<Rightarrow> rb_mem \<times> u32 \<times> u32 \<times> bool" where
  "erase_tail_left parent m =
     (let other = rb_right m parent
      in if no_red m (rb_left m other) \<and> no_red m (rb_right m other) then
           (let m1 = rb_set_red other m in (m1, parent, rb_parent m1 parent, True))
         else
          (let m1 = (if no_red m (rb_right m other)
                     then rb_rotate_right other (rb_set_red other (rb_set_black (rb_left m other) m))
                     else m);
               m2 = erase_turn_left parent m1
           in (m2, rb_root m2, parent, False)))"

definition erase_body_left :: "u32 \<Rightarrow> rb_mem \<Rightarrow> rb_mem \<times> u32 \<times> u32 \<times> bool" where
  "erase_body_left parent m =
     (let other = rb_right m parent
      in erase_tail_left parent
           (if rb_is_red m other
            then rb_rotate_left parent (rb_set_red parent (rb_set_black other m)) else m))"

definition erase_turn_right :: "u32 \<Rightarrow> rb_mem \<Rightarrow> rb_mem" where
  "erase_turn_right parent m =
     (let other = rb_left m parent;
          m1 = rb_set_color other (rb_color m parent) m;
          m2 = rb_set_black parent m1;
          m3 = rb_set_black (rb_left m2 other) m2
      in rb_rotate_right parent m3)"

definition erase_tail_right :: "u32 \<Rightarrow> rb_mem \<Rightarrow> rb_mem \<times> u32 \<times> u32 \<times> bool" where
  "erase_tail_right parent m =
     (let other = rb_left m parent
      in if no_red m (rb_left m other) \<and> no_red m (rb_right m other) then
           (let m1 = rb_set_red other m in (m1, parent, rb_parent m1 parent, True))
         else
          (let m1 = (if no_red m (rb_left m other)
                     then rb_rotate_left other (rb_set_red other (rb_set_black (rb_right m other) m))
                     else m);
               m2 = erase_turn_right parent m1
           in (m2, rb_root m2, parent, False)))"

definition erase_body_right :: "u32 \<Rightarrow> rb_mem \<Rightarrow> rb_mem \<times> u32 \<times> u32 \<times> bool" where
  "erase_body_right parent m =
     (let other = rb_left m parent
      in erase_tail_right parent
           (if rb_is_red m other
            then rb_rotate_right parent (rb_set_red parent (rb_set_black other m)) else m))"

partial_function (option) rb_erase_color :: "u32 \<Rightarrow> u32 \<Rightarrow> rb_mem \<Rightarrow> rb_mem option" where
  "rb_erase_color node parent m =
     (if no_red m node \<and> node \<noteq> rb_root m then
        (let (m1, node1, parent1, continue) =
           (if rb_left m parent = node then erase_body_left parent m
            else erase_body_right parent m)
         in if continue then rb_erase_color node1 parent1 m1
            else Some (if node1 \<noteq> 0 then rb_set_black node1 m1 else m1))
      else Some (if node \<noteq> 0 then rb_set_black node m else m))"

declare rb_erase_color.simps [code]

partial_function (option) go_left :: "u32 \<Rightarrow> rb_mem \<Rightarrow> u32 option" where
  "go_left n m = (if rb_left m n \<noteq> 0 then go_left (rb_left m n) m else Some n)"

declare go_left.simps [code]

partial_function (option) go_right :: "u32 \<Rightarrow> rb_mem \<Rightarrow> u32 option" where
  "go_right n m = (if rb_right m n \<noteq> 0 then go_right (rb_right m n) m else Some n)"

declare go_right.simps [code]

text \<open>Hanging \<open>new\<close> where \<open>old\<close> hangs: the block that recurs in the file.\<close>

definition replace_child :: "u32 \<Rightarrow> u32 \<Rightarrow> u32 \<Rightarrow> rb_mem \<Rightarrow> rb_mem" where
  "replace_child parent old new m =
     (if parent \<noteq> 0
      then (if rb_left m parent = old then set_left parent new m else set_right parent new m)
      else set_root new m)"

text \<open>\<open>rb_erase\<close> with two children: the successor \<open>node\<close> takes the place of \<open>old\<close>.\<close>

definition splice_successor :: "u32 \<Rightarrow> u32 \<Rightarrow> rb_mem \<Rightarrow> rb_mem \<times> u32 \<times> u32 \<times> u32" where
  "splice_successor old node m =
     (let m1 = replace_child (rb_parent m old) old node m;
          child = rb_right m1 node;
          parent = rb_parent m1 node;
          color = rb_color m1 node;
          (m2, parent1) =
            (if parent = old then (m1, node)
             else (let ma = (if child \<noteq> 0 then rb_set_parent child parent m1 else m1);
                       mb = set_left parent child ma;
                       mc = set_right node (rb_right mb old) mb
                   in (rb_set_parent (rb_right mc old) node mc, parent)));
          m3 = upd_pc node (rb_parent_color m2 old) m2;
          m4 = set_left node (rb_left m3 old) m3;
          m5 = rb_set_parent (rb_left m4 old) node m4
      in (m5, child, parent1, color))"

definition rb_erase :: "u32 \<Rightarrow> rb_mem \<Rightarrow> rb_mem option" where
  "rb_erase node m =
     (let one_child = (\<lambda>child.
        (let parent = rb_parent m node;
             color = rb_color m node;
             m1 = (if child \<noteq> 0 then rb_set_parent child parent m else m);
             m2 = replace_child parent node child m1
         in if color = RB_BLACK then rb_erase_color child parent m2 else Some m2))
      in if rb_left m node = 0 then one_child (rb_right m node)
         else if rb_right m node = 0 then one_child (rb_left m node)
         else Option.bind (go_left (rb_right m node) m) (\<lambda>succ.
           (let (m1, child, parent, color) = splice_successor node succ m
            in if color = RB_BLACK then rb_erase_color child parent m1 else Some m1)))"

section \<open>Walking\<close>

definition rb_first :: "rb_mem \<Rightarrow> u32 option" where
  "rb_first m = (if rb_root m = 0 then Some 0 else go_left (rb_root m) m)"

definition rb_last :: "rb_mem \<Rightarrow> u32 option" where
  "rb_last m = (if rb_root m = 0 then Some 0 else go_right (rb_root m) m)"

partial_function (option) up_from_right :: "u32 \<Rightarrow> rb_mem \<Rightarrow> u32 option" where
  "up_from_right node m =
     (let parent = rb_parent m node
      in if parent \<noteq> 0 \<and> node = rb_right m parent then up_from_right parent m else Some parent)"

declare up_from_right.simps [code]

partial_function (option) up_from_left :: "u32 \<Rightarrow> rb_mem \<Rightarrow> u32 option" where
  "up_from_left node m =
     (let parent = rb_parent m node
      in if parent \<noteq> 0 \<and> node = rb_left m parent then up_from_left parent m else Some parent)"

declare up_from_left.simps [code]

definition rb_next :: "rb_mem \<Rightarrow> u32 \<Rightarrow> u32 option" where
  "rb_next m node =
     (if rb_parent m node = node then Some 0
      else if rb_right m node \<noteq> 0 then go_left (rb_right m node) m
      else up_from_right node m)"

definition rb_prev :: "rb_mem \<Rightarrow> u32 \<Rightarrow> u32 option" where
  "rb_prev m node =
     (if rb_parent m node = node then Some 0
      else if rb_left m node \<noteq> 0 then go_right (rb_left m node) m
      else up_from_left node m)"

definition rb_replace_node :: "u32 \<Rightarrow> u32 \<Rightarrow> rb_mem \<Rightarrow> rb_mem" where
  "rb_replace_node victim new m =
     (let m1 = replace_child (rb_parent m victim) victim new m;
          m2 = (if rb_left m1 victim \<noteq> 0 then rb_set_parent (rb_left m1 victim) new m1 else m1);
          m3 = (if rb_right m2 victim \<noteq> 0 then rb_set_parent (rb_right m2 victim) new m2 else m2)
      in set_right new (rb_right m3 victim)
           (set_left new (rb_left m3 victim) (upd_pc new (rb_parent_color m3 victim) m3)))"

section \<open>Augmented trees\<close>

text \<open>The callback \<open>func\<close> of the client works on its own data \<open>d\<close>.\<close>

partial_function (option) rb_augment_path ::
  "(u32 \<Rightarrow> 'd \<Rightarrow> 'd) \<Rightarrow> rb_mem \<Rightarrow> u32 \<Rightarrow> 'd \<Rightarrow> 'd option" where
  "rb_augment_path func m node d =
     (let d1 = func node d;
          parent = rb_parent m node
      in if parent = 0 then Some d1
         else
          (let d2 = (if node = rb_left m parent \<and> rb_right m parent \<noteq> 0 then func (rb_right m parent) d1
                     else if rb_left m parent \<noteq> 0 then func (rb_left m parent) d1
                     else d1)
           in rb_augment_path func m parent d2))"

declare rb_augment_path.simps [code]

definition rb_augment_insert ::
  "(u32 \<Rightarrow> 'd \<Rightarrow> 'd) \<Rightarrow> rb_mem \<Rightarrow> u32 \<Rightarrow> 'd \<Rightarrow> 'd option" where
  "rb_augment_insert func m node d =
     (let node1 = (if rb_left m node \<noteq> 0 then rb_left m node
                   else if rb_right m node \<noteq> 0 then rb_right m node else node)
      in rb_augment_path func m node1 d)"

definition rb_augment_erase_begin :: "rb_mem \<Rightarrow> u32 \<Rightarrow> u32 option" where
  "rb_augment_erase_begin m node =
     (if rb_right m node = 0 \<and> rb_left m node = 0 then Some (rb_parent m node)
      else if rb_right m node = 0 then Some (rb_left m node)
      else if rb_left m node = 0 then Some (rb_right m node)
      else map_option (\<lambda>deepest.
        if rb_right m deepest \<noteq> 0 then rb_right m deepest
        else if rb_parent m deepest \<noteq> node then rb_parent m deepest
        else deepest) (rb_next m node))"

definition rb_augment_erase_end ::
  "(u32 \<Rightarrow> 'd \<Rightarrow> 'd) \<Rightarrow> rb_mem \<Rightarrow> u32 \<Rightarrow> 'd \<Rightarrow> 'd option" where
  "rb_augment_erase_end func m node d =
     (if node \<noteq> 0 then rb_augment_path func m node d else Some d)"

end
