(* ===== verification/Rbtree_Func.thy ===== *)
theory Rbtree_Func
  imports Main
begin

text \<open>
  Red-black trees as the kernel's \<open>lib/rbtree.c\<close> rebalances them, on an algebraic tree whose
  nodes are named by their addresses. The code walks up by parent pointers; here the way up is
  a context (the path from a node to the root with the other subtrees). \<open>ins_fix\<close> and \<open>erase_fix\<close>
  follow the loops of \<open>rb_insert_color\<close> and \<open>__rb_erase_color\<close> case by case; theory Rbtree\_Refine
  shows that the pointer code computes exactly these trees.
\<close>

section \<open>Trees and contexts\<close>

datatype color = Red | Black

datatype 'a rbt = Leaf | Node color "'a rbt" 'a "'a rbt"

datatype 'a ctx = Top | InL color 'a "'a rbt" "'a ctx" | InR color "'a rbt" 'a "'a ctx"

fun plug :: "'a ctx \<Rightarrow> 'a rbt \<Rightarrow> 'a rbt" where
  "plug Top t = t"
| "plug (InL c p r k) t = plug k (Node c t p r)"
| "plug (InR c l p k) t = plug k (Node c l p t)"

fun inorder :: "'a rbt \<Rightarrow> 'a list" where
  "inorder Leaf = []"
| "inorder (Node c l p r) = inorder l @ p # inorder r"

fun before :: "'a ctx \<Rightarrow> 'a list" where
  "before Top = []"
| "before (InL c p r k) = before k"
| "before (InR c l p k) = before k @ inorder l @ [p]"

fun after :: "'a ctx \<Rightarrow> 'a list" where
  "after Top = []"
| "after (InL c p r k) = p # inorder r @ after k"
| "after (InR c l p k) = after k"

lemma inorder_plug [simp]: "inorder (plug k t) = before k @ inorder t @ after k"
  by (induction k arbitrary: t) auto

fun paint :: "color \<Rightarrow> 'a rbt \<Rightarrow> 'a rbt" where
  "paint c Leaf = Leaf"
| "paint c (Node _ l p r) = Node c l p r"

fun root_color :: "'a rbt \<Rightarrow> color" where
  "root_color Leaf = Black"
| "root_color (Node c l p r) = c"

abbreviation is_red :: "'a rbt \<Rightarrow> bool" where
  "is_red t \<equiv> root_color t = Red"

lemma inorder_paint [simp]: "inorder (paint c t) = inorder t"
  by (cases t) auto

section \<open>Rebalancing\<close>

fun ins_fix :: "'a rbt \<Rightarrow> 'a ctx \<Rightarrow> 'a rbt" where
  "ins_fix t (InL Red p r (InL c g u k)) =
     (if is_red u then ins_fix (Node Red (Node Black t p r) g (paint Black u)) k
      else paint Black (plug k (Node Black t p (Node Red r g u))))"
| "ins_fix (Node d a x b) (InR Red l p (InL c g u k)) =
     (if is_red u then ins_fix (Node Red (Node Black l p (Node d a x b)) g (paint Black u)) k
      else paint Black (plug k (Node Black (Node Red l p a) x (Node Red b g u))))"
| "ins_fix t (InR Red l p (InR c u g k)) =
     (if is_red u then ins_fix (Node Red (paint Black u) g (Node Black l p t)) k
      else paint Black (plug k (Node Black (Node Red u g l) p t)))"
| "ins_fix (Node d a x b) (InL Red p r (InR c u g k)) =
     (if is_red u then ins_fix (Node Red (paint Black u) g (Node Black (Node d a x b) p r)) k
      else paint Black (plug k (Node Black (Node Red u g a) x (Node Red b p r))))"
| "ins_fix t k = paint Black (plug k t)"

fun depth :: "'a ctx \<Rightarrow> nat" where
  "depth Top = 0"
| "depth (InL c p r k) = Suc (depth k)"
| "depth (InR c l p k) = Suc (depth k)"

text \<open>The last case of the loop of \<open>__rb_erase_color\<close>: a rotation that ends the repair.\<close>

fun erase_rot_left :: "color \<Rightarrow> 'a rbt \<Rightarrow> 'a \<Rightarrow> 'a rbt \<Rightarrow> 'a ctx \<Rightarrow> 'a rbt" where
  "erase_rot_left c t p (Node d (Node Red a x b) q r) k =
     (if is_red r then paint Black (plug k (Node c (Node Black t p (Node Red a x b)) q (paint Black r)))
      else paint Black (plug k (Node c (Node Black t p a) x (Node Black b q r))))"
| "erase_rot_left c t p (Node d l q r) k =
     paint Black (plug k (Node c (Node Black t p l) q (paint Black r)))"
| "erase_rot_left c t p Leaf k = paint Black (plug k (Node c t p Leaf))"

fun erase_rot_right :: "color \<Rightarrow> 'a rbt \<Rightarrow> 'a \<Rightarrow> 'a rbt \<Rightarrow> 'a ctx \<Rightarrow> 'a rbt" where
  "erase_rot_right c (Node d l q (Node Red a x b)) p t k =
     (if is_red l then paint Black (plug k (Node c (paint Black l) q (Node Black (Node Red a x b) p t)))
      else paint Black (plug k (Node c (Node Black l q a) x (Node Black b p t))))"
| "erase_rot_right c (Node d l q r) p t k =
     paint Black (plug k (Node c (paint Black l) q (Node Black r p t)))"
| "erase_rot_right c Leaf p t k = paint Black (plug k (Node c Leaf p t))"

fun kids_black :: "'a rbt \<Rightarrow> bool" where
  "kids_black (Node c l p r) = (\<not> is_red l \<and> \<not> is_red r)"
| "kids_black Leaf = True"

function erase_fix :: "'a rbt \<Rightarrow> 'a ctx \<Rightarrow> 'a rbt" where
  "erase_fix t k =
     (if is_red t then plug k (paint Black t)
      else case k of
        Top \<Rightarrow> paint Black t
      | InL c p (Node Red wl q wr) k' \<Rightarrow>
          (if kids_black wl then erase_fix (Node Red t p (paint Red wl)) (InL Black q wr k')
           else erase_rot_left Red t p wl (InL Black q wr k'))
      | InL c p w k' \<Rightarrow>
          (if kids_black w then erase_fix (Node c t p (paint Red w)) k'
           else erase_rot_left c t p w k')
      | InR c (Node Red wl q wr) p k' \<Rightarrow>
          (if kids_black wr then erase_fix (Node Red (paint Red wr) p t) (InR Black wl q k')
           else erase_rot_right Red wr p t (InR Black wl q k'))
      | InR c w p k' \<Rightarrow>
          (if kids_black w then erase_fix (Node c (paint Red w) p t) k'
           else erase_rot_right c w p t k'))"
  by pat_completeness auto
termination
  by (relation "measure (\<lambda>(t, k). 2 * depth k + (if is_red t then 0 else 1))") auto

declare erase_fix.simps [simp del]

text \<open>The leftmost node of a non-empty tree, and the way down to it.\<close>

fun leftmost :: "'a rbt \<Rightarrow> 'a" where
  "leftmost (Node c Leaf p r) = p"
| "leftmost (Node c l p r) = leftmost l"

fun down_left :: "'a rbt \<Rightarrow> 'a ctx \<Rightarrow> color \<times> 'a rbt \<times> 'a ctx" where
  "down_left (Node c Leaf p r) k = (c, r, k)"
| "down_left (Node c l p r) k = down_left l (InL c p r k)"
| "down_left Leaf k = (Black, Leaf, k)"

definition cut :: "color \<Rightarrow> 'a rbt \<Rightarrow> 'a ctx \<Rightarrow> 'a rbt" where
  "cut c child k = (if c = Black then erase_fix child k else plug k child)"

fun erase_at :: "'a rbt \<Rightarrow> 'a ctx \<Rightarrow> 'a rbt" where
  "erase_at (Node c Leaf p r) k = cut c r k"
| "erase_at (Node c l p Leaf) k = cut c l k"
| "erase_at (Node c l p r) k =
     (let (sc, child, k') = down_left r (InR c l (leftmost r) k) in cut sc child k')"
| "erase_at Leaf k = plug k Leaf"

section \<open>Contents\<close>

lemma inorder_ins_fix: "inorder (ins_fix t k) = inorder (plug k t)"
  by (induction t k rule: ins_fix.induct) (auto simp: Let_def)

lemma inorder_erase_rot_left: "inorder (erase_rot_left c t p w k) = before k @ inorder t @ p # inorder w @ after k"
  by (cases "(c, t, p, w, k)" rule: erase_rot_left.cases) auto

lemma inorder_erase_rot_right: "inorder (erase_rot_right c w p t k) = before k @ inorder w @ p # inorder t @ after k"
  by (cases "(c, w, p, t, k)" rule: erase_rot_right.cases) auto

lemma inorder_erase_fix: "inorder (erase_fix t k) = inorder (plug k t)"
proof (induction t k rule: erase_fix.induct)
  case (1 t k)
  show ?case
    by (subst erase_fix.simps)
      (use 1 in \<open>auto simp: inorder_erase_rot_left inorder_erase_rot_right split: ctx.split rbt.split color.split\<close>)
qed

lemma down_left_inorder:
  "t \<noteq> Leaf \<Longrightarrow> down_left t k = (c, r, k') \<Longrightarrow>
   before k' = before k \<and> leftmost t # inorder r @ after k' = inorder t @ after k"
  by (induction t k rule: down_left.induct) (auto split: rbt.splits)

lemma inorder_cut [simp]: "inorder (cut c t k) = inorder (plug k t)"
  by (simp add: cut_def inorder_erase_fix)

lemma inorder_erase_at:
  "inorder (erase_at (Node c l p r) k) = before k @ inorder l @ inorder r @ after k"
proof (cases "l = Leaf \<or> r = Leaf")
  case True
  then show ?thesis by (cases l; cases r) auto
next
  case False
  obtain sc child k' where d: "down_left r (InR c l (leftmost r) k) = (sc, child, k')"
    by (cases "down_left r (InR c l (leftmost r) k)")
  have "erase_at (Node c l p r) k = cut sc child k'"
    using False d by (cases l; cases r) auto
  then show ?thesis using down_left_inorder [OF _ d] False by simp
qed

section \<open>Balance\<close>

fun bheight :: "'a rbt \<Rightarrow> nat" where
  "bheight Leaf = 0"
| "bheight (Node c l p r) = bheight l + (if c = Black then 1 else 0)"

fun invh :: "'a rbt \<Rightarrow> bool" where
  "invh Leaf = True"
| "invh (Node c l p r) = (bheight l = bheight r \<and> invh l \<and> invh r)"

fun invc :: "'a rbt \<Rightarrow> bool" where
  "invc Leaf = True"
| "invc (Node c l p r) = ((c = Red \<longrightarrow> \<not> is_red l \<and> \<not> is_red r) \<and> invc l \<and> invc r)"

definition rbtree :: "'a rbt \<Rightarrow> bool" where
  "rbtree t \<longleftrightarrow> invc t \<and> invh t \<and> \<not> is_red t"

fun ctx_color :: "'a ctx \<Rightarrow> color" where
  "ctx_color Top = Black"
| "ctx_color (InL c p r k) = c"
| "ctx_color (InR c l p k) = c"

text \<open>What a context asks of the tree in its hole: a black height, and no red root below a red
  node. The root of the whole tree is black.\<close>

fun ctx_invh :: "'a ctx \<Rightarrow> nat \<Rightarrow> bool" where
  "ctx_invh Top h = True"
| "ctx_invh (InL c p r k) h = (invh r \<and> bheight r = h \<and> ctx_invh k (h + (if c = Black then 1 else 0)))"
| "ctx_invh (InR c l p k) h = (invh l \<and> bheight l = h \<and> ctx_invh k (h + (if c = Black then 1 else 0)))"

fun ctx_invc :: "'a ctx \<Rightarrow> bool" where
  "ctx_invc Top = True"
| "ctx_invc (InL c p r k) =
     (invc r \<and> (c = Red \<longrightarrow> \<not> is_red r \<and> ctx_color k = Black \<and> k \<noteq> Top) \<and> ctx_invc k)"
| "ctx_invc (InR c l p k) =
     (invc l \<and> (c = Red \<longrightarrow> \<not> is_red l \<and> ctx_color k = Black \<and> k \<noteq> Top) \<and> ctx_invc k)"

lemma color_cases: "c \<noteq> Red \<longleftrightarrow> c = Black" "c \<noteq> Black \<longleftrightarrow> c = Red"
  by (cases c; simp)+

lemma invh_plug: "invh (plug k t) \<longleftrightarrow> invh t \<and> ctx_invh k (bheight t)"
  by (induction k arbitrary: t) (simp_all, (metis+)?)

lemma invc_plug:
  "invc (plug k t) \<and> \<not> is_red (plug k t) \<longleftrightarrow>
   invc t \<and> ctx_invc k \<and> (is_red t \<longrightarrow> ctx_color k = Black \<and> k \<noteq> Top)"
  by (induction k arbitrary: t) (auto simp: color_cases)

lemma rbtree_plug:
  "rbtree (plug k t) \<longleftrightarrow> invc t \<and> invh t \<and> ctx_invc k \<and> ctx_invh k (bheight t)
     \<and> (is_red t \<longrightarrow> ctx_color k = Black \<and> k \<noteq> Top)"
  using invc_plug [of k t] invh_plug [of k t] by (auto simp: rbtree_def)

lemma rbtree_paint_root: "invc (plug k t) \<Longrightarrow> invh (plug k t) \<Longrightarrow> rbtree (paint Black (plug k t))"
  by (cases "plug k t") (auto simp: rbtree_def)

lemma paint_Black_id [simp]: "\<not> is_red t \<Longrightarrow> paint Black t = t"
  by (cases t) (auto simp: color_cases)

text \<open>A black tree may always be plugged in; a red one below a black node.\<close>

lemma rbtree_plug_paint:
  assumes "invc t" "invh t" "ctx_invc k" "ctx_invh k (bheight t)" "is_red t \<longrightarrow> ctx_color k = Black"
  shows "rbtree (paint Black (plug k t))"
proof (cases "is_red t \<and> k = Top")
  case True
  then show ?thesis using assms by (cases t) (auto simp: rbtree_def)
next
  case False
  then have "rbtree (plug k t)" using assms by (auto simp: rbtree_plug)
  then show ?thesis by (simp add: rbtree_def)
qed

lemma rbtree_ins_fix:
  assumes "is_red t" "invc t" "invh t" "ctx_invc k" "ctx_invh k (bheight t)"
  shows "rbtree (ins_fix t k)"
  using assms
proof (induction t k rule: ins_fix.induct)
  case (1 t p r c g u k)
  show ?case
  proof (cases "is_red u")
    case True
    then obtain l' y r' where u: "u = Node Red l' y r'" by (cases u) auto
    show ?thesis
      unfolding ins_fix.simps if_P [OF True]
      by (rule "1.IH" [OF True]) (use "1.prems" u in \<open>auto simp: color_cases\<close>)
  next
    case False
    show ?thesis
      unfolding ins_fix.simps if_not_P [OF False]
      by (rule rbtree_plug_paint) (use "1.prems" False in \<open>auto simp: color_cases\<close>)
  qed
next
  case (2 d a x b l p c g u k)
  show ?case
  proof (cases "is_red u")
    case True
    then obtain l' y r' where u: "u = Node Red l' y r'" by (cases u) auto
    show ?thesis
      unfolding ins_fix.simps if_P [OF True]
      by (rule "2.IH" [OF True]) (use "2.prems" u in \<open>auto simp: color_cases\<close>)
  next
    case False
    show ?thesis
      unfolding ins_fix.simps if_not_P [OF False]
      by (rule rbtree_plug_paint) (use "2.prems" False in \<open>auto simp: color_cases\<close>)
  qed
next
  case (3 t l p c u g k)
  show ?case
  proof (cases "is_red u")
    case True
    then obtain l' y r' where u: "u = Node Red l' y r'" by (cases u) auto
    show ?thesis
      unfolding ins_fix.simps if_P [OF True]
      by (rule "3.IH" [OF True]) (use "3.prems" u in \<open>auto simp: color_cases\<close>)
  next
    case False
    show ?thesis
      unfolding ins_fix.simps if_not_P [OF False]
      by (rule rbtree_plug_paint) (use "3.prems" False in \<open>auto simp: color_cases\<close>)
  qed
next
  case (4 d a x b p r c u g k)
  show ?case
  proof (cases "is_red u")
    case True
    then obtain l' y r' where u: "u = Node Red l' y r'" by (cases u) auto
    show ?thesis
      unfolding ins_fix.simps if_P [OF True]
      by (rule "4.IH" [OF True]) (use "4.prems" u in \<open>auto simp: color_cases\<close>)
  next
    case False
    show ?thesis
      unfolding ins_fix.simps if_not_P [OF False]
      by (rule rbtree_plug_paint) (use "4.prems" False in \<open>auto simp: color_cases\<close>)
  qed
qed (simp_all add: rbtree_plug_paint color_cases del: plug.simps paint.simps)

text \<open>
  Erasing: the tree in the hole is one black node short. While it is repaired its root may be
  red below a red child, which painting the root black corrects.
\<close>

lemma rbtree_erase_rot_left:
  assumes "invc t" "invh t" "\<not> is_red t" "invc w" "invh w" "\<not> is_red w" "\<not> kids_black w"
    "bheight w = Suc (bheight t)" "ctx_invc k" "ctx_invh k (bheight w + (if c = Black then 1 else 0))"
    "c = Red \<longrightarrow> ctx_color k = Black"
  shows "rbtree (erase_rot_left c t p w k)"
proof -
  obtain l q r where w: "w = Node Black l q r" "is_red l \<or> is_red r"
    using assms(6,7) by (cases w) (auto simp: color_cases)
  consider (right) "is_red r" | (left) a x b where "l = Node Red a x b" "\<not> is_red r"
    using w(2) by (cases l) auto
  then show ?thesis
  proof cases
    case right
    then obtain a x b where r: "r = Node Red a x b" by (cases r) auto
    have "erase_rot_left c t p w k = paint Black (plug k (Node c (Node Black t p l) q (paint Black r)))"
      using right w by (cases l; simp; cases "root_color l") auto
    also have "rbtree \<dots>"
      by (rule rbtree_plug_paint) (use assms w r in \<open>auto simp: color_cases\<close>)
    finally show ?thesis .
  next
    case left
    then have "erase_rot_left c t p w k = paint Black (plug k (Node c (Node Black t p a) x (Node Black b q r)))"
      using w by simp
    also have "rbtree \<dots>"
      by (rule rbtree_plug_paint) (use assms w left in \<open>auto simp: color_cases\<close>)
    finally show ?thesis .
  qed
qed

lemma rbtree_erase_rot_right:
  assumes "invc t" "invh t" "\<not> is_red t" "invc w" "invh w" "\<not> is_red w" "\<not> kids_black w"
    "bheight w = Suc (bheight t)" "ctx_invc k" "ctx_invh k (bheight w + (if c = Black then 1 else 0))"
    "c = Red \<longrightarrow> ctx_color k = Black"
  shows "rbtree (erase_rot_right c w p t k)"
proof -
  obtain l q r where w: "w = Node Black l q r" "is_red l \<or> is_red r"
    using assms(6,7) by (cases w) (auto simp: color_cases)
  consider (left) "is_red l" | (right) a x b where "r = Node Red a x b" "\<not> is_red l"
    using w(2) by (cases r) auto
  then show ?thesis
  proof cases
    case left
    then obtain a x b where l: "l = Node Red a x b" by (cases l) auto
    have "erase_rot_right c w p t k = paint Black (plug k (Node c (paint Black l) q (Node Black r p t)))"
      using left w by (cases r; simp; cases "root_color r") auto
    also have "rbtree \<dots>"
      by (rule rbtree_plug_paint) (use assms w l in \<open>auto simp: color_cases\<close>)
    finally show ?thesis .
  next
    case right
    then have "erase_rot_right c w p t k = paint Black (plug k (Node c (Node Black l q a) x (Node Black b p t)))"
      using w by simp
    also have "rbtree \<dots>"
      by (rule rbtree_plug_paint) (use assms w right in \<open>auto simp: color_cases\<close>)
    finally show ?thesis .
  qed
qed

lemma bheight_paint: "bheight (paint Black t) = bheight t + (if is_red t then 1 else 0)"
  by (cases t) (auto simp: color_cases)

lemma invh_paint [simp]: "invh (paint c t) = invh t"
  by (cases t) auto

text \<open>One step of the repair on the left side, for a black sibling.\<close>

lemma paint_Red_kids_black:
  assumes "invc w" "invh w" "\<not> is_red w" "kids_black w" "bheight w = Suc n"
  shows "invc (paint Red w) \<and> bheight (paint Red w) = n \<and> is_red (paint Red w)"
  using assms by (cases w) (auto simp: color_cases)

text \<open>The equations of the loop, one per sibling colour and side.\<close>

lemma erase_fix_red: "is_red t \<Longrightarrow> erase_fix t k = plug k (paint Black t)"
  by (subst erase_fix.simps) simp

lemma erase_fix_Top: "\<not> is_red t \<Longrightarrow> erase_fix t Top = t"
  by (subst erase_fix.simps) simp

lemma erase_fix_InL_red:
  "\<not> is_red t \<Longrightarrow> erase_fix t (InL c p (Node Red wl q wr) k') =
     (if kids_black wl then erase_fix (Node Red t p (paint Red wl)) (InL Black q wr k')
      else erase_rot_left Red t p wl (InL Black q wr k'))"
  by (subst erase_fix.simps) simp

lemma erase_fix_InL_black:
  "\<not> is_red t \<Longrightarrow> \<not> is_red w \<Longrightarrow> erase_fix t (InL c p w k') =
     (if kids_black w then erase_fix (Node c t p (paint Red w)) k'
      else erase_rot_left c t p w k')"
  by (subst erase_fix.simps) (cases w, auto simp: color_cases)

lemma erase_fix_InR_red:
  "\<not> is_red t \<Longrightarrow> erase_fix t (InR c (Node Red wl q wr) p k') =
     (if kids_black wr then erase_fix (Node Red (paint Red wr) p t) (InR Black wl q k')
      else erase_rot_right Red wr p t (InR Black wl q k'))"
  by (subst erase_fix.simps) simp

lemma erase_fix_InR_black:
  "\<not> is_red t \<Longrightarrow> \<not> is_red w \<Longrightarrow> erase_fix t (InR c w p k') =
     (if kids_black w then erase_fix (Node c (paint Red w) p t) k'
      else erase_rot_right c w p t k')"
  by (subst erase_fix.simps) (cases w, auto simp: color_cases)

lemma erase_step_InL:
  fixes t w :: "'a rbt"
  assumes IH: "\<And>(t' :: 'a rbt) k''. 2 * depth k'' + (if is_red t' then 0 else 1) < 2 * depth (InL c p w k') + 1 \<Longrightarrow>
      invc (paint Black t') \<Longrightarrow> invh t' \<Longrightarrow> ctx_invc k'' \<Longrightarrow> ctx_invh k'' (Suc (bheight t')) \<Longrightarrow>
      rbtree (erase_fix t' k'')"
    and t: "\<not> is_red t" "invc t" "invh t"
    and k: "ctx_invc (InL c p w k')" "ctx_invh (InL c p w k') (Suc (bheight t))"
  shows "rbtree (erase_fix t (InL c p w k'))"
proof (cases "is_red w")
  case True
  then obtain wl q wr where w: "w = Node Red wl q wr" by (cases w) auto
  have s: "invc wl" "invh wl" "\<not> is_red wl" "bheight wl = Suc (bheight t)"
    "ctx_invc (InL Black q wr k')" "ctx_invh (InL Black q wr k') (bheight wl)"
    using k w by (auto simp: color_cases)
  have "rbtree (erase_fix (Node Red t p (paint Red wl)) (InL Black q wr k'))" if "kids_black wl"
    using paint_Red_kids_black [OF s(1-3) that s(4)] s t by (intro IH) auto
  moreover have "rbtree (erase_rot_left Red t p wl (InL Black q wr k'))" if "\<not> kids_black wl"
    by (rule rbtree_erase_rot_left) (use that s t in auto)
  ultimately show ?thesis using t(1) w by (simp add: erase_fix_InL_red)
next
  case False
  have s: "invc w" "invh w" "bheight w = Suc (bheight t)" "ctx_invc k'"
    "ctx_invh k' (bheight w + (if c = Black then 1 else 0))" "c = Red \<longrightarrow> ctx_color k' = Black"
    using k by auto
  have "rbtree (erase_fix (Node c t p (paint Red w)) k')" if "kids_black w"
    using paint_Red_kids_black [OF s(1,2) False that s(3)] s t by (intro IH) (auto split: if_splits)
  moreover have "rbtree (erase_rot_left c t p w k')" if "\<not> kids_black w"
    by (rule rbtree_erase_rot_left) (use that False s t in auto)
  ultimately show ?thesis using t(1) False by (simp add: erase_fix_InL_black)
qed

lemma erase_step_InR:
  fixes t w :: "'a rbt"
  assumes IH: "\<And>(t' :: 'a rbt) k''. 2 * depth k'' + (if is_red t' then 0 else 1) < 2 * depth (InR c w p k') + 1 \<Longrightarrow>
      invc (paint Black t') \<Longrightarrow> invh t' \<Longrightarrow> ctx_invc k'' \<Longrightarrow> ctx_invh k'' (Suc (bheight t')) \<Longrightarrow>
      rbtree (erase_fix t' k'')"
    and t: "\<not> is_red t" "invc t" "invh t"
    and k: "ctx_invc (InR c w p k')" "ctx_invh (InR c w p k') (Suc (bheight t))"
  shows "rbtree (erase_fix t (InR c w p k'))"
proof (cases "is_red w")
  case True
  then obtain wl q wr where w: "w = Node Red wl q wr" by (cases w) auto
  have s: "invc wr" "invh wr" "\<not> is_red wr" "bheight wr = Suc (bheight t)"
    "ctx_invc (InR Black wl q k')" "ctx_invh (InR Black wl q k') (bheight wr)"
    using k w by (auto simp: color_cases)
  have "rbtree (erase_fix (Node Red (paint Red wr) p t) (InR Black wl q k'))" if "kids_black wr"
    using paint_Red_kids_black [OF s(1-3) that s(4)] s t by (intro IH) auto
  moreover have "rbtree (erase_rot_right Red wr p t (InR Black wl q k'))" if "\<not> kids_black wr"
    by (rule rbtree_erase_rot_right) (use that s t in auto)
  ultimately show ?thesis using t(1) w by (simp add: erase_fix_InR_red)
next
  case False
  have s: "invc w" "invh w" "bheight w = Suc (bheight t)" "ctx_invc k'"
    "ctx_invh k' (bheight w + (if c = Black then 1 else 0))" "c = Red \<longrightarrow> ctx_color k' = Black"
    using k by auto
  have "rbtree (erase_fix (Node c (paint Red w) p t) k')" if "kids_black w"
    using paint_Red_kids_black [OF s(1,2) False that s(3)] s t by (intro IH) (auto split: if_splits)
  moreover have "rbtree (erase_rot_right c w p t k')" if "\<not> kids_black w"
    by (rule rbtree_erase_rot_right) (use that False s t in auto)
  ultimately show ?thesis using t(1) False by (simp add: erase_fix_InR_black)
qed

lemma rbtree_erase_fix:
  assumes "invc (paint Black t)" "invh t" "ctx_invc k" "ctx_invh k (Suc (bheight t))"
  shows "rbtree (erase_fix t k)"
  using assms
proof (induction "2 * depth k + (if is_red t then 0 else 1)" arbitrary: t k rule: less_induct)
  case less
  show ?case
  proof (cases "is_red t")
    case True
    have "rbtree (plug k (paint Black t))"
      unfolding rbtree_plug using less.prems True bheight_paint [of t] by (cases t) auto
    with True show ?thesis by (simp add: erase_fix_red)
  next
    case black: False
    then have t: "\<not> is_red t" "invc t" "invh t" using less.prems by simp_all
    show ?thesis
    proof (cases k)
      case Top
      then show ?thesis using t by (simp add: erase_fix_Top rbtree_def)
    next
      case (InL c p w k')
      show ?thesis unfolding InL
        by (rule erase_step_InL) (use less t InL in auto)
    next
      case (InR c w p k')
      show ?thesis unfolding InR
        by (rule erase_step_InR) (use less t InR in auto)
    qed
  qed
qed

lemma rbtree_cut:
  assumes "invc child" "invh child" "ctx_invc k" "ctx_invh k (bheight child + (if c = Black then 1 else 0))"
    "c = Red \<Longrightarrow> \<not> is_red child"
  shows "rbtree (cut c child k)"
proof (cases "c = Black")
  case True
  have "invc (paint Black child)" using assms(1) by (cases child) auto
  then show ?thesis using True assms by (simp add: cut_def rbtree_erase_fix)
next
  case False
  then show ?thesis using assms by (simp add: cut_def rbtree_plug color_cases)
qed

lemma down_left_inv:
  assumes "down_left t k = (c, child, k')" "t \<noteq> Leaf" "invc t" "invh t" "ctx_invc k"
    "ctx_invh k (bheight t)" "is_red t \<longrightarrow> ctx_color k = Black \<and> k \<noteq> Top"
  shows "invc child \<and> invh child \<and> ctx_invc k'
    \<and> ctx_invh k' (bheight child + (if c = Black then 1 else 0)) \<and> (c = Red \<longrightarrow> \<not> is_red child)"
  using assms
proof (induction t k rule: down_left.induct)
  case (1 c p r k)
  then show ?case by (cases r) (auto simp: color_cases split: if_splits)
next
  case (2 c cl ll pl rl p r k)
  then show ?case by (auto simp: color_cases split: if_splits)
qed simp

theorem rbtree_erase_at:
  assumes "rbtree (plug k (Node c l p r))"
  shows "rbtree (erase_at (Node c l p r) k)"
proof -
  have inv: "invc l" "invc r" "invh l" "invh r" "bheight l = bheight r" "ctx_invc k"
    "ctx_invh k (bheight l + (if c = Black then 1 else 0))"
    "c = Red \<longrightarrow> \<not> is_red l \<and> \<not> is_red r \<and> ctx_color k = Black \<and> k \<noteq> Top"
    using assms by (auto simp: rbtree_plug)
  consider "l = Leaf" | "l \<noteq> Leaf" "r = Leaf" | (both) "l \<noteq> Leaf" "r \<noteq> Leaf" by blast
  then show ?thesis
  proof cases
    case 1
    then show ?thesis using inv by (auto intro!: rbtree_cut split: if_splits)
  next
    case 2
    then have "erase_at (Node c l p r) k = cut c l k" by (cases l) auto
    with 2 inv show ?thesis by (auto intro!: rbtree_cut split: if_splits)
  next
    case both
    obtain sc child k' where d: "down_left r (InR c l (leftmost r) k) = (sc, child, k')"
      by (cases "down_left r (InR c l (leftmost r) k)")
    have "erase_at (Node c l p r) k = cut sc child k'"
      using both d by (cases l; cases r) auto
    moreover have "invc child \<and> invh child \<and> ctx_invc k'
        \<and> ctx_invh k' (bheight child + (if sc = Black then 1 else 0)) \<and> (sc = Red \<longrightarrow> \<not> is_red child)"
      by (rule down_left_inv [OF d both(2)]) (use inv in \<open>auto simp: color_cases\<close>)
    ultimately show ?thesis by (auto intro!: rbtree_cut)
  qed
qed

text \<open>The bound that makes the walks short: a red-black tree of \<open>n\<close> nodes has height at most
  \<open>2 log (n + 1)\<close>.\<close>

fun height :: "'a rbt \<Rightarrow> nat" where
  "height Leaf = 0"
| "height (Node c l p r) = Suc (max (height l) (height r))"

lemma bheight_size: "invh t \<Longrightarrow> 2 ^ bheight t \<le> length (inorder t) + 1"
proof (induction t)
  case (Node c l p r)
  then have "2 ^ bheight l + 2 ^ bheight l \<le> length (inorder l) + length (inorder r) + 2" by auto
  then show ?case by auto
qed simp

lemma height_bheight: "invc t \<Longrightarrow> invh t \<Longrightarrow> height t \<le> 2 * bheight t + (if is_red t then 1 else 0)"
  by (induction t) (auto simp: color_cases split: if_splits)

lemma rbtree_height:
  assumes "rbtree t"
  shows "2 ^ (height t div 2) \<le> length (inorder t) + 1"
proof -
  have "height t div 2 \<le> bheight t" using height_bheight [of t] assms by (auto simp: rbtree_def)
  then have "(2::nat) ^ (height t div 2) \<le> 2 ^ bheight t" by (rule power_increasing) simp
  also have "\<dots> \<le> length (inorder t) + 1" using assms by (intro bheight_size) (simp add: rbtree_def)
  finally show ?thesis .
qed

end
