(* ===== verification/Rbtree_Refine.thy ===== *)
theory Rbtree_Refine
  imports Rbtree Rbtree_Func
begin

text \<open>
  The pointer code of \<open>lib/rbtree.c\<close> refines the trees of theory Rbtree\_Func: on a memory that
  holds a tree, insertion and deletion return, and the memory then holds the rebalanced tree.
\<close>

section \<open>Parent and colour in one word\<close>

definition aligned :: "u32 \<Rightarrow> bool" where
  "aligned a \<longleftrightarrow> a AND 3 = 0"

definition rcol :: "rb_mem \<Rightarrow> u32 \<Rightarrow> color" where
  "rcol m r = (if rb_is_red m r then Red else Black)"

lemma aligned_0 [simp]: "aligned 0"
  by (simp add: aligned_def)

lemma aligned_bit: "aligned a \<Longrightarrow> bit a n \<Longrightarrow> \<not> bit (3 :: u32) n"
  unfolding aligned_def by (metis bit_0_eq bit_and_iff bot_apply bot_bool_def)

lemma bit_3_0 [simp]: "bit (3 :: u32) 0"
  by simp

lemma bit_masks:
  "bit (- 4 :: u32) n \<longleftrightarrow> n < 32 \<and> \<not> bit (3 :: u32) n" "bit (- 2 :: u32) n \<longleftrightarrow> n < 32 \<and> n \<noteq> 0"
  using bit_not_iff [of "3 :: u32" n] bit_not_iff [of "1 :: u32" n] by (auto simp: bit_1_iff)

lemmas pc_bits = bit_and_iff bit_or_iff bit_masks bit_1_iff

lemma bit_u32: "bit (x :: u32) n \<Longrightarrow> n < 32"
  using bit_imp_le_length [of x n] by simp

lemma pc_set_parent:
  fixes x :: u32
  assumes "aligned p"
  shows "((x AND 3) OR p) AND - 4 = p" "((x AND 3) OR p) AND 1 = x AND 1"
proof -
  show "((x AND 3) OR p) AND - 4 = p"
    by (rule bit_eqI) (use aligned_bit [OF assms] in \<open>auto simp only: pc_bits dest: bit_u32\<close>)
  show "((x AND 3) OR p) AND 1 = x AND 1"
    by (rule bit_eqI) (use aligned_bit [OF assms, of 0] bit_3_0 in \<open>auto simp only: pc_bits\<close>)
qed

lemma pc_set_color:
  "(x AND - 2) AND - 4 = x AND - 4" "(x OR 1) AND - 4 = x AND - 4"
  "((x AND - 2) OR (y AND 1)) AND - 4 = x AND - 4" for x :: u32
  by (rule bit_eqI; simp only: pc_bits; metis bit_3_0 bit_u32)+

lemma pc_color:
  "(x AND - 2) AND 1 = 0" "(x OR 1) AND 1 = 1"
  "((x AND - 2) OR (y AND 1)) AND 1 = y AND 1" for x :: u32
  by (rule bit_eqI; auto simp only: pc_bits bit_0_eq bot_apply bot_bool_def)+

lemmas pc_simps = rb_parent_def rcol_def rb_is_red_def rb_is_black_def rb_color_def upd_pc_def
  rb_set_red_def rb_set_black_def rb_set_parent_def rb_set_color_def set_left_def set_right_def
  set_root_def

named_theorems rb_simps \<open>reading a field after an update\<close>

lemma rb_parent_upd [rb_simps]:
  "aligned p \<Longrightarrow> rb_parent (rb_set_parent r p m) = (rb_parent m)(r := p)"
  "rb_parent (rb_set_red r m) = rb_parent m" "rb_parent (rb_set_black r m) = rb_parent m"
  "rb_parent (rb_set_color r (rb_color m' q) m) = rb_parent m"
  "rb_parent (set_left r x m) = rb_parent m" "rb_parent (set_right r x m) = rb_parent m"
  "rb_parent (set_root x m) = rb_parent m"
  by (auto simp: pc_simps fun_eq_iff pc_set_parent pc_set_color)

lemma rcol_upd [rb_simps]:
  "aligned p \<Longrightarrow> rcol (rb_set_parent r p m) = rcol m"
  "rcol (rb_set_red r m) = (rcol m)(r := Red)" "rcol (rb_set_black r m) = (rcol m)(r := Black)"
  "rcol (rb_set_color r (rb_color m' q) m) = (rcol m)(r := rcol m' q)"
  "rcol (set_left r x m) = rcol m" "rcol (set_right r x m) = rcol m" "rcol (set_root x m) = rcol m"
  by (auto simp: pc_simps fun_eq_iff pc_set_parent pc_color)

lemma rb_left_upd [rb_simps]:
  "rb_left (rb_set_parent r p m) = rb_left m" "rb_left (rb_set_red r m) = rb_left m"
  "rb_left (rb_set_black r m) = rb_left m" "rb_left (rb_set_color r c m) = rb_left m"
  "rb_left (set_left r x m) = (rb_left m)(r := x)" "rb_left (set_right r x m) = rb_left m"
  "rb_left (set_root x m) = rb_left m"
  by (simp_all add: pc_simps)

lemma rb_right_upd [rb_simps]:
  "rb_right (rb_set_parent r p m) = rb_right m" "rb_right (rb_set_red r m) = rb_right m"
  "rb_right (rb_set_black r m) = rb_right m" "rb_right (rb_set_color r c m) = rb_right m"
  "rb_right (set_left r x m) = rb_right m" "rb_right (set_right r x m) = (rb_right m)(r := x)"
  "rb_right (set_root x m) = rb_right m"
  by (simp_all add: pc_simps)

lemma rb_root_upd [rb_simps]:
  "rb_root (rb_set_parent r p m) = rb_root m" "rb_root (rb_set_red r m) = rb_root m"
  "rb_root (rb_set_black r m) = rb_root m" "rb_root (rb_set_color r c m) = rb_root m"
  "rb_root (set_left r x m) = rb_root m" "rb_root (set_right r x m) = rb_root m"
  "rb_root (set_root x m) = x"
  by (simp_all add: pc_simps)

lemma red_rcol: "rb_is_red m r \<longleftrightarrow> rcol m r = Red" "rb_is_black m r \<longleftrightarrow> rcol m r = Black"
  by (auto simp: pc_simps)

lemma color_rcol: "rb_color m r = RB_BLACK \<longleftrightarrow> rcol m r = Black"
proof -
  have "x AND 1 = 0 \<or> x AND 1 = 1" for x :: u32
    by (cases "bit x 0") (auto simp: and_one_eq odd_iff_mod_2_eq_one bit_0)
  then have "rb_parent_color m r AND 1 = 0 \<or> rb_parent_color m r AND 1 = 1" .
  then show ?thesis by (auto simp: pc_simps RB_BLACK_def)
qed

section \<open>Trees in memory\<close>

fun ptr :: "u32 rbt \<Rightarrow> u32" where
  "ptr Leaf = 0"
| "ptr (Node c l p r) = p"

fun cptr :: "u32 ctx \<Rightarrow> u32" where
  "cptr Top = 0"
| "cptr (InL c p r k) = p"
| "cptr (InR c l p k) = p"

definition cell :: "rb_mem \<Rightarrow> u32 \<Rightarrow> color \<Rightarrow> u32 \<Rightarrow> u32 \<Rightarrow> u32 \<Rightarrow> bool" where
  "cell m p c par l r \<longleftrightarrow>
     rcol m p = c \<and> rb_parent m p = par \<and> rb_left m p = l \<and> rb_right m p = r"

fun rep :: "rb_mem \<Rightarrow> u32 \<Rightarrow> u32 rbt \<Rightarrow> bool" where
  "rep m par Leaf = True"
| "rep m par (Node c l p r) = (cell m p c par (ptr l) (ptr r) \<and> rep m p l \<and> rep m p r)"

text \<open>The memory around a hole that holds the pointer \<open>h\<close>.\<close>

fun crep :: "rb_mem \<Rightarrow> u32 ctx \<Rightarrow> u32 \<Rightarrow> bool" where
  "crep m Top h = (rb_root m = h)"
| "crep m (InL c p r k) h = (cell m p c (cptr k) h (ptr r) \<and> rep m p r \<and> crep m k p)"
| "crep m (InR c l p k) h = (cell m p c (cptr k) (ptr l) h \<and> rep m p l \<and> crep m k p)"

definition nodes_ok :: "u32 list \<Rightarrow> bool" where
  "nodes_ok xs \<longleftrightarrow> distinct xs \<and> (\<forall>p \<in> set xs. p \<noteq> 0 \<and> aligned p)"

definition tree_rep :: "rb_mem \<Rightarrow> u32 rbt \<Rightarrow> bool" where
  "tree_rep m t \<longleftrightarrow> rb_root m = ptr t \<and> rep m 0 t \<and> nodes_ok (inorder t)"

lemma rep_plug: "rb_root m = ptr (plug k t) \<and> rep m 0 (plug k t) \<longleftrightarrow> rep m (cptr k) t \<and> crep m k (ptr t)"
  by (induction k arbitrary: t) auto

lemma tree_rep_plug:
  "tree_rep m (plug k t) \<longleftrightarrow> rep m (cptr k) t \<and> crep m k (ptr t)
     \<and> nodes_ok (before k @ inorder t @ after k)"
  using rep_plug [of m k t] by (auto simp: tree_rep_def)

definition same_at :: "rb_mem \<Rightarrow> rb_mem \<Rightarrow> u32 \<Rightarrow> bool" where
  "same_at m m' p \<longleftrightarrow> rcol m p = rcol m' p \<and> rb_parent m p = rb_parent m' p
     \<and> rb_left m p = rb_left m' p \<and> rb_right m p = rb_right m' p"

lemma rep_cong: "(\<And>p. p \<in> set (inorder t) \<Longrightarrow> same_at m m' p) \<Longrightarrow> rep m par t = rep m' par t"
  by (induction t arbitrary: par) (auto simp: same_at_def cell_def)

lemma crep_cong:
  "(\<And>p. p \<in> set (before k) \<union> set (after k) \<Longrightarrow> same_at m m' p) \<Longrightarrow> rb_root m = rb_root m'
   \<Longrightarrow> crep m k h = crep m' k h"
proof (induction k arbitrary: h)
  case (InL c p r k)
  then show ?case using rep_cong [of r m m' p] by (auto simp: same_at_def cell_def)
next
  case (InR c l p k)
  then show ?case using rep_cong [of l m m' p] by (auto simp: same_at_def cell_def)
qed simp

section \<open>Local changes\<close>

text \<open>\<open>rep_plug_cong\<close> reduces a change of the memory to the nodes it touches.\<close>

fun set_hole :: "u32 ctx \<Rightarrow> u32 \<Rightarrow> rb_mem \<Rightarrow> rb_mem" where
  "set_hole Top x m = set_root x m"
| "set_hole (InL c p r k) x m = set_left p x m"
| "set_hole (InR c l p k) x m = set_right p x m"

abbreviation cnodes :: "u32 ctx \<Rightarrow> u32 set" where
  "cnodes k \<equiv> set (before k) \<union> set (after k)"

lemma cptr_in_cnodes: "cptr k \<noteq> 0 \<Longrightarrow> cptr k \<in> cnodes k"
  by (cases k) auto

lemma ptr_in: "ptr t \<noteq> 0 \<Longrightarrow> ptr t \<in> set (inorder t)"
  by (cases t) auto

lemma set_hole_fields [simp]:
  "rcol (set_hole k x m) = rcol m" "rb_parent (set_hole k x m) = rb_parent m"
  "y \<noteq> cptr k \<Longrightarrow> rb_left (set_hole k x m) y = rb_left m y"
  "y \<noteq> cptr k \<Longrightarrow> rb_right (set_hole k x m) y = rb_right m y"
  by (cases k; simp add: rb_simps)+

lemma crep_set_hole:
  assumes "crep m k h" and "nodes_ok (before k @ xs @ after k)"
  shows "crep (set_hole k x m) k x"
proof (cases k)
  case Top
  then show ?thesis by (simp add: rb_simps)
next
  case (InL c p r k')
  have "same_at m (set_left p x m) y" if "y \<in> set (inorder r) \<union> cnodes k'" for y
    using that assms(2) InL by (auto simp: same_at_def rb_simps nodes_ok_def)
  then show ?thesis
    using assms(1) InL rep_cong [of r m "set_left p x m" p] crep_cong [of k' m "set_left p x m" p]
    by (auto simp: cell_def rb_simps)
next
  case (InR c l p k')
  have "same_at m (set_right p x m) y" if "y \<in> set (inorder l) \<union> cnodes k'" for y
    using that assms(2) InR by (auto simp: same_at_def rb_simps nodes_ok_def)
  then show ?thesis
    using assms(1) InR rep_cong [of l m "set_right p x m" p] crep_cong [of k' m "set_right p x m" p]
    by (auto simp: cell_def rb_simps)
qed

text \<open>Both forms of the test which child of the parent a node is.\<close>

lemma set_hole_eq:
  assumes "crep m k h" and "nodes_ok (before k @ xs @ after k)" and "h \<in> set xs"
  shows "(if cptr k \<noteq> 0 then (if h = rb_left m (cptr k) then set_left (cptr k) x m
           else set_right (cptr k) x m) else set_root x m) = set_hole k x m"
    and "(if cptr k \<noteq> 0 then (if h = rb_right m (cptr k) then set_right (cptr k) x m
           else set_left (cptr k) x m) else set_root x m) = set_hole k x m"
proof -
  have sib: "ptr t \<noteq> h" if "set (inorder t) \<subseteq> cnodes k" for t
    using that assms(2,3) ptr_in [of t] by (auto simp: nodes_ok_def)
  have "cptr k \<noteq> 0" if "k \<noteq> Top" using that assms(2) by (cases k) (auto simp: nodes_ok_def)
  then show "(if cptr k \<noteq> 0 then (if h = rb_left m (cptr k) then set_left (cptr k) x m
           else set_right (cptr k) x m) else set_root x m) = set_hole k x m"
    "(if cptr k \<noteq> 0 then (if h = rb_right m (cptr k) then set_right (cptr k) x m
           else set_left (cptr k) x m) else set_root x m) = set_hole k x m"
    using assms(1) sib by (cases k; force simp: cell_def)+
qed

lemma aligned_cptr: "nodes_ok (before k @ xs @ after k) \<Longrightarrow> aligned (cptr k)"
  by (cases k) (auto simp: nodes_ok_def)

text \<open>Recolouring a node.\<close>

lemma tree_rep_recolor:
  assumes t: "tree_rep m (plug k (Node c l p r))"
    and m': "rcol m' = (rcol m)(p := d)" "rb_parent m' = rb_parent m" "rb_left m' = rb_left m"
      "rb_right m' = rb_right m" "rb_root m' = rb_root m"
  shows "tree_rep m' (plug k (Node d l p r))"
proof -
  have s: "same_at m m' x" if "x \<noteq> p" for x using that m' by (auto simp: same_at_def)
  have "nodes_ok (before k @ inorder (Node c l p r) @ after k)" using t by (simp add: tree_rep_plug)
  then have "x \<noteq> p" if "x \<in> set (inorder l) \<union> set (inorder r) \<union> cnodes k" for x
    using that by (auto simp: nodes_ok_def)
  then show ?thesis
    using t m' s rep_cong [of l m m' p] rep_cong [of r m m' p] crep_cong [of k m m' p]
    by (auto simp: tree_rep_plug cell_def)
qed

lemma tree_rep_set_red: "tree_rep m (plug k (Node c l p r)) \<Longrightarrow> tree_rep (rb_set_red p m) (plug k (Node Red l p r))"
  by (rule tree_rep_recolor) (auto simp: rb_simps)

lemma tree_rep_set_black: "tree_rep m (plug k (Node c l p r)) \<Longrightarrow> tree_rep (rb_set_black p m) (plug k (Node Black l p r))"
  by (rule tree_rep_recolor) (auto simp: rb_simps)

lemma tree_rep_set_color:
  "tree_rep m (plug k (Node c l p r))
   \<Longrightarrow> tree_rep (rb_set_color p (rb_color m' q) m) (plug k (Node (rcol m' q) l p r))"
  by (rule tree_rep_recolor) (auto simp: rb_simps)

text \<open>A subtree gets a new parent.\<close>

definition adopt :: "u32 \<Rightarrow> u32 rbt \<Rightarrow> rb_mem \<Rightarrow> rb_mem" where
  "adopt q t m = (if ptr t \<noteq> 0 then rb_set_parent (ptr t) q m else m)"

lemma adopt_fields:
  "aligned q \<Longrightarrow> rcol (adopt q t m) = rcol m" "rb_left (adopt q t m) = rb_left m"
  "rb_right (adopt q t m) = rb_right m" "rb_root (adopt q t m) = rb_root m"
  "aligned q \<Longrightarrow> y \<noteq> ptr t \<Longrightarrow> rb_parent (adopt q t m) y = rb_parent m y"
  "aligned q \<Longrightarrow> ptr t \<noteq> 0 \<Longrightarrow> rb_parent (adopt q t m) (ptr t) = q"
  by (simp_all add: adopt_def rb_simps)

text \<open>A subtree whose nodes are as before except that its root has the parent \<open>q\<close>.\<close>

lemma rep_adopted:
  assumes "rep m par t" and "nodes_ok (inorder t)"
    and "\<And>y. y \<in> set (inorder t) \<Longrightarrow> rcol m' y = rcol m y \<and> rb_left m' y = rb_left m y \<and> rb_right m' y = rb_right m y"
    and "\<And>y. y \<in> set (inorder t) \<Longrightarrow> y \<noteq> ptr t \<Longrightarrow> rb_parent m' y = rb_parent m y"
    and "t \<noteq> Leaf \<Longrightarrow> rb_parent m' (ptr t) = q"
  shows "rep m' q t"
proof (cases t)
  case (Node c l p r)
  have "same_at m m' y" if "y \<in> set (inorder l) \<union> set (inorder r)" for y
  proof -
    have "y \<in> set (inorder t)" "y \<noteq> ptr t" using that assms(2) Node by (auto simp: nodes_ok_def)
    then show ?thesis using assms(3) [of y] assms(4) [of y] by (simp add: same_at_def)
  qed
  then show ?thesis
    using assms(1,5) assms(3) [of p] Node rep_cong [of l m m' p] rep_cong [of r m m' p]
    by (auto simp: cell_def)
qed simp

section \<open>Rotations\<close>

lemma rotate_left_eq:
  assumes "tree_rep m (plug k (Node c a p (Node d b q e)))"
  shows "rb_rotate_left p m = rb_set_parent p q
    (set_hole k q (rb_set_parent q (cptr k) (set_left q p (adopt p b (set_right p (ptr b) m)))))"
proof -
  let ?xs = "inorder (Node c a p (Node d b q e))"
  have r: "rep m (cptr k) (Node c a p (Node d b q e))" "crep m k p" "nodes_ok (before k @ ?xs @ after k)"
    using assms by (auto simp: tree_rep_plug)
  have f: "rb_right m p = q" "rb_parent m p = cptr k" "rb_left m q = ptr b"
    using r(1) by (auto simp: cell_def)
  let ?m2 = "adopt p b (set_right p (ptr b) m)"
  let ?m4 = "rb_set_parent q (cptr k) (set_left q p ?m2)"
  have ne: "p \<noteq> q" "p \<noteq> 0" "q \<noteq> 0" "cptr k \<noteq> q" "cptr k \<noteq> p" "aligned p" "aligned q"
    using r(3) cptr_in_cnodes [of k] by (auto simp: nodes_ok_def)
  have hb: "y \<noteq> ptr b" if "y \<in> cnodes k" for y
    using that r(3) ptr_in [of b] by (cases "ptr b = 0") (auto simp: nodes_ok_def)
  have "same_at m ?m4 y" if "y \<in> cnodes k" for y
    using that r(3) hb aligned_cptr [OF r(3)] ne
    by (auto simp: same_at_def rb_simps adopt_fields nodes_ok_def)
  then have "crep ?m4 k p"
    using r(2) crep_cong [of k m ?m4 p] by (auto simp: rb_simps adopt_fields)
  from set_hole_eq(1) [OF this r(3), of q]
  have h: "(if cptr k \<noteq> 0 then (if p = rb_left ?m4 (cptr k) then set_left (cptr k) q ?m4
      else set_right (cptr k) q ?m4) else set_root q ?m4) = set_hole k q ?m4" by simp
  have m2: "?m2 = (let m1 = set_right p (rb_left m q) m
      in if rb_left m1 q \<noteq> 0 then rb_set_parent (rb_left m1 q) p m1 else m1)"
    using f(3) by (simp add: adopt_def rb_simps)
  show ?thesis
    unfolding rb_rotate_left_def Let_def f(1,2) m2 [unfolded Let_def, symmetric] h ..
qed

lemma tree_rep_rotate_left:
  assumes "tree_rep m (plug k (Node c a p (Node d b q e)))"
  shows "tree_rep (rb_rotate_left p m) (plug k (Node d (Node c a p b) q e))"
proof -
  let ?xs = "inorder (Node c a p (Node d b q e))"
  have r: "rep m (cptr k) (Node c a p (Node d b q e))" "crep m k p" "nodes_ok (before k @ ?xs @ after k)"
    using assms by (auto simp: tree_rep_plug)
  let ?m4 = "rb_set_parent q (cptr k) (set_left q p (adopt p b (set_right p (ptr b) m)))"
  let ?m = "rb_set_parent p q (set_hole k q ?m4)"
  have ne: "p \<noteq> q" "p \<noteq> 0" "q \<noteq> 0" "cptr k \<noteq> q" "cptr k \<noteq> p" "aligned p" "aligned q" "aligned (cptr k)"
    "ptr b \<noteq> p" "ptr b \<noteq> q" "ptr a \<noteq> p" "ptr e \<noteq> q"
    using r(3) cptr_in_cnodes [of k] aligned_cptr [OF r(3)] ptr_in [of b] ptr_in [of a] ptr_in [of e]
    by (auto simp: nodes_ok_def)
  have other: "y \<noteq> p \<and> y \<noteq> q \<and> y \<noteq> cptr k" if "y \<in> set (inorder a) \<union> set (inorder b) \<union> set (inorder e)" for y
    using that r(3) cptr_in_cnodes [of k] by (cases "cptr k = 0") (auto simp: nodes_ok_def)
  have hb: "y \<noteq> ptr b" if "y \<in> set (inorder a) \<union> set (inorder e) \<union> cnodes k" for y
    using that r(3) ptr_in [of b] by (cases "ptr b = 0") (auto simp: nodes_ok_def)
  note upd = rb_simps adopt_fields
  have a: "rep ?m p a" and e: "rep ?m q e"
    using r(1) rep_cong [of a m ?m p] rep_cong [of e m ?m q] other hb ne
    by (auto simp: same_at_def upd)
  have nb: "ptr b \<noteq> 0" if "b \<noteq> Leaf" using that r(3) by (cases b) (auto simp: nodes_ok_def)
  have b: "rep ?m p b"
  proof (rule rep_adopted [of m q])
    show "rep m q b" "nodes_ok (inorder b)" using r(1,3) by (auto simp: nodes_ok_def)
    show "rb_parent ?m (ptr b) = p" if "b \<noteq> Leaf" using nb [OF that] ne by (simp add: upd)
  qed (use other ne in \<open>auto simp: upd\<close>)
  have "same_at m ?m4 y" if "y \<in> cnodes k" for y
    using that r(3) hb ne by (auto simp: same_at_def upd nodes_ok_def)
  then have "crep ?m4 k p" using r(2) crep_cong [of k m ?m4 p] by (auto simp: upd)
  then have "crep (set_hole k q ?m4) k q" using r(3) by (rule crep_set_hole)
  moreover have "same_at (set_hole k q ?m4) ?m y" if "y \<in> cnodes k" for y
    using that r(3) ne by (auto simp: same_at_def upd nodes_ok_def)
  ultimately have k: "crep ?m k q"
    using crep_cong [of k "set_hole k q ?m4" ?m q] by (auto simp: upd)
  have "cell ?m q d (cptr k) p (ptr e)" "cell ?m p c q (ptr a) (ptr b)"
    using r(1) ne by (auto simp: cell_def upd)
  with a b e k r(3) show ?thesis
    unfolding rotate_left_eq [OF assms] by (simp add: tree_rep_plug nodes_ok_def)
qed

text \<open>The right rotation is the left rotation in the mirror.\<close>

definition mirror :: "rb_mem \<Rightarrow> rb_mem" where
  "mirror m = m\<lparr>rb_left := rb_right m, rb_right := rb_left m\<rparr>"

fun mirror_tree :: "'a rbt \<Rightarrow> 'a rbt" where
  "mirror_tree Leaf = Leaf"
| "mirror_tree (Node c l p r) = Node c (mirror_tree r) p (mirror_tree l)"

fun mirror_ctx :: "'a ctx \<Rightarrow> 'a ctx" where
  "mirror_ctx Top = Top"
| "mirror_ctx (InL c p r k) = InR c (mirror_tree r) p (mirror_ctx k)"
| "mirror_ctx (InR c l p k) = InL c p (mirror_tree l) (mirror_ctx k)"

lemma mirror_fields [simp]:
  "rb_left (mirror m) = rb_right m" "rb_right (mirror m) = rb_left m" "rb_root (mirror m) = rb_root m"
  "rb_parent_color (mirror m) = rb_parent_color m"
  "rcol (mirror m) = rcol m" "rb_parent (mirror m) = rb_parent m" "rb_color (mirror m) = rb_color m"
  "rb_is_red (mirror m) = rb_is_red m" "rb_is_black (mirror m) = rb_is_black m"
  "no_red (mirror m) = no_red m"
  by (auto simp: mirror_def rcol_def rb_parent_def rb_color_def rb_is_red_def rb_is_black_def
      no_red_def fun_eq_iff)

lemma mirror_mirror [simp]: "mirror (mirror m) = m"
  by (simp add: mirror_def)

lemma mirror_tree_mirror [simp]: "mirror_tree (mirror_tree t) = t"
  by (induction t) auto

lemma mirror_ctx_mirror [simp]: "mirror_ctx (mirror_ctx k) = k"
  by (induction k) auto

lemma mirror_upd [simp]:
  "mirror (rb_set_red r m) = rb_set_red r (mirror m)" "mirror (rb_set_black r m) = rb_set_black r (mirror m)"
  "mirror (rb_set_color r c m) = rb_set_color r c (mirror m)"
  "mirror (rb_set_parent r p m) = rb_set_parent r p (mirror m)"
  "mirror (set_left r x m) = set_right r x (mirror m)" "mirror (set_right r x m) = set_left r x (mirror m)"
  "mirror (set_root x m) = set_root x (mirror m)"
  by (simp_all add: pc_simps mirror_def)

lemma mirror_rotate: "mirror (rb_rotate_right p m) = rb_rotate_left p (mirror m)"
  by (simp add: rb_rotate_left_def rb_rotate_right_def Let_def rb_left_upd rb_right_upd)

lemma mirror_plug [simp]: "mirror_tree (plug k t) = plug (mirror_ctx k) (mirror_tree t)"
  by (induction k arbitrary: t) auto

lemma mirror_inorder [simp]: "inorder (mirror_tree t) = rev (inorder t)"
  by (induction t) auto

lemma mirror_ptr [simp]: "ptr (mirror_tree t) = ptr t"
  by (cases t) auto

lemma mirror_rep: "rep (mirror m) par (mirror_tree t) = rep m par t"
  by (induction t arbitrary: par) (auto simp: cell_def)

lemma mirror_tree_rep: "tree_rep (mirror m) (mirror_tree t) = tree_rep m t"
  by (simp add: tree_rep_def mirror_rep nodes_ok_def)

lemma tree_rep_rotate_right:
  assumes "tree_rep m (plug k (Node d (Node c a p b) q e))"
  shows "tree_rep (rb_rotate_right q m) (plug k (Node c a p (Node d b q e)))"
proof -
  have "tree_rep (mirror m) (mirror_tree (plug k (Node d (Node c a p b) q e)))"
    using assms by (simp add: mirror_tree_rep del: mirror_plug)
  then have "tree_rep (rb_rotate_left q (mirror m))
      (plug (mirror_ctx k) (Node c (Node d (mirror_tree e) q (mirror_tree b)) p (mirror_tree a)))"
    by (intro tree_rep_rotate_left) simp
  then have "tree_rep (mirror (rb_rotate_right q m)) (mirror_tree (plug k (Node c a p (Node d b q e))))"
    by (simp add: mirror_rotate)
  then show ?thesis by (simp add: mirror_tree_rep del: mirror_plug)
qed

section \<open>Insertion\<close>

lemma tree_rep_cell:
  assumes "tree_rep m (plug k (Node c l p r))"
  shows "rcol m p = c" "rb_parent m p = cptr k" "rb_left m p = ptr l" "rb_right m p = ptr r" "p \<noteq> 0"
  using assms by (auto simp: tree_rep_plug cell_def nodes_ok_def)

lemma tree_rep_ptr: "tree_rep m (plug k t) \<Longrightarrow> ptr t = 0 \<longleftrightarrow> t = Leaf"
  by (cases t) (auto simp: tree_rep_plug nodes_ok_def)

text \<open>The colour of a subtree, as the code tests it.\<close>

lemma tree_rep_red:
  assumes "tree_rep m (plug k t)"
  shows "ptr t \<noteq> 0 \<and> rb_is_red m (ptr t) \<longleftrightarrow> is_red t" "no_red m (ptr t) \<longleftrightarrow> \<not> is_red t"
proof -
  show "ptr t \<noteq> 0 \<and> rb_is_red m (ptr t) \<longleftrightarrow> is_red t"
    using assms tree_rep_cell [of m k] by (cases t) (auto simp: red_rcol)
  show "no_red m (ptr t) \<longleftrightarrow> \<not> is_red t"
    using assms tree_rep_cell [of m k] by (cases t) (auto simp: no_red_def red_rcol color_cases)
qed

end
