(* ===== verification/Rbtree_Insert.thy ===== *)
theory Rbtree_Insert
  imports Rbtree_Refine
begin

text \<open>
  \<open>rb_link_node\<close> and \<open>rb_insert_color\<close> on memories that hold a tree.
\<close>

section \<open>Moving the focus\<close>

lemma tree_rep_left: "tree_rep m (plug k (Node c l p r)) = tree_rep m (plug (InL c p r k) l)"
  by simp

lemma tree_rep_right: "tree_rep m (plug k (Node c l p r)) = tree_rep m (plug (InR c l p k) r)"
  by simp

lemma ptr_distinct:
  assumes "nodes_ok (xs @ inorder s @ ys @ inorder t @ zs)" and "t \<noteq> Leaf"
  shows "ptr s \<noteq> ptr t"
  using assms ptr_in [of s] ptr_in [of t] by (cases t) (auto simp: nodes_ok_def)

lemma siblings_distinct:
  assumes "tree_rep m (plug k (Node c l p r))" and "l \<noteq> Leaf \<or> r \<noteq> Leaf"
  shows "ptr l \<noteq> ptr r"
proof -
  have "nodes_ok (before k @ inorder l @ [p] @ inorder r @ after k)"
    using assms(1) by (simp add: tree_rep_plug)
  then show ?thesis
    using assms(2) ptr_in [of l] ptr_in [of r] by (cases l; cases r) (auto simp: nodes_ok_def)
qed

lemma tree_rep_paint_black:
  assumes "tree_rep m (plug k t)" and "t \<noteq> Leaf"
  shows "tree_rep (rb_set_black (ptr t) m) (plug k (paint Black t))"
  using assms tree_rep_set_black by (cases t) auto

lemma tree_rep_parent: "tree_rep m (plug k t) \<Longrightarrow> t \<noteq> Leaf \<Longrightarrow> rb_parent m (ptr t) = cptr k"
  by (cases t) (simp_all add: tree_rep_cell(2) del: plug.simps)

section \<open>The loop of \<open>rb_insert_color\<close>\<close>

lemma insert_loop_stop:
  assumes "tree_rep m (plug k t)" and "t \<noteq> Leaf" and "ctx_color k = Black"
  shows "rb_insert_loop (ptr t) m = Some m"
proof -
  have "\<not> (cptr k \<noteq> 0 \<and> rb_is_red m (cptr k))"
  proof (cases k)
    case (InL d p s k')
    then show ?thesis
      using assms(1,3) tree_rep_cell(1) [of m k' d t p s] by (simp add: red_rcol)
  next
    case (InR d s p k')
    then show ?thesis
      using assms(1,3) tree_rep_cell(1) [of m k' d s p t] by (simp add: red_rcol)
  qed simp
  then have "(cptr k \<noteq> 0 \<and> rb_is_red m (cptr k)) = False" by simp
  then show ?thesis
    by (subst rb_insert_loop.simps) (simp only: tree_rep_parent [OF assms(1,2)] Let_def if_False)
qed

text \<open>One iteration, parent on the left of the grandparent.\<close>

lemma insert_step_left:
  assumes t: "tree_rep m (plug k (Node c (Node Red l p r) g u))"
    and node: "x = ptr l \<and> l \<noteq> Leaf \<or> x = ptr r \<and> r \<noteq> Leaf"
  shows "rb_insert_loop x m =
    (if is_red u then rb_insert_loop g (rb_set_red g (rb_set_black p (rb_set_black (ptr u) m)))
     else if x = ptr r then rb_insert_loop p (rb_rotate_right g (rb_set_red g (rb_set_black x (rb_rotate_left p m))))
     else rb_insert_loop x (rb_rotate_right g (rb_set_red g (rb_set_black p m))))"
proof -
  have tp: "tree_rep m (plug (InL c g u k) (Node Red l p r))" using t by simp
  have tu: "tree_rep m (plug (InR c (Node Red l p r) g k) u)" using t by simp
  have tl: "tree_rep m (plug (InL Red p r (InL c g u k)) l)" "tree_rep m (plug (InR Red l p (InL c g u k)) r)"
    using t by simp_all
  have par: "rb_parent m x = p"
    using node tree_rep_parent [OF tl(1)] tree_rep_parent [OF tl(2)] by auto
  have f: "p \<noteq> 0" "rb_is_red m p" "rb_parent m p = g" "rb_left m g = p" "rb_right m g = ptr u"
    "rb_right m p = ptr r"
    using tree_rep_cell [OF tp] tree_rep_cell [OF t] by (simp_all add: red_rcol)
  show ?thesis
    using tree_rep_red(1) [OF tu]
    by (subst rb_insert_loop.simps) (auto simp: Let_def par f)
qed

lemma insert_step_right:
  assumes t: "tree_rep m (plug k (Node c u g (Node Red l p r)))"
    and node: "x = ptr l \<and> l \<noteq> Leaf \<or> x = ptr r \<and> r \<noteq> Leaf"
  shows "rb_insert_loop x m =
    (if is_red u then rb_insert_loop g (rb_set_red g (rb_set_black p (rb_set_black (ptr u) m)))
     else if x = ptr l then rb_insert_loop p (rb_rotate_left g (rb_set_red g (rb_set_black x (rb_rotate_right p m))))
     else rb_insert_loop x (rb_rotate_left g (rb_set_red g (rb_set_black p m))))"
proof -
  have tp: "tree_rep m (plug (InR c u g k) (Node Red l p r))" using t by simp
  have tu: "tree_rep m (plug (InL c g (Node Red l p r) k) u)" using t by simp
  have tl: "tree_rep m (plug (InL Red p r (InR c u g k)) l)" "tree_rep m (plug (InR Red l p (InR c u g k)) r)"
    using t by simp_all
  have par: "rb_parent m x = p"
    using node tree_rep_parent [OF tl(1)] tree_rep_parent [OF tl(2)] by auto
  have ne: "p \<noteq> ptr u" using siblings_distinct [OF t] by auto
  have f: "p \<noteq> 0" "rb_is_red m p" "rb_parent m p = g" "rb_left m g = ptr u" "rb_left m p = ptr l"
    using tree_rep_cell [OF tp] tree_rep_cell [OF t] by (simp_all add: red_rcol)
  show ?thesis
    using tree_rep_red(1) [OF tu]
    by (subst rb_insert_loop.simps) (auto simp: Let_def par f ne)
qed


lemma insert_loop_default:
  assumes "tree_rep m (plug k t)" and "t \<noteq> Leaf" and "ctx_color k = Black"
    and "ins_fix t k = paint Black (plug k t)"
  shows "\<exists>m' T. rb_insert_loop (ptr t) m = Some m' \<and> tree_rep m' T \<and> paint Black T = ins_fix t k"
  using insert_loop_stop [OF assms(1-3)] assms(1,4) by metis

lemma insert_loop_done:
  "tree_rep m' T \<Longrightarrow> rb_insert_loop x m = Some m' \<Longrightarrow> paint Black T = T' \<Longrightarrow>
   \<exists>m' T. rb_insert_loop x m = Some m' \<and> tree_rep m' T \<and> paint Black T = T'"
  by blast

lemma insert_loop:
  assumes "tree_rep m (plug k t)" and "t \<noteq> Leaf" and "ctx_invc k"
  shows "\<exists>m' T. rb_insert_loop (ptr t) m = Some m' \<and> tree_rep m' T \<and> paint Black T = ins_fix t k"
  using assms
proof (induction t k arbitrary: m rule: ins_fix.induct)
  case (1 t p r c g u k)
  have t: "tree_rep m (plug k (Node c (Node Red t p r) g u))" using "1.prems"(1) by simp
  have ne: "ptr t \<noteq> ptr r"
    using siblings_distinct [of m "InL c g u k" Red t p r] "1.prems"(1,2) by simp
  show ?case
  proof (cases "is_red u")
    case True
    let ?m = "rb_set_red g (rb_set_black p (rb_set_black (ptr u) m))"
    have "u \<noteq> Leaf" using True by auto
    then have "tree_rep (rb_set_black (ptr u) m) (plug (InR c (Node Red t p r) g k) (paint Black u))"
      using t by (intro tree_rep_paint_black) auto
    then have "tree_rep (rb_set_black p (rb_set_black (ptr u) m)) (plug (InL c g (paint Black u) k) (Node Black t p r))"
      by (intro tree_rep_set_black [where c = Red]) simp
    then have "tree_rep ?m (plug k (Node Red (Node Black t p r) g (paint Black u)))"
      by (intro tree_rep_set_red [where c = c]) simp
    then have "\<exists>m' T. rb_insert_loop (ptr (Node Red (Node Black t p r) g (paint Black u))) ?m = Some m' \<and> tree_rep m' T
        \<and> paint Black T = ins_fix (Node Red (Node Black t p r) g (paint Black u)) k"
      by (rule "1.IH" [OF True]) (use "1.prems"(3) in simp_all)
    moreover have "rb_insert_loop (ptr t) m = rb_insert_loop g ?m"
      using "1.prems"(2) True insert_step_left [OF t, of "ptr t"] by simp
    ultimately show ?thesis by (simp only: ptr.simps ins_fix.simps True if_True simp_thms)
  next
    case False
    let ?m = "rb_rotate_right g (rb_set_red g (rb_set_black p m))"
    have "tree_rep (rb_set_black p m) (plug (InL c g u k) (Node Black t p r))"
      using t by (intro tree_rep_set_black [where c = Red]) simp
    then have "tree_rep (rb_set_red g (rb_set_black p m)) (plug k (Node Red (Node Black t p r) g u))"
      by (intro tree_rep_set_red [where c = c]) simp
    then have T: "tree_rep ?m (plug k (Node Black t p (Node Red r g u)))" by (rule tree_rep_rotate_right)
    then have "rb_insert_loop (ptr t) ?m = Some ?m"
      using insert_loop_stop [of ?m "InL Black p (Node Red r g u) k" t] "1.prems"(2) by simp
    then have "rb_insert_loop (ptr t) m = Some ?m"
      using False insert_step_left [OF t, of "ptr t"] "1.prems"(2) ne by simp
    with T show ?thesis by (rule insert_loop_done) (simp add: False)
  qed
next
  case (2 d a x b l p c g u k)
  let ?t = "Node d a x b"
  have t: "tree_rep m (plug k (Node c (Node Red l p ?t) g u))" using "2.prems"(1) by simp
  show ?case
  proof (cases "is_red u")
    case True
    let ?m = "rb_set_red g (rb_set_black p (rb_set_black (ptr u) m))"
    have "u \<noteq> Leaf" using True by auto
    then have "tree_rep (rb_set_black (ptr u) m) (plug (InR c (Node Red l p ?t) g k) (paint Black u))"
      using t by (intro tree_rep_paint_black) auto
    then have "tree_rep (rb_set_black p (rb_set_black (ptr u) m)) (plug (InL c g (paint Black u) k) (Node Black l p ?t))"
      by (intro tree_rep_set_black [where c = Red]) simp
    then have "tree_rep ?m (plug k (Node Red (Node Black l p ?t) g (paint Black u)))"
      by (intro tree_rep_set_red [where c = c]) simp
    then have "\<exists>m' T. rb_insert_loop (ptr (Node Red (Node Black l p ?t) g (paint Black u))) ?m = Some m' \<and> tree_rep m' T
        \<and> paint Black T = ins_fix (Node Red (Node Black l p ?t) g (paint Black u)) k"
      by (rule "2.IH" [OF True]) (use "2.prems"(3) in simp_all)
    moreover have "rb_insert_loop (ptr ?t) m = rb_insert_loop g ?m"
      using "2.prems"(2) True insert_step_left [OF t, of x] by simp
    ultimately show ?thesis by (simp only: ptr.simps ins_fix.simps True if_True simp_thms)
  next
    case False
    let ?m = "rb_rotate_right g (rb_set_red g (rb_set_black x (rb_rotate_left p m)))"
    have "tree_rep (rb_rotate_left p m) (plug (InL c g u k) (Node d (Node Red l p a) x b))"
      using t by (intro tree_rep_rotate_left) simp
    then have "tree_rep (rb_set_black x (rb_rotate_left p m)) (plug (InL c g u k) (Node Black (Node Red l p a) x b))"
      by (rule tree_rep_set_black)
    then have "tree_rep (rb_set_red g (rb_set_black x (rb_rotate_left p m))) (plug k (Node Red (Node Black (Node Red l p a) x b) g u))"
      by (intro tree_rep_set_red [where c = c]) simp
    then have T: "tree_rep ?m (plug k (Node Black (Node Red l p a) x (Node Red b g u)))" by (rule tree_rep_rotate_right)
    then have "rb_insert_loop p ?m = Some ?m"
      using insert_loop_stop [of ?m "InL Black x (Node Red b g u) k" "Node Red l p a"] by simp
    then have "rb_insert_loop (ptr ?t) m = Some ?m"
      using False insert_step_left [OF t, of x] by simp
    with T show ?thesis by (rule insert_loop_done) (simp add: False)
  qed
next
  case (3 t l p c u g k)
  have t: "tree_rep m (plug k (Node c u g (Node Red l p t)))" using "3.prems"(1) by simp
  have ne: "ptr t \<noteq> ptr l"
    using siblings_distinct [of m "InR c u g k" Red l p t] "3.prems"(1,2) by simp
  show ?case
  proof (cases "is_red u")
    case True
    let ?m = "rb_set_red g (rb_set_black p (rb_set_black (ptr u) m))"
    have "u \<noteq> Leaf" using True by auto
    then have "tree_rep (rb_set_black (ptr u) m) (plug (InL c g (Node Red l p t) k) (paint Black u))"
      using t by (intro tree_rep_paint_black) auto
    then have "tree_rep (rb_set_black p (rb_set_black (ptr u) m)) (plug (InR c (paint Black u) g k) (Node Black l p t))"
      by (intro tree_rep_set_black [where c = Red]) simp
    then have "tree_rep ?m (plug k (Node Red (paint Black u) g (Node Black l p t)))"
      by (intro tree_rep_set_red [where c = c]) simp
    then have "\<exists>m' T. rb_insert_loop (ptr (Node Red (paint Black u) g (Node Black l p t))) ?m = Some m' \<and> tree_rep m' T
        \<and> paint Black T = ins_fix (Node Red (paint Black u) g (Node Black l p t)) k"
      by (rule "3.IH" [OF True]) (use "3.prems"(3) in simp_all)
    moreover have "rb_insert_loop (ptr t) m = rb_insert_loop g ?m"
      using "3.prems"(2) True insert_step_right [OF t, of "ptr t"] by simp
    ultimately show ?thesis by (simp only: ptr.simps ins_fix.simps True if_True simp_thms)
  next
    case False
    let ?m = "rb_rotate_left g (rb_set_red g (rb_set_black p m))"
    have "tree_rep (rb_set_black p m) (plug (InR c u g k) (Node Black l p t))"
      using t by (intro tree_rep_set_black [where c = Red]) simp
    then have "tree_rep (rb_set_red g (rb_set_black p m)) (plug k (Node Red u g (Node Black l p t)))"
      by (intro tree_rep_set_red [where c = c]) simp
    then have T: "tree_rep ?m (plug k (Node Black (Node Red u g l) p t))" by (rule tree_rep_rotate_left)
    then have "rb_insert_loop (ptr t) ?m = Some ?m"
      using insert_loop_stop [of ?m "InR Black (Node Red u g l) p k" t] "3.prems"(2) by simp
    then have "rb_insert_loop (ptr t) m = Some ?m"
      using False insert_step_right [OF t, of "ptr t"] "3.prems"(2) ne by simp
    with T show ?thesis by (rule insert_loop_done) (simp add: False)
  qed
next
  case (4 d a x b p r c u g k)
  let ?t = "Node d a x b"
  have t: "tree_rep m (plug k (Node c u g (Node Red ?t p r)))" using "4.prems"(1) by simp
  show ?case
  proof (cases "is_red u")
    case True
    let ?m = "rb_set_red g (rb_set_black p (rb_set_black (ptr u) m))"
    have "u \<noteq> Leaf" using True by auto
    then have "tree_rep (rb_set_black (ptr u) m) (plug (InL c g (Node Red ?t p r) k) (paint Black u))"
      using t by (intro tree_rep_paint_black) auto
    then have "tree_rep (rb_set_black p (rb_set_black (ptr u) m)) (plug (InR c (paint Black u) g k) (Node Black ?t p r))"
      by (intro tree_rep_set_black [where c = Red]) simp
    then have "tree_rep ?m (plug k (Node Red (paint Black u) g (Node Black ?t p r)))"
      by (intro tree_rep_set_red [where c = c]) simp
    then have "\<exists>m' T. rb_insert_loop (ptr (Node Red (paint Black u) g (Node Black ?t p r))) ?m = Some m' \<and> tree_rep m' T
        \<and> paint Black T = ins_fix (Node Red (paint Black u) g (Node Black ?t p r)) k"
      by (rule "4.IH" [OF True]) (use "4.prems"(3) in simp_all)
    moreover have "rb_insert_loop (ptr ?t) m = rb_insert_loop g ?m"
      using "4.prems"(2) True insert_step_right [OF t, of x] by simp
    ultimately show ?thesis by (simp only: ptr.simps ins_fix.simps True if_True simp_thms)
  next
    case False
    let ?m = "rb_rotate_left g (rb_set_red g (rb_set_black x (rb_rotate_right p m)))"
    have "tree_rep (rb_rotate_right p m) (plug (InR c u g k) (Node d a x (Node Red b p r)))"
      using t by (intro tree_rep_rotate_right) simp
    then have "tree_rep (rb_set_black x (rb_rotate_right p m)) (plug (InR c u g k) (Node Black a x (Node Red b p r)))"
      by (rule tree_rep_set_black)
    then have "tree_rep (rb_set_red g (rb_set_black x (rb_rotate_right p m))) (plug k (Node Red u g (Node Black a x (Node Red b p r))))"
      by (intro tree_rep_set_red [where c = c]) simp
    then have T: "tree_rep ?m (plug k (Node Black (Node Red u g a) x (Node Red b p r)))" by (rule tree_rep_rotate_left)
    then have "rb_insert_loop p ?m = Some ?m"
      using insert_loop_stop [of ?m "InR Black (Node Red u g a) x k" "Node Red b p r"] by simp
    then have "rb_insert_loop (ptr ?t) m = Some ?m"
      using False insert_step_right [OF t, of x] by simp
    with T show ?thesis by (rule insert_loop_done) (simp add: False)
  qed
qed (rule insert_loop_default; simp add: color_cases del: plug.simps)+

section \<open>Linking and colouring a new node\<close>

text \<open>The place \<open>rb_link\<close> of the new node: the empty hole of a context.\<close>

fun slot :: "u32 ctx \<Rightarrow> rb_slot" where
  "slot Top = Slot_root"
| "slot (InL c p r k) = Slot_left p"
| "slot (InR c l p k) = Slot_right p"

lemma store_slot: "store_slot (slot k) x m = set_hole k x m"
  by (cases k) auto

lemma tree_rep_link:
  assumes "tree_rep m (plug k Leaf)" and n: "n \<noteq> 0" "aligned n" "n \<notin> cnodes k"
  shows "tree_rep (rb_link_node n (cptr k) (slot k) m) (plug k (Node Red Leaf n Leaf))"
proof -
  let ?m1 = "set_left n 0 (set_right n 0 (upd_pc n (cptr k) m))"
  have ok: "nodes_ok (before k @ [n] @ after k)"
    using assms by (auto simp: tree_rep_plug nodes_ok_def)
  have al: "aligned (cptr k)" using aligned_cptr [OF ok] .
  then have "cptr k AND - 4 = cptr k" "cptr k AND 1 = 0"
    using pc_set_parent [OF al, of 0] by simp_all
  then have f: "rcol ?m1 n = Red" "rb_parent ?m1 n = cptr k" "rb_left ?m1 n = 0" "rb_right ?m1 n = 0"
    "rb_root ?m1 = rb_root m"
    by (auto simp: pc_simps)
  have ne: "cptr k \<noteq> n" using n cptr_in_cnodes [of k] by auto
  have "same_at m ?m1 y" if "y \<in> cnodes k" for y
    using that n by (auto simp: same_at_def pc_simps)
  then have "crep ?m1 k 0"
    using assms(1) crep_cong [of k m ?m1 0] f(5) by (auto simp: tree_rep_plug)
  then have "crep (set_hole k n ?m1) k n" using ok by (rule crep_set_hole)
  moreover have "cell (set_hole k n ?m1) n Red (cptr k) 0 0" using f ne by (simp add: cell_def)
  ultimately show ?thesis
    using ok by (simp add: rb_link_node_def store_slot tree_rep_plug)
qed

text \<open>
  Inserting a node at an empty place of a red-black tree: the code returns, the memory holds a
  red-black tree, and in sort order the node stands where it was linked.
\<close>

lemma rb_insert_refines:
  assumes "tree_rep m (plug k Leaf)" and "rbtree (plug k Leaf)"
    and n: "n \<noteq> 0" "aligned n" "n \<notin> cnodes k"
  shows "\<exists>m'. rb_insert_color n (rb_link_node n (cptr k) (slot k) m) = Some m'
    \<and> tree_rep m' (ins_fix (Node Red Leaf n Leaf) k) \<and> rbtree (ins_fix (Node Red Leaf n Leaf) k)
    \<and> inorder (ins_fix (Node Red Leaf n Leaf) k) = before k @ n # after k"
proof -
  let ?t = "Node Red Leaf n Leaf" and ?m = "rb_link_node n (cptr k) (slot k) m"
  have k: "ctx_invc k" "ctx_invh k 0" using assms(2) by (auto simp: rbtree_plug)
  have rb: "rbtree (ins_fix ?t k)" by (rule rbtree_ins_fix) (use k in auto)
  obtain m' T where m': "rb_insert_loop (ptr ?t) ?m = Some m'" "tree_rep m' T" "paint Black T = ins_fix ?t k"
    using insert_loop [OF tree_rep_link [OF assms(1) n] _ k(1)] by auto
  have "inorder T = before k @ n # after k"
    using m'(3) inorder_ins_fix [of ?t k] inorder_paint [of Black T] by simp
  then have "T \<noteq> Leaf" by auto
  then have "tree_rep (rb_set_black (ptr T) m') (plug Top (paint Black T))"
    using m'(2) by (intro tree_rep_paint_black) auto
  moreover have "rb_root m' = ptr T" using m'(2) by (simp add: tree_rep_def)
  ultimately show ?thesis
    using m' rb inorder_ins_fix [of ?t k] by (simp add: rb_insert_color_def)
qed

end
