(* ===== verification/Rbtree_Erase.thy ===== *)
theory Rbtree_Erase
  imports Rbtree_Insert
begin

text \<open>
  \<open>rb_erase\<close> on memories that hold a red-black tree.
\<close>

section \<open>The loop of \<open>__rb_erase_color\<close>\<close>

lemma tree_rep_turn_left:
  assumes t: "tree_rep m (plug k (Node c t p (Node d a x e)))" and "e \<noteq> Leaf"
  shows "tree_rep (erase_turn_left p m) (plug k (Node c (Node Black t p a) x (paint Black e)))"
proof -
  let ?m1 = "rb_set_color x (rb_color m p) m" and ?m3 = "\<lambda>m. rb_set_black (ptr e) (rb_set_black p m)"
  have tx: "tree_rep m (plug (InR c t p k) (Node d a x e))" using t by simp
  have f: "rb_right m p = x" "rcol m p = c" "rb_right m x = ptr e"
    using tree_rep_cell [OF t] tree_rep_cell [OF tx] by simp_all
  have "tree_rep ?m1 (plug (InR c t p k) (Node c a x e))"
    using tree_rep_set_color [OF tx, of m p] f by simp
  then have "tree_rep (rb_set_black p ?m1) (plug k (Node Black t p (Node c a x e)))"
    by (intro tree_rep_set_black [where c = c]) simp
  then have "tree_rep (?m3 ?m1) (plug (InR c a x (InR Black t p k)) (paint Black e))"
    using assms(2) by (intro tree_rep_paint_black) auto
  then have "tree_rep (rb_rotate_left p (?m3 ?m1)) (plug k (Node c (Node Black t p a) x (paint Black e)))"
    by (intro tree_rep_rotate_left) simp
  then show ?thesis by (simp add: erase_turn_left_def Let_def f rb_simps)
qed

lemma erase_tail_left_black:
  assumes t: "tree_rep m (plug k (Node c t p (Node d l q r)))" and "\<not> is_red l" "\<not> is_red r"
  shows "erase_tail_left p m = (rb_set_red q m, p, cptr k, True)"
    and "tree_rep (rb_set_red q m) (plug k (Node c t p (Node Red l q r)))"
proof -
  have tq: "tree_rep m (plug (InR c t p k) (Node d l q r))"
    "tree_rep m (plug (InL d q r (InR c t p k)) l)" "tree_rep m (plug (InR d l q (InR c t p k)) r)"
    using t by simp_all
  show "erase_tail_left p m = (rb_set_red q m, p, cptr k, True)"
    using tree_rep_cell [OF t] tree_rep_cell [OF tq(1)] tree_rep_red(2) [OF tq(2)] tree_rep_red(2) [OF tq(3)] assms
    by (simp add: erase_tail_left_def Let_def rb_simps)
  show "tree_rep (rb_set_red q m) (plug k (Node c t p (Node Red l q r)))"
    using tree_rep_set_red [OF tq(1)] by simp
qed

lemma tree_rep_root: "tree_rep m t \<Longrightarrow> rb_root m = ptr t"
  by (simp add: tree_rep_def)

lemma erase_tail_left_red:
  assumes t: "tree_rep m (plug k (Node c t p (Node d l q r)))" and red: "is_red l \<or> is_red r"
  shows "\<exists>m' T. erase_tail_left p m = (m', ptr T, p, False) \<and> tree_rep m' T
    \<and> paint Black T = erase_rot_left c t p (Node d l q r) k"
proof -
  have tq: "tree_rep m (plug (InR c t p k) (Node d l q r))"
    "tree_rep m (plug (InL d q r (InR c t p k)) l)" "tree_rep m (plug (InR d l q (InR c t p k)) r)"
    using t by simp_all
  note f = tree_rep_cell(3,4) [OF t] tree_rep_cell(3,4) [OF tq(1)] tree_rep_red(2) [OF tq(2)]
    tree_rep_red(2) [OF tq(3)]
  show ?thesis
  proof (cases "is_red r")
    case True
    let ?T = "plug k (Node c (Node Black t p l) q (paint Black r))"
    have T: "tree_rep (erase_turn_left p m) ?T" using True by (intro tree_rep_turn_left [OF t]) auto
    have "erase_tail_left p m = (erase_turn_left p m, ptr ?T, p, False)"
      using True f tree_rep_root [OF T] by (simp add: erase_tail_left_def Let_def)
    moreover have "paint Black ?T = erase_rot_left c t p (Node d l q r) k"
      using True by (cases l; simp; cases "root_color l"; simp)
    ultimately show ?thesis using T by blast
  next
    case False
    then obtain a x b where l: "l = Node Red a x b" using red by (cases l) auto
    let ?m = "rb_rotate_right q (rb_set_red q (rb_set_black x m))"
    let ?T = "plug k (Node c (Node Black t p a) x (Node Black b q r))"
    have "tree_rep (rb_set_black x m) (plug (InL d q r (InR c t p k)) (Node Black a x b))"
      using tq(2) l by (intro tree_rep_set_black [where c = Red]) simp
    then have "tree_rep (rb_set_red q (rb_set_black x m)) (plug (InR c t p k) (Node Red (Node Black a x b) q r))"
      by (intro tree_rep_set_red [where c = d]) simp
    then have "tree_rep ?m (plug (InR c t p k) (Node Black a x (Node Red b q r)))"
      by (rule tree_rep_rotate_right)
    then have T: "tree_rep (erase_turn_left p ?m) ?T"
      using tree_rep_turn_left [of ?m k c t p Black a x "Node Red b q r"] by simp
    have "erase_tail_left p m = (erase_turn_left p ?m, ptr ?T, p, False)"
      using False f l tree_rep_root [OF T] by (simp add: erase_tail_left_def Let_def)
    moreover have "paint Black ?T = erase_rot_left c t p (Node d l q r) k" using False l by simp
    ultimately show ?thesis using T by blast
  qed
qed

text \<open>The other side, in the mirror.\<close>

lemma mirror_turn: "mirror (erase_turn_right p m) = erase_turn_left p (mirror m)"
  by (simp add: erase_turn_left_def erase_turn_right_def Let_def mirror_rotate rb_simps)

lemma mirror_rotate_left: "mirror (rb_rotate_left p m) = rb_rotate_right p (mirror m)"
  using mirror_rotate [of p "mirror m"] by (metis mirror_mirror)

lemma mirror_turn_root: "rb_root (erase_turn_right p m) = rb_root (erase_turn_left p (mirror m))"
  by (simp flip: mirror_turn)

lemma mirror_tail: "erase_tail_left p (mirror m) = apfst mirror (erase_tail_right p m)"
  by (auto simp: erase_tail_left_def erase_tail_right_def Let_def mirror_turn mirror_turn_root
      mirror_rotate_left rb_simps)

lemma mirror_paint [simp]: "mirror_tree (paint c t) = paint c (mirror_tree t)"
  by (cases t) auto

lemma mirror_color [simp]: "root_color (mirror_tree t) = root_color t"
  by (cases t) auto

lemma mirror_rot:
  "mirror_tree (erase_rot_right c w p t k) = erase_rot_left c (mirror_tree t) p (mirror_tree w) (mirror_ctx k)"
  by (cases "(c, w, p, t, k)" rule: erase_rot_right.cases) auto

lemma mirror_tree_rep': "tree_rep (mirror m) t = tree_rep m (mirror_tree t)"
  using mirror_tree_rep [of m "mirror_tree t"] by simp

lemma mirror_cptr [simp]: "cptr (mirror_ctx k) = cptr k"
  by (cases k) auto

lemma erase_tail_right_black:
  assumes "tree_rep m (plug k (Node c (Node d l q r) p t))" and "\<not> is_red l" "\<not> is_red r"
  shows "erase_tail_right p m = (rb_set_red q m, p, cptr k, True)"
    and "tree_rep (rb_set_red q m) (plug k (Node c (Node Red l q r) p t))"
proof -
  have t: "tree_rep (mirror m) (plug (mirror_ctx k) (Node c (mirror_tree t) p (Node d (mirror_tree r) q (mirror_tree l))))"
    using assms(1) by (simp add: mirror_tree_rep')
  have "apfst mirror (erase_tail_right p m) = apfst mirror (rb_set_red q m, p, cptr k, True)"
    using erase_tail_left_black(1) [OF t] assms by (simp add: mirror_tail)
  then have "apfst mirror (apfst mirror (erase_tail_right p m)) = (rb_set_red q m, p, cptr k, True)" by simp
  then show "erase_tail_right p m = (rb_set_red q m, p, cptr k, True)" by (cases "erase_tail_right p m") simp
  show "tree_rep (rb_set_red q m) (plug k (Node c (Node Red l q r) p t))"
    using erase_tail_left_black(2) [OF t] assms
    by (simp add: mirror_upd(1) [symmetric] mirror_tree_rep' del: mirror_upd(1))
qed

lemma erase_tail_right_red:
  assumes "tree_rep m (plug k (Node c (Node d l q r) p t))" and "is_red l \<or> is_red r"
  shows "\<exists>m' T. erase_tail_right p m = (m', ptr T, p, False) \<and> tree_rep m' T
    \<and> paint Black T = erase_rot_right c (Node d l q r) p t k"
proof -
  have "tree_rep (mirror m) (plug (mirror_ctx k) (Node c (mirror_tree t) p (Node d (mirror_tree r) q (mirror_tree l))))"
    using assms(1) by (simp add: mirror_tree_rep')
  from erase_tail_left_red [OF this] assms(2) obtain m' T where
    T: "apfst mirror (erase_tail_right p m) = (m', ptr T, p, False)" "tree_rep m' T"
      "paint Black T = mirror_tree (erase_rot_right c (Node d l q r) p t k)"
    by (auto simp: mirror_tail mirror_rot)
  have "erase_tail_right p m = (mirror m', ptr (mirror_tree T), p, False)"
    using T(1) by (cases "erase_tail_right p m") auto
  moreover have "tree_rep (mirror m') (mirror_tree T)" using T(2) by (simp add: mirror_tree_rep)
  moreover have "paint Black (mirror_tree T) = erase_rot_right c (Node d l q r) p t k"
    using T(3) by (metis mirror_paint mirror_tree_mirror)
  ultimately show ?thesis by blast
qed

lemma crep_root: "crep m k h \<Longrightarrow> k \<noteq> Top \<Longrightarrow> rb_root m \<in> cnodes k"
proof (induction k arbitrary: h)
  case (InL c p r k)
  then show ?case by (cases k) auto
next
  case (InR c l p k)
  then show ?case by (cases k) auto
qed simp

lemma not_root:
  assumes "tree_rep m (plug k t)" and "k \<noteq> Top"
  shows "ptr t \<noteq> rb_root m"
proof -
  have "rb_root m \<in> cnodes k" using assms crep_root by (auto simp: tree_rep_plug)
  then show ?thesis using assms(1) ptr_in [of t] by (auto simp: tree_rep_plug nodes_ok_def)
qed

lemma erase_color_step:
  assumes "tree_rep m (plug k t)" "k \<noteq> Top" "\<not> is_red t"
    and "(if rb_left m (cptr k) = ptr t then erase_body_left (cptr k) m else erase_body_right (cptr k) m)
      = (m1, n1, p1, go)"
  shows "rb_erase_color (ptr t) (cptr k) m =
    (if go then rb_erase_color n1 p1 m1 else Some (if n1 \<noteq> 0 then rb_set_black n1 m1 else m1))"
proof -
  have "no_red m (ptr t) \<and> ptr t \<noteq> rb_root m"
    using tree_rep_red(2) [OF assms(1)] assms(3) not_root [OF assms(1,2)] by simp
  with assms(4) show ?thesis by (subst rb_erase_color.simps) simp
qed

lemma erase_color_stop:
  assumes "tree_rep m (plug k t)" "is_red t \<or> k = Top"
  shows "\<exists>m'. rb_erase_color (ptr t) (cptr k) m = Some m' \<and> tree_rep m' (plug k (paint Black t))"
proof -
  have c: "\<not> (no_red m (ptr t) \<and> ptr t \<noteq> rb_root m)"
    using assms tree_rep_red(2) [OF assms(1)] tree_rep_root [OF assms(1)] by auto
  have "tree_rep (if ptr t \<noteq> 0 then rb_set_black (ptr t) m else m) (plug k (paint Black t))"
    using tree_rep_paint_black [OF assms(1)] tree_rep_ptr [OF assms(1)] assms(1) by (cases t) auto
  moreover have "rb_erase_color (ptr t) (cptr k) m = Some (if ptr t \<noteq> 0 then rb_set_black (ptr t) m else m)"
    unfolding rb_erase_color.simps [of "ptr t"] if_not_P [OF c] ..
  ultimately show ?thesis by blast
qed

lemma finish_root:
  assumes "tree_rep m T"
  shows "tree_rep (if ptr T \<noteq> 0 then rb_set_black (ptr T) m else m) (paint Black T)"
  using assms tree_rep_paint_black [of m Top T] tree_rep_ptr [of m Top T] by (cases T) auto

text \<open>What one iteration gives: the repair ends with the tree wanted, or the loop goes on at a
  smaller instance.\<close>

lemma erase_tail_left_ok:
  assumes t: "tree_rep m (plug k (Node c t p w))" and w: "w \<noteq> Leaf" "\<not> is_red w"
    and step: "\<And>m1 n1 p1 go. erase_tail_left p m = (m1, n1, p1, go) \<Longrightarrow> R =
      (if go then rb_erase_color n1 p1 m1 else Some (if n1 \<noteq> 0 then rb_set_black n1 m1 else m1))"
    and IH: "\<And>m1. kids_black w \<Longrightarrow> tree_rep m1 (plug k (Node c t p (paint Red w))) \<Longrightarrow>
      \<exists>m'. rb_erase_color p (cptr k) m1 = Some m' \<and> tree_rep m' (erase_fix (Node c t p (paint Red w)) k)"
  shows "\<exists>m'. R = Some m' \<and> tree_rep m' (if kids_black w
      then erase_fix (Node c t p (paint Red w)) k else erase_rot_left c t p w k)"
proof -
  obtain l q r where wq: "w = Node Black l q r" using w by (cases w) (auto simp: color_cases)
  note t' = t [unfolded wq]
  show ?thesis
  proof (cases "kids_black w")
    case True
    then have k: "\<not> is_red l" "\<not> is_red r" using wq by auto
    show ?thesis
      using IH [OF True] step [OF erase_tail_left_black(1) [OF t' k]] erase_tail_left_black(2) [OF t' k] True wq
      by (simp del: plug.simps)
  next
    case False
    then obtain m' T where T: "erase_tail_left p m = (m', ptr T, p, False)" "tree_rep m' T"
      "paint Black T = erase_rot_left c t p w k"
      using erase_tail_left_red [OF t'] wq by (auto simp del: plug.simps)
    show ?thesis using step [OF T(1)] finish_root [OF T(2)] T(3) False by simp
  qed
qed

lemma erase_tail_right_ok:
  assumes t: "tree_rep m (plug k (Node c w p t))" and w: "w \<noteq> Leaf" "\<not> is_red w"
    and step: "\<And>m1 n1 p1 go. erase_tail_right p m = (m1, n1, p1, go) \<Longrightarrow> R =
      (if go then rb_erase_color n1 p1 m1 else Some (if n1 \<noteq> 0 then rb_set_black n1 m1 else m1))"
    and IH: "\<And>m1. kids_black w \<Longrightarrow> tree_rep m1 (plug k (Node c (paint Red w) p t)) \<Longrightarrow>
      \<exists>m'. rb_erase_color p (cptr k) m1 = Some m' \<and> tree_rep m' (erase_fix (Node c (paint Red w) p t) k)"
  shows "\<exists>m'. R = Some m' \<and> tree_rep m' (if kids_black w
      then erase_fix (Node c (paint Red w) p t) k else erase_rot_right c w p t k)"
proof -
  obtain l q r where wq: "w = Node Black l q r" using w by (cases w) (auto simp: color_cases)
  note t' = t [unfolded wq]
  show ?thesis
  proof (cases "kids_black w")
    case True
    then have k: "\<not> is_red l" "\<not> is_red r" using wq by auto
    show ?thesis
      using IH [OF True] step [OF erase_tail_right_black(1) [OF t' k]] erase_tail_right_black(2) [OF t' k] True wq
      by (simp del: plug.simps)
  next
    case False
    then obtain m' T where T: "erase_tail_right p m = (m', ptr T, p, False)" "tree_rep m' T"
      "paint Black T = erase_rot_right c w p t k"
      using erase_tail_right_red [OF t'] wq by (auto simp del: plug.simps)
    show ?thesis using step [OF T(1)] finish_root [OF T(2)] T(3) False by simp
  qed
qed

lemma erase_color_InL:
  assumes t: "tree_rep m (plug (InL c p w k) t)" "\<not> is_red t"
    and w: "w \<noteq> Leaf" "is_red w \<Longrightarrow> \<exists>wl q wr. w = Node Red wl q wr \<and> wl \<noteq> Leaf \<and> \<not> is_red wl"
    and IH: "\<And>m1 t' k'. 2 * depth k' + (if is_red t' then 0 else 1) < 2 * depth (InL c p w k) + 1 \<Longrightarrow>
      t' = Node c t p (paint Red w) \<and> k' = k \<and> \<not> is_red w \<and> kids_black w
      \<or> (\<exists>wl q wr. w = Node Red wl q wr \<and> kids_black wl \<and> t' = Node Red t p (paint Red wl) \<and> k' = InL Black q wr k) \<Longrightarrow>
      tree_rep m1 (plug k' t') \<Longrightarrow> \<exists>m'. rb_erase_color (ptr t') (cptr k') m1 = Some m' \<and> tree_rep m' (erase_fix t' k')"
  shows "\<exists>m'. rb_erase_color (ptr t) p m = Some m' \<and> tree_rep m' (erase_fix t (InL c p w k))"
proof -
  have tp: "tree_rep m (plug k (Node c t p w))" and tw: "tree_rep m (plug (InR c t p k) w)" using t by simp_all
  note f = tree_rep_cell [OF tp]
  have step: "rb_erase_color (ptr t) p m =
      (if go then rb_erase_color n1 p1 m1 else Some (if n1 \<noteq> 0 then rb_set_black n1 m1 else m1))"
    if "erase_body_left p m = (m1, n1, p1, go)" for m1 n1 p1 go
    using erase_color_step [OF t(1) _ t(2)] that f(3) by simp
  have red: "rb_is_red m (ptr w) \<longleftrightarrow> is_red w" using tree_rep_red(1) [OF tw] tree_rep_ptr [OF tw] w(1) by simp
  show ?thesis
  proof (cases "is_red w")
    case True
    then obtain wl q wr where wl: "w = Node Red wl q wr" "wl \<noteq> Leaf" "\<not> is_red wl" using w(2) by blast
    let ?m = "rb_rotate_left p (rb_set_red p (rb_set_black q m))" and ?k = "InL Black q wr k"
    have "tree_rep (rb_set_black q m) (plug (InR c t p k) (Node Black wl q wr))"
      using tw wl(1) by (intro tree_rep_set_black [where c = Red]) simp
    then have "tree_rep (rb_set_red p (rb_set_black q m)) (plug k (Node Red t p (Node Black wl q wr)))"
      by (intro tree_rep_set_red [where c = c]) simp
    then have "tree_rep ?m (plug ?k (Node Red t p wl))"
      using tree_rep_rotate_left by simp
    moreover have "erase_body_left p m = erase_tail_left p ?m"
      using True red f(4) wl(1) by (simp add: erase_body_left_def Let_def)
    ultimately have "\<exists>m'. rb_erase_color (ptr t) p m = Some m' \<and> tree_rep m' (if kids_black wl
      then erase_fix (Node Red t p (paint Red wl)) ?k else erase_rot_left Red t p wl ?k)"
      using wl step IH [of ?k "Node Red t p (paint Red wl)"]
      by (intro erase_tail_left_ok) (auto simp del: plug.simps)
    then show ?thesis using t(2) wl(1) by (simp add: erase_fix_InL_red)
  next
    case False
    have "erase_body_left p m = erase_tail_left p m"
      using False red f(4) by (simp add: erase_body_left_def Let_def)
    then have "\<exists>m'. rb_erase_color (ptr t) p m = Some m' \<and> tree_rep m' (if kids_black w
      then erase_fix (Node c t p (paint Red w)) k else erase_rot_left c t p w k)"
      using tp w(1) False step IH [of k "Node c t p (paint Red w)"]
      by (intro erase_tail_left_ok) (auto simp del: plug.simps)
    then show ?thesis using t(2) False by (simp add: erase_fix_InL_black)
  qed
qed

lemma erase_color_InR:
  assumes t: "tree_rep m (plug (InR c w p k) t)" "\<not> is_red t"
    and w: "w \<noteq> Leaf" "is_red w \<Longrightarrow> \<exists>wl q wr. w = Node Red wl q wr \<and> wr \<noteq> Leaf \<and> \<not> is_red wr"
    and IH: "\<And>m1 t' k'. 2 * depth k' + (if is_red t' then 0 else 1) < 2 * depth (InR c w p k) + 1 \<Longrightarrow>
      t' = Node c (paint Red w) p t \<and> k' = k \<and> \<not> is_red w \<and> kids_black w
      \<or> (\<exists>wl q wr. w = Node Red wl q wr \<and> kids_black wr \<and> t' = Node Red (paint Red wr) p t \<and> k' = InR Black wl q k) \<Longrightarrow>
      tree_rep m1 (plug k' t') \<Longrightarrow> \<exists>m'. rb_erase_color (ptr t') (cptr k') m1 = Some m' \<and> tree_rep m' (erase_fix t' k')"
  shows "\<exists>m'. rb_erase_color (ptr t) p m = Some m' \<and> tree_rep m' (erase_fix t (InR c w p k))"
proof -
  have tp: "tree_rep m (plug k (Node c w p t))" and tw: "tree_rep m (plug (InL c p t k) w)" using t by simp_all
  note f = tree_rep_cell [OF tp]
  have "ptr w \<noteq> ptr t" using siblings_distinct [OF tp] w(1) by simp
  then have step: "rb_erase_color (ptr t) p m =
      (if go then rb_erase_color n1 p1 m1 else Some (if n1 \<noteq> 0 then rb_set_black n1 m1 else m1))"
    if "erase_body_right p m = (m1, n1, p1, go)" for m1 n1 p1 go
    using erase_color_step [OF t(1) _ t(2)] that f(3) by simp
  have red: "rb_is_red m (ptr w) \<longleftrightarrow> is_red w" using tree_rep_red(1) [OF tw] tree_rep_ptr [OF tw] w(1) by simp
  show ?thesis
  proof (cases "is_red w")
    case True
    then obtain wl q wr where wl: "w = Node Red wl q wr" "wr \<noteq> Leaf" "\<not> is_red wr" using w(2) by blast
    let ?m = "rb_rotate_right p (rb_set_red p (rb_set_black q m))" and ?k = "InR Black wl q k"
    have "tree_rep (rb_set_black q m) (plug (InL c p t k) (Node Black wl q wr))"
      using tw wl(1) by (intro tree_rep_set_black [where c = Red]) simp
    then have "tree_rep (rb_set_red p (rb_set_black q m)) (plug k (Node Red (Node Black wl q wr) p t))"
      by (intro tree_rep_set_red [where c = c]) simp
    then have "tree_rep ?m (plug ?k (Node Red wr p t))"
      using tree_rep_rotate_right by simp
    moreover have "erase_body_right p m = erase_tail_right p ?m"
      using True red f(3) wl(1) by (simp add: erase_body_right_def Let_def)
    ultimately have "\<exists>m'. rb_erase_color (ptr t) p m = Some m' \<and> tree_rep m' (if kids_black wr
      then erase_fix (Node Red (paint Red wr) p t) ?k else erase_rot_right Red wr p t ?k)"
      using wl step IH [of ?k "Node Red (paint Red wr) p t"]
      by (intro erase_tail_right_ok) (auto simp del: plug.simps)
    then show ?thesis using t(2) wl(1) by (simp add: erase_fix_InR_red)
  next
    case False
    have "erase_body_right p m = erase_tail_right p m"
      using False red f(3) by (simp add: erase_body_right_def Let_def)
    then have "\<exists>m'. rb_erase_color (ptr t) p m = Some m' \<and> tree_rep m' (if kids_black w
      then erase_fix (Node c (paint Red w) p t) k else erase_rot_right c w p t k)"
      using tp w(1) False step IH [of k "Node c (paint Red w) p t"]
      by (intro erase_tail_right_ok) (auto simp del: plug.simps)
    then show ?thesis using t(2) False by (simp add: erase_fix_InR_black)
  qed
qed

text \<open>The invariants of the next iteration.\<close>

lemma erase_next_InL:
  assumes t: "\<not> is_red t" "invc t" "invh t"
    and k: "ctx_invc (InL c p w k)" "ctx_invh (InL c p w k) (Suc (bheight t))"
    and next_t: "t' = Node c t p (paint Red w) \<and> k' = k \<and> \<not> is_red w \<and> kids_black w
      \<or> (\<exists>wl q wr. w = Node Red wl q wr \<and> kids_black wl \<and> t' = Node Red t p (paint Red wl) \<and> k' = InL Black q wr k)"
  shows "invc (paint Black t') \<and> invh t' \<and> ctx_invc k' \<and> ctx_invh k' (Suc (bheight t'))"
proof (cases "is_red w")
  case True
  then obtain wl q wr where w: "w = Node Red wl q wr" "kids_black wl" "t' = Node Red t p (paint Red wl)"
    "k' = InL Black q wr k" using next_t by auto
  then show ?thesis using paint_Red_kids_black [of wl "bheight t"] t k by (auto simp: color_cases)
next
  case False
  then have w: "kids_black w" "t' = Node c t p (paint Red w)" "k' = k" using next_t by auto
  then show ?thesis using paint_Red_kids_black [of w "bheight t"] t k False by (auto split: if_splits)
qed

lemma erase_next_InR:
  assumes t: "\<not> is_red t" "invc t" "invh t"
    and k: "ctx_invc (InR c w p k)" "ctx_invh (InR c w p k) (Suc (bheight t))"
    and next_t: "t' = Node c (paint Red w) p t \<and> k' = k \<and> \<not> is_red w \<and> kids_black w
      \<or> (\<exists>wl q wr. w = Node Red wl q wr \<and> kids_black wr \<and> t' = Node Red (paint Red wr) p t \<and> k' = InR Black wl q k)"
  shows "invc (paint Black t') \<and> invh t' \<and> ctx_invc k' \<and> ctx_invh k' (Suc (bheight t'))"
proof (cases "is_red w")
  case True
  then obtain wl q wr where w: "w = Node Red wl q wr" "kids_black wr" "t' = Node Red (paint Red wr) p t"
    "k' = InR Black wl q k" using next_t by auto
  then show ?thesis using paint_Red_kids_black [of wr "bheight t"] t k by (auto simp: color_cases)
next
  case False
  then have w: "kids_black w" "t' = Node c (paint Red w) p t" "k' = k" using next_t by auto
  then show ?thesis using paint_Red_kids_black [of w "bheight t"] t k False by (auto split: if_splits)
qed

text \<open>A sibling of a node that is one black node short is there, and so are its children when it
  is red.\<close>

lemma red_sibling:
  assumes "invc w" "invh w" "bheight w = Suc n" "is_red w"
  shows "\<exists>wl q wr. w = Node Red wl q wr \<and> wl \<noteq> Leaf \<and> \<not> is_red wl \<and> wr \<noteq> Leaf \<and> \<not> is_red wr"
proof -
  obtain wl q wr where w: "w = Node Red wl q wr" using assms(4) by (cases w) auto
  then have "bheight wl = Suc n" "bheight wr = Suc n" "\<not> is_red wl" "\<not> is_red wr" using assms by auto
  then show ?thesis using w by auto
qed

lemma erase_color:
  assumes "tree_rep m (plug k t)" "invc (paint Black t)" "invh t" "ctx_invc k" "ctx_invh k (Suc (bheight t))"
  shows "\<exists>m'. rb_erase_color (ptr t) (cptr k) m = Some m' \<and> tree_rep m' (erase_fix t k)"
  using assms
proof (induction "2 * depth k + (if is_red t then 0 else 1)" arbitrary: t k m rule: less_induct)
  case less
  show ?case
  proof (cases "is_red t \<or> k = Top")
    case True
    then have "erase_fix t k = plug k (paint Black t)"
      by (cases "is_red t") (auto simp: erase_fix_red erase_fix_Top)
    then show ?thesis using erase_color_stop [OF less.prems(1) True] by simp
  next
    case False
    then have t: "\<not> is_red t" "invc t" "invh t" using less.prems by simp_all
    show ?thesis
    proof (cases k)
      case Top
      with False show ?thesis by simp
    next
      case k: (InL c p w k')
      note pr = less.prems [unfolded k]
      have w: "w \<noteq> Leaf" "is_red w \<Longrightarrow> \<exists>wl q wr. w = Node Red wl q wr \<and> wl \<noteq> Leaf \<and> \<not> is_red wl"
        using pr red_sibling [of w "bheight t"] by auto
      show ?thesis unfolding k cptr.simps
        by (rule erase_color_InL [OF pr(1) t(1) w])
          (use less.hyps [unfolded k] erase_next_InL [OF t pr(4,5)] t(1) in \<open>simp_all del: plug.simps\<close>)
    next
      case k: (InR c w p k')
      note pr = less.prems [unfolded k]
      have w: "w \<noteq> Leaf" "is_red w \<Longrightarrow> \<exists>wl q wr. w = Node Red wl q wr \<and> wr \<noteq> Leaf \<and> \<not> is_red wr"
        using pr red_sibling [of w "bheight t"] by auto
      show ?thesis unfolding k cptr.simps
        by (rule erase_color_InR [OF pr(1) t(1) w])
          (use less.hyps [unfolded k] erase_next_InR [OF t pr(4,5)] t(1) in \<open>simp_all del: plug.simps\<close>)
    qed
  qed
qed

end
