(* ===== verification/Rbtree_Ops.thy ===== *)
theory Rbtree_Ops
  imports Rbtree_Erase
begin

text \<open>
  The exported operations of \<open>lib/rbtree.c\<close> on memories that hold a red-black tree: replacing and
  erasing a node, and the walk in sort order.
\<close>

section \<open>Replacing a node\<close>

lemma copy_pc [rb_simps]:
  "rcol (upd_pc x (rb_parent_color m' y) m) = (rcol m)(x := rcol m' y)"
  "rb_parent (upd_pc x (rb_parent_color m' y) m) = (rb_parent m)(x := rb_parent m' y)"
  "rb_left (upd_pc x v m) = rb_left m" "rb_right (upd_pc x v m) = rb_right m"
  "rb_root (upd_pc x v m) = rb_root m"
  by (auto simp: pc_simps fun_eq_iff)

lemma replace_child_eq:
  assumes "tree_rep m (plug k (Node c l p r))"
  shows "replace_child (cptr k) p x m = set_hole k x m"
  using set_hole_eq(1) [of m k p "inorder (Node c l p r)" x] assms
  by (auto simp: tree_rep_plug replace_child_def split: if_splits)

lemma replace_node_eq:
  assumes t: "tree_rep m (plug k (Node c l p r))" and n: "n \<notin> set (inorder (plug k (Node c l p r)))" "n \<noteq> 0"
  shows "rb_replace_node p n m = (let m3 = adopt n r (adopt n l (set_hole k n m))
    in set_right n (ptr r) (set_left n (ptr l) (upd_pc n (rb_parent_color m3 p) m3)))"
proof -
  have "nodes_ok (before k @ inorder (Node c l p r) @ after k)" using t by (auto simp: tree_rep_plug)
  then have ne: "n \<noteq> p" "cptr k \<noteq> p"
    using n cptr_in_cnodes [of k] by (auto simp: nodes_ok_def)
  then have f: "rb_left (set_hole k n m) p = ptr l" "rb_right (set_hole k n m) p = ptr r"
    using tree_rep_cell [OF t] by simp_all
  then show ?thesis
    using ne by (auto simp: rb_replace_node_def Let_def tree_rep_cell(2) [OF t] replace_child_eq [OF t] adopt_def rb_simps)
qed

lemma tree_rep_replace_node:
  assumes t: "tree_rep m (plug k (Node c l p r))"
    and n: "n \<noteq> 0" "aligned n" "n \<notin> set (inorder (plug k (Node c l p r)))"
  shows "tree_rep (rb_replace_node p n m) (plug k (Node c l n r))"
proof -
  have r: "rep m (cptr k) (Node c l p r)" "crep m k p" "nodes_ok (before k @ inorder (Node c l p r) @ after k)"
    using t by (auto simp: tree_rep_plug)
  let ?m1 = "set_hole k n m"
  let ?m3 = "adopt n r (adopt n l ?m1)"
  let ?m = "set_right n (ptr r) (set_left n (ptr l) (upd_pc n (rb_parent_color ?m3 p) ?m3))"
  have ne: "n \<noteq> p" "p \<noteq> 0" "cptr k \<noteq> p" "cptr k \<noteq> n" "ptr l \<noteq> p" "ptr r \<noteq> p" "ptr l \<noteq> n" "ptr r \<noteq> n"
    using r(3) n cptr_in_cnodes [of k] ptr_in [of l] ptr_in [of r] by (auto simp: nodes_ok_def)
  have f: "rb_left ?m1 p = ptr l" "rb_right ?m1 p = ptr r" "rcol ?m1 p = c" "rb_parent ?m1 p = cptr k"
    using ne tree_rep_cell [OF t] by simp_all
  have eq: "rb_replace_node p n m = ?m" using replace_node_eq [OF t n(3,1)] by (simp add: Let_def)
  have other: "y \<noteq> p \<and> y \<noteq> n \<and> y \<noteq> cptr k" if "y \<in> set (inorder l) \<union> set (inorder r)" for y
    using that r(3) n cptr_in_cnodes [of k] by (cases "cptr k = 0") (auto simp: nodes_ok_def)
  have lr: "y \<noteq> ptr l" if "y \<in> set (inorder r) \<union> cnodes k" for y
    using that r(3) ptr_in [of l] by (cases "ptr l = 0") (auto simp: nodes_ok_def)
  have rl: "y \<noteq> ptr r" if "y \<in> set (inorder l) \<union> cnodes k" for y
    using that r(3) ptr_in [of r] by (cases "ptr r = 0") (auto simp: nodes_ok_def)
  have nz: "ptr s \<noteq> 0 \<and> ptr s \<in> set (inorder s)" if "s \<noteq> Leaf" "s = l \<or> s = r" for s
    using that r(3) by (cases s) (auto simp: nodes_ok_def)
  note upd = rb_simps adopt_fields n
  have l: "rep ?m n l"
  proof (rule rep_adopted [of m p])
    show "rep m p l" "nodes_ok (inorder l)" using r(1,3) by (auto simp: nodes_ok_def)
    show "rb_parent ?m (ptr l) = n" if "l \<noteq> Leaf" using nz [OF that] rl [of "ptr l"] ne by (simp add: upd)
  qed (use other rl ne in \<open>auto simp: upd\<close>)
  have rr: "rep ?m n r"
  proof (rule rep_adopted [of m p])
    show "rep m p r" "nodes_ok (inorder r)" using r(1,3) by (auto simp: nodes_ok_def)
    show "rb_parent ?m (ptr r) = n" if "r \<noteq> Leaf" using nz [OF that] ne by (simp add: upd)
  qed (use other lr ne in \<open>auto simp: upd\<close>)
  have "crep ?m1 k n" using r(2,3) by (rule crep_set_hole)
  moreover have "same_at ?m1 ?m y" if "y \<in> cnodes k" for y
    using that n lr rl by (auto simp: same_at_def upd)
  ultimately have k: "crep ?m k n" using crep_cong [of k ?m1 ?m n] by (auto simp: upd)
  have "cell ?m n c (cptr k) (ptr l) (ptr r)"
    using ne f by (auto simp: cell_def upd)
  with l rr k r(3) n show ?thesis
    unfolding eq by (auto simp: tree_rep_plug nodes_ok_def)
qed

section \<open>Taking out a node with one child\<close>

lemma tree_rep_drop:
  assumes t: "tree_rep m (plug k (Node c l p r))" and s: "s = l \<or> s = r"
  shows "tree_rep (set_hole k (ptr s) (adopt (cptr k) s m)) (plug k s)"
proof -
  have r: "rep m p s" "crep m k p" "nodes_ok (before k @ inorder (Node c l p r) @ after k)"
    using t s by (auto simp: tree_rep_plug)
  have ok: "nodes_ok (before k @ inorder s @ after k)"
    using r(3) s by (auto simp: nodes_ok_def)
  have al: "aligned (cptr k)" using aligned_cptr [OF ok] .
  let ?m1 = "adopt (cptr k) s m"
  let ?m = "set_hole k (ptr s) ?m1"
  have other: "y \<noteq> cptr k" if "y \<in> set (inorder s)" for y
    using that ok cptr_in_cnodes [of k] by (cases "cptr k = 0") (auto simp: nodes_ok_def)
  have "rep ?m (cptr k) s"
  proof (rule rep_adopted [of m p])
    show "rep m p s" "nodes_ok (inorder s)" using r(1) ok by (auto simp: nodes_ok_def)
    show "rb_parent ?m (ptr s) = cptr k" if "s \<noteq> Leaf"
      using that ok adopt_fields(6) [OF al, of s m] by (cases s) (auto simp: nodes_ok_def)
  qed (use other in \<open>auto simp: adopt_fields al\<close>)
  moreover have "same_at m ?m1 y" if "y \<in> cnodes k" for y
    using that ok ptr_in [of s] by (cases "ptr s = 0") (auto simp: same_at_def adopt_fields al adopt_def nodes_ok_def rb_simps)
  then have "crep ?m1 k p" using r(2) crep_cong [of k m ?m1 p] by (auto simp: adopt_fields)
  then have "crep ?m k (ptr s)" using r(3) by (rule crep_set_hole)
  ultimately show ?thesis using ok by (simp add: tree_rep_plug)
qed

section \<open>The successor takes the place of a node with two children\<close>

fun ctx_app :: "'a ctx \<Rightarrow> 'a ctx \<Rightarrow> 'a ctx" where
  "ctx_app Top k = k"
| "ctx_app (InL c p r j) k = InL c p r (ctx_app j k)"
| "ctx_app (InR c l p j) k = InR c l p (ctx_app j k)"

lemma plug_ctx_app [simp]: "plug (ctx_app j k) t = plug k (plug j t)"
  by (induction j arbitrary: t) auto

lemma down_left_split:
  "t \<noteq> Leaf \<Longrightarrow> \<exists>j sc child. t = plug j (Node sc Leaf (leftmost t) child)
     \<and> (\<forall>k. down_left t k = (sc, child, ctx_app j k)) \<and> (j = Top \<or> (\<exists>c p r j'. j = InL c p r j'))"
proof (induction t rule: leftmost.induct)
  case (1 c p r)
  show ?case by (rule exI [of _ Top]) simp
next
  case (2 c cl ll pl rl p r)
  have "Node cl ll pl rl \<noteq> Leaf" by simp
  from "2.IH" [OF this] obtain j sc child where j: "Node cl ll pl rl = plug j (Node sc Leaf (leftmost (Node cl ll pl rl)) child)"
    "\<And>k. down_left (Node cl ll pl rl) k = (sc, child, ctx_app j k)" "j = Top \<or> (\<exists>c p r j'. j = InL c p r j')"
    by blast
  have "ctx_app (ctx_app j (InL c p r Top)) k = ctx_app j (InL c p r k)" for k :: "'a ctx" and j
    by (induction j) auto
  moreover have "ctx_app j (InL c p r Top) = Top \<or> (\<exists>c' p' r' j'. ctx_app j (InL c p r Top) = InL c' p' r' j')"
    using j(3) by auto
  ultimately show ?case
    using j(1,2) by (intro exI [of _ "ctx_app j (InL c p r Top)"] exI [of _ sc] exI [of _ child]) simp
qed simp

lemma go_left_ok:
  "rep m par t \<Longrightarrow> nodes_ok (inorder t) \<Longrightarrow> t \<noteq> Leaf \<Longrightarrow> go_left (ptr t) m = Some (leftmost t)"
proof (induction t arbitrary: par rule: leftmost.induct)
  case (1 c p r)
  then show ?case by (subst go_left.simps) (simp add: cell_def)
next
  case (2 c cl ll pl rl p r)
  have "go_left (ptr (Node cl ll pl rl)) m = Some (leftmost (Node cl ll pl rl))"
    using "2.prems" by (intro "2.IH" [of p]) (auto simp: nodes_ok_def)
  then show ?case using "2.prems" by (subst go_left.simps) (auto simp: cell_def nodes_ok_def)
qed simp

definition hole_left :: "u32 ctx \<Rightarrow> bool" where
  "hole_left k \<longleftrightarrow> (\<exists>c p r k'. k = InL c p r k')"

lemma set_hole_all:
  "rb_left (set_hole k x m) y = (if k \<noteq> Top \<and> hole_left k \<and> y = cptr k then x else rb_left m y)"
  "rb_right (set_hole k x m) y = (if k \<noteq> Top \<and> \<not> hole_left k \<and> y = cptr k then x else rb_right m y)"
  "rb_root (set_hole k x m) = (if k = Top then x else rb_root m)"
  by (cases k; auto simp: rb_simps hole_left_def)+

lemma rb_color_set_hole [simp]: "rb_color (set_hole k x m) = rb_color m"
  by (cases k) (auto simp: pc_simps fun_eq_iff)

lemma adopt_parent:
  "aligned q \<Longrightarrow> rb_parent (adopt q t m) y = (if ptr t \<noteq> 0 \<and> y = ptr t then q else rb_parent m y)"
  by (simp add: adopt_def rb_simps)

lemma nodes_ok_distinct: "nodes_ok xs \<Longrightarrow> distinct xs"
  by (simp add: nodes_ok_def)

lemma nodes_ok_in: "nodes_ok xs \<Longrightarrow> x \<in> set xs \<Longrightarrow> x \<noteq> 0 \<and> aligned x"
  by (simp add: nodes_ok_def)

lemma tree_rep_cong:
  assumes "\<And>y. y \<in> set (inorder t) \<Longrightarrow> same_at m m' y" "rb_root m = rb_root m'" "tree_rep m t"
  shows "tree_rep m' t"
  using assms rep_cong [of t m m' 0] by (simp add: tree_rep_def)

lemma splice_Top:
  assumes t: "tree_rep m (plug k (Node c l p (Node sc Leaf s child)))" and "l \<noteq> Leaf"
  shows "\<exists>m'. splice_successor p s m = (m', ptr child, s, rb_color m s) \<and> tree_rep m' (plug k (Node c l s child))"
proof -
  let ?K = "InR c l p k"
  let ?M1 = "set_hole ?K (ptr child) (adopt p child m)"
  have ts: "tree_rep m (plug ?K (Node sc Leaf s child))" using t by simp
  note f = tree_rep_cell [OF t] and fs = tree_rep_cell [OF ts]
  have ok: "nodes_ok (before k @ inorder l @ p # s # inorder child @ after k)" using t by (simp add: tree_rep_plug)
  have d: "p \<noteq> s" "p \<noteq> 0" "s \<noteq> 0" "aligned s" "aligned p"
    using nodes_ok_distinct [OF ok] nodes_ok_in [OF ok] by auto
  have dp: "x \<noteq> p \<and> x \<noteq> s" if "x \<in> set (inorder l) \<union> set (inorder child) \<union> cnodes k" for x
    using that nodes_ok_distinct [OF ok] by auto
  have ne1: "cptr k \<noteq> p" "cptr k \<noteq> s" "ptr l \<noteq> p" "ptr l \<noteq> s" "ptr child \<noteq> p" "ptr child \<noteq> s"
    using d dp cptr_in_cnodes [of k] ptr_in [of l] ptr_in [of child] by (metis UnCI)+
  have "set (inorder l) \<inter> set (inorder child) = {}" using nodes_ok_distinct [OF ok] by auto
  then have ne2: "ptr l \<noteq> 0" "ptr child \<noteq> 0 \<Longrightarrow> ptr child \<noteq> ptr l"
    using tree_rep_ptr [of m "InL c p (Node sc Leaf s child) k" l] t assms(2) ptr_in [of l] ptr_in [of child] by auto
  note ne = d(1) ne1 ne2 d(3-5)
  have "tree_rep m (plug (InR sc Leaf s ?K) child)" using t by simp
  from tree_rep_parent [OF this] tree_rep_ptr [OF this]
  have pc: "ptr child \<noteq> 0 \<Longrightarrow> rb_parent m (ptr child) = s" by simp
  have M1: "tree_rep ?M1 (plug k (Node c l p child))"
    using tree_rep_drop [OF ts, of child] by simp
  let ?m1 = "set_hole k s m"
  let ?m = "rb_set_parent (ptr l) s (set_left s (ptr l) (upd_pc s (rb_parent_color ?m1 p) ?m1))"
  have "splice_successor p s m = (?m, ptr child, s, rb_color m s)"
    using ne f fs replace_child_eq [OF t]
    by (simp add: splice_successor_def Let_def rb_simps rb_color_set_hole)
  moreover have "tree_rep ?m (plug k (Node c l s child))"
  proof (rule tree_rep_cong)
    have n: "s \<notin> set (inorder (plug k (Node c l p child)))" using ok by (auto simp: nodes_ok_def)
    show "tree_rep (rb_replace_node p s ?M1) (plug k (Node c l s child))"
      using tree_rep_replace_node [OF M1 d(3,4) n] .
    note eq = replace_node_eq [OF M1 n d(3)]
    note upd = rb_simps adopt_fields(1-4) adopt_parent set_hole_all ne ne(1-7) [symmetric]
    show "same_at (rb_replace_node p s ?M1) ?m y" if "y \<in> set (inorder (plug k (Node c l s child)))" for y
    proof -
      have "y \<noteq> p" using that ok by (auto simp: nodes_ok_def)
      then show ?thesis
        unfolding same_at_def eq Let_def by (intro conjI; simp add: upd f fs pc)
    qed
    show "rb_root (rb_replace_node p s ?M1) = rb_root ?m"
      unfolding eq Let_def by (simp add: upd)
  qed
  ultimately show ?thesis by blast
qed

lemma ptr_plug_cong: "ptr t = ptr t' \<Longrightarrow> ptr (plug j t) = ptr (plug j t')"
  by (induction j arbitrary: t t') auto

lemma ptr_plug_in: "j \<noteq> Top \<Longrightarrow> ptr (plug j t) \<in> cnodes j"
proof (induction j arbitrary: t)
  case (InL c p r j)
  then show ?case by (cases j) auto
next
  case (InR c l p j)
  then show ?case by (cases j) auto
qed simp

lemma splice_InL:
  assumes t: "tree_rep m (plug k (Node c l p (plug j (Node sc Leaf s child))))" and "l \<noteq> Leaf"
    and j: "j = InL jc q jr j'"
  shows "\<exists>m'. splice_successor p s m = (m', ptr child, q, rb_color m s)
    \<and> tree_rep m' (plug k (Node c l s (plug j child)))"
proof -
  let ?K = "ctx_app j (InR c l p k)"
  let ?M1 = "set_hole ?K (ptr child) (adopt q child m)"
  have ts: "tree_rep m (plug ?K (Node sc Leaf s child))" using t by simp
  define r where "r = ptr (plug j child)"
  have pj: "ptr (plug j (Node sc Leaf s child)) = r"
    unfolding r_def j by (auto intro: ptr_plug_cong)
  note f = tree_rep_cell [OF t, unfolded pj] and fs = tree_rep_cell [OF ts]
  have ok: "nodes_ok (before k @ inorder l @ p # before j @ s # inorder child @ after j @ after k)"
    using t by (simp add: tree_rep_plug)
  have qr: "r \<in> cnodes j" "q \<in> cnodes j" using j ptr_plug_in [of j child] by (auto simp: r_def)
  have out: "x \<notin> cnodes j" if "x \<in> insert p (insert s (set (inorder l) \<union> set (inorder child) \<union> cnodes k))" for x
    using that nodes_ok_distinct [OF ok] by auto
  have r0: "r \<noteq> 0" using qr nodes_ok_in [OF ok] by auto
  have d: "p \<noteq> s" "p \<noteq> 0" "s \<noteq> 0" "q \<noteq> 0"
    using nodes_ok_distinct [OF ok] nodes_ok_in [OF ok] qr by auto
  have dp: "x \<noteq> p \<and> x \<noteq> s" if "x \<in> set (inorder l) \<union> set (inorder child) \<union> cnodes k" for x
    using that nodes_ok_distinct [OF ok] by auto
  have ne1: "r \<noteq> p" "r \<noteq> s" "q \<noteq> p" "q \<noteq> s" "cptr k \<noteq> q" "r \<noteq> ptr l" "r \<noteq> ptr child"
    using qr r0 d out cptr_in_cnodes [of k] ptr_in [of l] ptr_in [of child] by (metis UnCI insertI1 insertI2)+
  have ne2: "p \<noteq> s" "cptr k \<noteq> p" "cptr k \<noteq> s" "ptr l \<noteq> p" "ptr l \<noteq> s" "ptr child \<noteq> p" "ptr child \<noteq> s"
    using d dp cptr_in_cnodes [of k] ptr_in [of l] ptr_in [of child] by (metis UnCI)+
  have "set (inorder l) \<inter> set (inorder child) = {}" using nodes_ok_distinct [OF ok] by auto
  then have nz: "ptr l \<noteq> 0" "aligned s" "aligned p" "aligned q" "s \<noteq> 0" "ptr child \<noteq> 0 \<Longrightarrow> ptr child \<noteq> ptr l"
    using tree_rep_ptr [of m "InL c p (plug j (Node sc Leaf s child)) k" l] t assms(2) nodes_ok_in [OF ok] qr
      ptr_in [of l] ptr_in [of child] d by auto
  note ne = r0 ne1 ne2
  have M1: "tree_rep ?M1 (plug k (Node c l p (plug j child)))"
    using tree_rep_drop [OF ts, of child] j by simp
  let ?m1 = "set_hole k s m"
  let ?m2 = "rb_set_parent r s (set_right s r (set_left q (ptr child) (adopt q child ?m1)))"
  let ?m = "rb_set_parent (ptr l) s (set_left s (ptr l) (upd_pc s (rb_parent_color ?m2 p) ?m2))"
  have "splice_successor p s m = (?m, ptr child, q, rb_color m s)"
    using ne nz f fs j replace_child_eq [OF t]
    by (simp add: splice_successor_def Let_def rb_simps adopt_def)
  moreover have "tree_rep ?m (plug k (Node c l s (plug j child)))"
  proof (rule tree_rep_cong)
    have n: "s \<notin> set (inorder (plug k (Node c l p (plug j child))))" using ok by (auto simp: nodes_ok_def)
    show "tree_rep (rb_replace_node p s ?M1) (plug k (Node c l s (plug j child)))"
      using tree_rep_replace_node [OF M1 nz(5,2) n] .
    note eq = replace_node_eq [OF M1 n nz(5), folded r_def]
    note upd = rb_simps adopt_fields(1-4) adopt_parent set_hole_all ne ne [symmetric] nz j r_def [symmetric, unfolded j plug.simps]
    show "same_at (rb_replace_node p s ?M1) ?m y" if "y \<in> set (inorder (plug k (Node c l s (plug j child))))" for y
    proof -
      have "y \<noteq> p" using that ok by (auto simp: nodes_ok_def)
      then show ?thesis
        unfolding same_at_def eq Let_def by (intro conjI; simp add: upd f fs)
    qed
    show "rb_root (rb_replace_node p s ?M1) = rb_root ?m"
      unfolding eq Let_def by (simp add: upd)
  qed
  ultimately show ?thesis by blast
qed

section \<open>\<open>rb_erase\<close>\<close>

lemma erase_cut:
  assumes "tree_rep m (plug k t)" "invc t" "invh t" "ctx_invc k"
    "ctx_invh k (bheight t + (if c = Black then 1 else 0))"
  shows "\<exists>m'. (if c = Black then rb_erase_color (ptr t) (cptr k) m else Some m) = Some m' \<and> tree_rep m' (cut c t k)"
proof -
  have "invc (paint Black t)" using assms(2) by (cases t) auto
  then show ?thesis using erase_color [OF assms(1) _ assms(3,4)] assms by (auto simp: cut_def split: if_splits)
qed

lemma erase_one_child:
  assumes t: "tree_rep m (plug k (Node c l p r))" "rbtree (plug k (Node c l p r))" and s: "s = l \<or> s = r"
  shows "\<exists>m'. (let parent = rb_parent m p; color = rb_color m p;
         m1 = (if ptr s \<noteq> 0 then rb_set_parent (ptr s) parent m else m);
         m2 = replace_child parent p (ptr s) m1
     in if color = RB_BLACK then rb_erase_color (ptr s) parent m2 else Some m2) = Some m'
    \<and> tree_rep m' (cut c s k)"
proof -
  let ?m1 = "adopt (cptr k) s m"
  have r: "rep m (cptr k) (Node c l p r)" "crep m k p" "nodes_ok (before k @ inorder (Node c l p r) @ after k)"
    using t(1) by (auto simp: tree_rep_plug)
  have "same_at m ?m1 y" if "y \<in> cnodes k" for y
    using that r(3) s ptr_in [of s] aligned_cptr [OF r(3)]
    by (cases "ptr s = 0") (auto simp: same_at_def rb_simps adopt_def nodes_ok_def)
  then have "crep ?m1 k p" using r(2) crep_cong [of k m ?m1 p] by (auto simp: adopt_fields)
  then have "replace_child (cptr k) p (ptr s) ?m1 = set_hole k (ptr s) ?m1"
    using set_hole_eq(1) [OF _ r(3), of ?m1 p "ptr s"] by (auto simp: replace_child_def split: if_splits)
  moreover have "\<exists>m'. (if c = Black then rb_erase_color (ptr s) (cptr k) (set_hole k (ptr s) ?m1)
      else Some (set_hole k (ptr s) ?m1)) = Some m' \<and> tree_rep m' (cut c s k)"
    by (rule erase_cut [OF tree_rep_drop [OF t(1) s]])
      (use t(2) s in \<open>auto simp: rbtree_plug split: if_splits\<close>)
  ultimately show ?thesis
    unfolding Let_def color_rcol tree_rep_cell(1,2) [OF t(1)] adopt_def [symmetric] by (simp only:)
qed

lemma erase_two_children:
  assumes t: "tree_rep m (plug k (Node c l p r))" "rbtree (plug k (Node c l p r))" and "l \<noteq> Leaf" "r \<noteq> Leaf"
  shows "\<exists>m'. Option.bind (go_left (ptr r) m) (\<lambda>succ. (let (m1, child, parent, color) = splice_successor p succ m
      in if color = RB_BLACK then rb_erase_color child parent m1 else Some m1)) = Some m'
    \<and> tree_rep m' (erase_at (Node c l p r) k)"
proof -
  let ?s = "leftmost r"
  obtain j sc child where j: "r = plug j (Node sc Leaf ?s child)" "\<And>k. down_left r k = (sc, child, ctx_app j k)"
    "j = Top \<or> (\<exists>c p r j'. j = InL c p r j')" using down_left_split [OF assms(4)] by blast
  let ?K = "ctx_app j (InR c l ?s k)"
  have s: "go_left (ptr r) m = Some ?s"
    using t(1) assms(4) by (intro go_left_ok [of m p]) (auto simp: tree_rep_plug nodes_ok_def)
  have "tree_rep m (plug k (Node c l p (plug j (Node sc Leaf ?s child))))" using t(1) j(1) by simp
  then obtain m1 where m1: "splice_successor p ?s m = (m1, ptr child, cptr ?K, rb_color m ?s)" "tree_rep m1 (plug ?K child)"
    using j(3) splice_Top [of m k c l p sc ?s child] splice_InL [of m k c l p j sc ?s child] assms(3) by fastforce
  have "tree_rep m (plug (ctx_app j (InR c l p k)) (Node sc Leaf ?s child))" using t(1) j(1) by simp
  then have sc: "rb_color m ?s = RB_BLACK \<longleftrightarrow> sc = Black" using tree_rep_cell(1) by (simp only: color_rcol)
  have "invc child \<and> invh child \<and> ctx_invc ?K \<and> ctx_invh ?K (bheight child + (if sc = Black then 1 else 0))
    \<and> (sc = Red \<longrightarrow> \<not> is_red child)"
    by (rule down_left_inv [OF j(2) assms(4)]) (use t(2) in \<open>auto simp: rbtree_plug color_cases split: if_splits\<close>)
  then have "\<exists>m'. (if sc = Black then rb_erase_color (ptr child) (cptr ?K) m1 else Some m1) = Some m' \<and> tree_rep m' (cut sc child ?K)"
    by (intro erase_cut [OF m1(2)]) auto
  moreover have "erase_at (Node c l p r) k = cut sc child ?K"
    using assms(3,4) j(2) by (cases l; cases r) auto
  ultimately show ?thesis using s m1(1) sc by simp
qed

lemma rb_erase_refines:
  assumes t: "tree_rep m (plug k (Node c l p r))" "rbtree (plug k (Node c l p r))"
  shows "\<exists>m'. rb_erase p m = Some m' \<and> tree_rep m' (erase_at (Node c l p r) k)"
proof -
  note f = tree_rep_cell(3,4) [OF t(1)]
  have z: "ptr l = 0 \<longleftrightarrow> l = Leaf" "ptr r = 0 \<longleftrightarrow> r = Leaf"
    using tree_rep_ptr [of m "InL c p r k" l] tree_rep_ptr [of m "InR c l p k" r] t(1) by auto
  consider "l = Leaf" | "l \<noteq> Leaf" "r = Leaf" | "l \<noteq> Leaf" "r \<noteq> Leaf" by blast
  then show ?thesis
  proof cases
    case 1
    then show ?thesis using erase_one_child [OF t, of r] f
      by (simp add: rb_erase_def Let_def split: if_split_asm)
  next
    case 2
    moreover have "erase_at (Node c l p r) k = cut c l k" using 2 by (cases l) auto
    ultimately show ?thesis using erase_one_child [OF t, of l] f z
      by (simp add: rb_erase_def Let_def split: if_split_asm)
  next
    case 3
    then show ?thesis using erase_two_children [OF t] f z by (simp add: rb_erase_def Let_def)
  qed
qed

section \<open>Walking in sort order\<close>

text \<open>Every place of the sort order is the focus of a context.\<close>

lemma focus_exists:
  "inorder t = xs @ p # ys \<Longrightarrow> distinct (inorder t) \<Longrightarrow>
   \<exists>k c l r. t = plug k (Node c l p r) \<and> xs = before k @ inorder l \<and> ys = inorder r @ after k"
proof -
  have ex: "p \<in> set (inorder t) \<Longrightarrow> \<exists>k c l r. t = plug k (Node c l p r)" for t :: "'a rbt"
  proof (induction t)
    case (Node c l q r)
    then consider "p = q" | "p \<in> set (inorder l)" | "p \<in> set (inorder r)" by auto
    then show ?case
    proof cases
      case 1
      then show ?thesis by (metis plug.simps(1))
    next
      case 2
      with Node obtain k c' l' r' where "l = plug k (Node c' l' p r')" by blast
      then have "Node c l q r = plug (ctx_app k (InL c q r Top)) (Node c' l' p r')" by simp
      then show ?thesis by blast
    next
      case 3
      with Node obtain k c' l' r' where "r = plug k (Node c' l' p r')" by blast
      then have "Node c l q r = plug (ctx_app k (InR c l q Top)) (Node c' l' p r')" by simp
      then show ?thesis by blast
    qed
  qed simp
  assume a: "inorder t = xs @ p # ys" "distinct (inorder t)"
  then obtain k c l r where t: "t = plug k (Node c l p r)" using ex [of t] by auto
  then have "xs @ p # ys = (before k @ inorder l) @ p # (inorder r @ after k)" using a(1) by simp
  moreover have "distinct (xs @ p # ys)" "distinct (before k @ inorder l @ p # inorder r @ after k)"
    using a t by simp_all
  then have "p \<notin> set xs" "p \<notin> set ys" by simp_all
  ultimately have "xs = before k @ inorder l" "ys = inorder r @ after k"
    using append_Cons_eq_iff [of p xs ys "before k @ inorder l" "inorder r @ after k"] by simp_all
  then show ?thesis using t by blast
qed

definition hd0 :: "u32 list \<Rightarrow> u32" where
  "hd0 xs = (if xs = [] then 0 else hd xs)"

definition last0 :: "u32 list \<Rightarrow> u32" where
  "last0 xs = (if xs = [] then 0 else last xs)"

lemma leftmost_hd: "t \<noteq> Leaf \<Longrightarrow> hd0 (inorder t @ xs) = leftmost t"
proof (induction t arbitrary: xs rule: leftmost.induct)
  case (2 c cl ll pl rl p r)
  then have "hd0 (inorder (Node cl ll pl rl) @ (p # inorder r @ xs)) = leftmost (Node cl ll pl rl)" by blast
  then show ?case by simp
qed (simp_all add: hd0_def)

lemma go_right_ok:
  "rep m par t \<Longrightarrow> nodes_ok (inorder t) \<Longrightarrow> t \<noteq> Leaf \<Longrightarrow> go_right (ptr t) m = Some (last0 (xs @ inorder t))"
proof (induction t arbitrary: par xs)
  case (Node c l p r)
  have r: "rb_right m p = ptr r" using Node.prems by (simp add: cell_def)
  show ?case
  proof (cases "r = Leaf")
    case True
    then show ?thesis using r by (subst ptr.simps, subst go_right.simps) (simp add: last0_def)
  next
    case False
    then have "ptr r \<noteq> 0" using Node.prems(2) by (cases r) (auto simp: nodes_ok_def)
    moreover have "go_right (ptr r) m = Some (last0 ((xs @ inorder l @ [p]) @ inorder r))"
      using Node.prems False by (intro Node.IH(2) [of p]) (auto simp: nodes_ok_def)
    ultimately show ?thesis using r by (subst ptr.simps, subst go_right.simps) simp
  qed
qed simp

lemma up_from_right_ok:
  "tree_rep m (plug k t) \<Longrightarrow> t \<noteq> Leaf \<Longrightarrow> up_from_right (ptr t) m = Some (hd0 (after k))"
proof (induction k arbitrary: t)
  case Top
  then show ?case by (subst up_from_right.simps) (simp add: tree_rep_parent [of m Top t] Let_def hd0_def)
next
  case (InL c p r k)
  then have t: "tree_rep m (plug k (Node c t p r))" by simp
  have "ptr t \<noteq> ptr r" using siblings_distinct [OF t] InL.prems(2) by simp
  then show ?case
    using tree_rep_parent [OF InL.prems] tree_rep_cell(4) [OF t]
    by (subst up_from_right.simps) (simp add: Let_def hd0_def)
next
  case (InR c l p k)
  then have t: "tree_rep m (plug k (Node c l p t))" by simp
  have "up_from_right p m = Some (hd0 (after k))" using InR.IH [OF t] by simp
  then show ?case
    using tree_rep_parent [OF InR.prems] tree_rep_cell(4,5) [OF t]
    by (subst up_from_right.simps) (simp add: Let_def)
qed

lemma up_from_left_ok:
  "tree_rep m (plug k t) \<Longrightarrow> t \<noteq> Leaf \<Longrightarrow> up_from_left (ptr t) m = Some (last0 (before k))"
proof (induction k arbitrary: t)
  case Top
  then show ?case by (subst up_from_left.simps) (simp add: tree_rep_parent [of m Top t] Let_def last0_def)
next
  case (InR c l p k)
  then have t: "tree_rep m (plug k (Node c l p t))" by simp
  have "ptr t \<noteq> ptr l" using siblings_distinct [OF t] InR.prems(2) by simp
  then show ?case
    using tree_rep_parent [OF InR.prems] tree_rep_cell(3) [OF t]
    by (subst up_from_left.simps) (simp add: Let_def last0_def)
next
  case (InL c p r k)
  then have t: "tree_rep m (plug k (Node c t p r))" by simp
  have "up_from_left p m = Some (last0 (before k))" using InL.IH [OF t] by simp
  then show ?case
    using tree_rep_parent [OF InL.prems] tree_rep_cell(3,5) [OF t]
    by (subst up_from_left.simps) (simp add: Let_def)
qed

lemma rb_first_ok: "tree_rep m t \<Longrightarrow> rb_first m = Some (hd0 (inorder t))"
  using go_left_ok [of m 0 t] leftmost_hd [of t "[]"] tree_rep_ptr [of m Top t]
  by (cases t) (auto simp: rb_first_def tree_rep_def hd0_def)

lemma rb_last_ok: "tree_rep m t \<Longrightarrow> rb_last m = Some (last0 (inorder t))"
  using go_right_ok [of m 0 t "[]"] tree_rep_ptr [of m Top t]
  by (cases t) (auto simp: rb_last_def tree_rep_def last0_def)

lemma rb_neighbours:
  assumes t: "tree_rep m (plug k (Node c l p r))"
  shows "rb_next m p = Some (hd0 (inorder r @ after k))" "rb_prev m p = Some (last0 (before k @ inorder l))"
proof -
  have ok: "nodes_ok (before k @ inorder (Node c l p r) @ after k)" "rep m (cptr k) (Node c l p r)"
    using t by (simp_all add: tree_rep_plug)
  then have ne: "cptr k \<noteq> p" using cptr_in_cnodes [of k] by (auto simp: nodes_ok_def)
  have z: "ptr l = 0 \<longleftrightarrow> l = Leaf" "ptr r = 0 \<longleftrightarrow> r = Leaf"
    using tree_rep_ptr [of m "InL c p r k" l] tree_rep_ptr [of m "InR c l p k" r] t by auto
  note f = tree_rep_cell [OF t]
  show "rb_next m p = Some (hd0 (inorder r @ after k))"
  proof (cases "r = Leaf")
    case True
    then show ?thesis using up_from_right_ok [OF t] ne f by (simp add: rb_next_def)
  next
    case False
    then have "go_left (ptr r) m = Some (leftmost r)"
      using ok by (intro go_left_ok [of m p]) (auto simp: nodes_ok_def)
    then show ?thesis using False ne f z leftmost_hd [OF False] by (simp add: rb_next_def)
  qed
  show "rb_prev m p = Some (last0 (before k @ inorder l))"
  proof (cases "l = Leaf")
    case True
    then show ?thesis using up_from_left_ok [OF t] ne f by (simp add: rb_prev_def)
  next
    case False
    then have "go_right (ptr l) m = Some (last0 (before k @ inorder l))"
      using ok by (intro go_right_ok [of m p]) (auto simp: nodes_ok_def)
    then show ?thesis using False ne f z by (simp add: rb_prev_def)
  qed
qed

section \<open>Augmented trees\<close>

text \<open>The walk to the root of \<open>rb_augment_path\<close> returns, and it calls \<open>func\<close> on the node, on all its
  ancestors and on no node outside the tree.\<close>

fun ancestors :: "u32 ctx \<Rightarrow> u32 list" where
  "ancestors Top = []"
| "ancestors (InL c p r k) = p # ancestors k"
| "ancestors (InR c l p k) = p # ancestors k"

lemma rb_augment_path_ok:
  "tree_rep m (plug k t) \<Longrightarrow> t \<noteq> Leaf \<Longrightarrow>
   \<exists>xs. rb_augment_path (\<lambda>n d. d @ [n]) m (ptr t) d = Some (d @ xs)
     \<and> set (ptr t # ancestors k) \<subseteq> set xs \<and> set xs \<subseteq> set (inorder (plug k t))"
proof (induction k arbitrary: t d)
  case Top
  then show ?case
    using ptr_in [of t] tree_rep_ptr [of m Top t]
    by (subst rb_augment_path.simps) (auto simp: tree_rep_parent [of m Top t] Let_def)
next
  case (InL c p r k)
  then have t: "tree_rep m (plug k (Node c t p r))" by simp
  have tr: "tree_rep m (plug (InR c t p k) r)" using t by simp
  note f = tree_rep_cell [OF t]
  have pt: "ptr t \<in> set (inorder t)" using InL.prems ptr_in [of t] tree_rep_ptr [of m "InL c p r k" t] by simp
  let ?d = "if ptr r \<noteq> 0 then d @ [ptr t, ptr r] else d @ [ptr t] @ [ptr t]"
  obtain xs where xs: "rb_augment_path (\<lambda>n d. d @ [n]) m p ?d = Some (?d @ xs)"
    "set (p # ancestors k) \<subseteq> set xs" "set xs \<subseteq> set (inorder (plug k (Node c t p r)))"
    using InL.IH [OF t, of ?d] by auto
  have "rb_augment_path (\<lambda>n d. d @ [n]) m (ptr t) d = rb_augment_path (\<lambda>n d. d @ [n]) m p ?d"
    using tree_rep_parent [OF InL.prems] f pt tree_rep_ptr [OF InL.prems(1)] InL.prems(2)
    by (subst rb_augment_path.simps) (simp add: Let_def)
  then show ?case
    using xs pt ptr_in [of r] by (intro exI [of _ "if ptr r \<noteq> 0 then ptr t # ptr r # xs else ptr t # ptr t # xs"]) auto
next
  case (InR c l p k)
  then have t: "tree_rep m (plug k (Node c l p t))" by simp
  note f = tree_rep_cell [OF t]
  have ne: "ptr t \<noteq> ptr l" using siblings_distinct [OF t] InR.prems(2) by simp
  have pt: "ptr t \<in> set (inorder t)" using InR.prems ptr_in [of t] tree_rep_ptr [of m "InR c l p k" t] by simp
  let ?d = "if ptr l \<noteq> 0 then d @ [ptr t, ptr l] else d @ [ptr t]"
  obtain xs where xs: "rb_augment_path (\<lambda>n d. d @ [n]) m p ?d = Some (?d @ xs)"
    "set (p # ancestors k) \<subseteq> set xs" "set xs \<subseteq> set (inorder (plug k (Node c l p t)))"
    using InR.IH [OF t, of ?d] by auto
  have "rb_augment_path (\<lambda>n d. d @ [n]) m (ptr t) d = rb_augment_path (\<lambda>n d. d @ [n]) m p ?d"
    using tree_rep_parent [OF InR.prems] f ne
    by (subst rb_augment_path.simps) (simp add: Let_def)
  then show ?case
    using xs pt ptr_in [of l] by (intro exI [of _ "if ptr l \<noteq> 0 then ptr t # ptr l # xs else ptr t # xs"]) auto
qed

end
