(* ===== verification/Rbtree_Props.thy ===== *)
theory Rbtree_Props
  imports Rbtree_Ops
begin

text \<open>
  What the users of \<open>lib/rbtree.c\<close> rely on. \<open>tree_rep m t\<close> says that the memory holds the tree \<open>t\<close>
  (children, parents, colours and the root pointer agree, the addresses are distinct, aligned and
  not NULL), \<open>rbtree t\<close> that it is a red-black tree, \<open>inorder t\<close> is its sort order.\<close>

section \<open>A tree for the examples\<close>

definition rb_demo :: rb_mem where
  "rb_demo = \<lparr>rb_parent_color = (\<lambda>_. 0)(8 := 1, 4 := 8, 12 := 8), rb_right = (\<lambda>_. 0)(8 := 12),
     rb_left = (\<lambda>_. 0)(8 := 4), rb_root = 8\<rparr>"

definition rb_demo_tree :: "u32 rbt" where
  "rb_demo_tree = Node Black (Node Red Leaf 4 Leaf) 8 (Node Red Leaf 12 Leaf)"

lemma rb_demo_rep: "tree_rep rb_demo rb_demo_tree" "rbtree rb_demo_tree"
  by (simp_all add: rb_demo_def rb_demo_tree_def tree_rep_def cell_def rcol_def rb_is_red_def rb_color_def
      rb_parent_def nodes_ok_def aligned_def rbtree_def)

section \<open>Properties\<close>

text \<open>C5. Hanging a new node on an empty place of a red-black tree and calling \<open>rb_insert_color\<close>:
  the loop ends, the memory holds a red-black tree again, and in sort order the new node stands
  exactly at the place it was linked to.
\<close>

theorem rb_insert_color_balances:
  assumes "tree_rep m (plug k Leaf)" "rbtree (plug k Leaf)"
    and "n \<noteq> 0" "aligned n" "n \<notin> set (inorder (plug k Leaf))"
  shows "\<exists>m' t'. rb_insert_color n (rb_link_node n (cptr k) (slot k) m) = Some m'
    \<and> tree_rep m' t' \<and> rbtree t' \<and> inorder t' = before k @ n # after k"
proof -
  have "n \<notin> cnodes k" using assms(5) by simp
  from rb_insert_refines [OF assms(1-4) this] show ?thesis by blast
qed

theorem rb_insert_color_balances_witness:
  "\<exists>m' t'. rb_insert_color 16 (rb_link_node 16 12 (Slot_right 12) rb_demo) = Some m'
    \<and> tree_rep m' t' \<and> rbtree t' \<and> inorder t' = [4, 8, 12, 16]"
proof -
  let ?k = "InR Red Leaf 12 (InR Black (Node Red Leaf 4 Leaf) 8 Top) :: u32 ctx"
  have k: "plug ?k Leaf = rb_demo_tree" by (simp add: rb_demo_tree_def)
  show ?thesis
    using rb_insert_color_balances [of rb_demo ?k 16, unfolded k, OF rb_demo_rep]
    by (simp add: aligned_def rb_demo_tree_def)
qed

text \<open>C6. \<open>rb_erase\<close> on a node of a red-black tree returns, the memory holds a red-black tree
  again, and its sort order is the old one without the node.
\<close>

theorem rb_erase_balances:
  assumes "tree_rep m t" "rbtree t" "inorder t = xs @ p # ys"
  shows "\<exists>m' t'. rb_erase p m = Some m' \<and> tree_rep m' t' \<and> rbtree t' \<and> inorder t' = xs @ ys"
proof -
  have "distinct (inorder t)" using assms(1) by (simp add: tree_rep_def nodes_ok_def)
  then obtain k c l r where t: "t = plug k (Node c l p r)" "xs = before k @ inorder l" "ys = inorder r @ after k"
    using focus_exists [OF assms(3)] by blast
  then show ?thesis
    using rb_erase_refines [of m k c l p r] rbtree_erase_at [of k c l p r] inorder_erase_at [of c l p r k] assms(1,2)
    by auto
qed

theorem rb_erase_balances_witness:
  "\<exists>m' t'. rb_erase 8 rb_demo = Some m' \<and> tree_rep m' t' \<and> rbtree t' \<and> inorder t' = [4, 12]"
  using rb_erase_balances [OF rb_demo_rep, of "[4]" 8 "[12]"] by (simp add: rb_demo_tree_def)

text \<open>C32. \<open>rb_next\<close> and \<open>rb_prev\<close> return the neighbours in sort order, and NULL at the ends.
\<close>

theorem rb_next_prev_neighbours:
  assumes "tree_rep m t" "inorder t = xs @ p # ys"
  shows "(rb_next m p, rb_prev m p) = (Some (hd0 ys), Some (last0 xs))"
proof -
  have "distinct (inorder t)" using assms(1) by (simp add: tree_rep_def nodes_ok_def)
  then obtain k c l r where t: "t = plug k (Node c l p r)" "xs = before k @ inorder l" "ys = inorder r @ after k"
    using focus_exists [OF assms(2)] by blast
  then show ?thesis using rb_neighbours [of m k c l p r] assms(1) by simp
qed

theorem rb_next_prev_neighbours_witness:
  "(rb_next rb_demo 8, rb_prev rb_demo 8) = (Some 12, Some 4)"
  using rb_next_prev_neighbours [OF rb_demo_rep(1), of "[4]" 8 "[12]"]
  by (simp add: rb_demo_tree_def hd0_def last0_def)

end
