(* ===== verification/Rbtree_Search.thy ===== *)
theory Rbtree_Search
  imports Rbtree_Ops
begin

text \<open>
  The search loops that the users of \<open>lib/rbtree.c\<close> write themselves: down from the root, comparing
  the sought key with the key of each node, either until a node matches or until the empty place is
  found where a new node belongs. The comparison is a parameter of the loop; the locale \<open>rb_index\<close>
  says what it must be, and gives what the users rely on.
\<close>

section \<open>The loops\<close>

fun load_slot :: "rb_slot \<Rightarrow> rb_mem \<Rightarrow> u32" where
  "load_slot (Slot_left p) m = rb_left m p"
| "load_slot (Slot_right p) m = rb_right m p"
| "load_slot Slot_root m = rb_root m"

text \<open>\<open>Inl\<close> a matching node, or \<open>Inr\<close> the place \<open>p\<close> and the \<open>parent\<close> for \<open>rb_link_node\<close>.\<close>

partial_function (option) rb_lookup ::
  "(u32 \<Rightarrow> int) \<Rightarrow> rb_slot \<Rightarrow> u32 \<Rightarrow> rb_mem \<Rightarrow> (u32 + rb_slot \<times> u32) option" where
  "rb_lookup cmp p parent m =
     (let n = load_slot p m
      in if n \<noteq> 0 then
           (if cmp n < 0 then rb_lookup cmp (Slot_left n) n m
            else if cmp n > 0 then rb_lookup cmp (Slot_right n) n m
            else Some (Inl n))
         else Some (Inr (p, parent)))"

declare rb_lookup.simps [code]

text \<open>The form without a place: \<open>NULL\<close> when there is no matching node.\<close>

partial_function (option) rb_find :: "(u32 \<Rightarrow> int) \<Rightarrow> u32 \<Rightarrow> rb_mem \<Rightarrow> u32 option" where
  "rb_find cmp n m =
     (if n \<noteq> 0 then
        (if cmp n < 0 then rb_find cmp (rb_left m n) m
         else if cmp n > 0 then rb_find cmp (rb_right m n) m
         else Some n)
      else Some 0)"

declare rb_find.simps [code]

section \<open>On a tree\<close>

text \<open>The nodes on the two sides of a place agree with the comparison.\<close>

definition place_ok :: "(u32 \<Rightarrow> int) \<Rightarrow> u32 ctx \<Rightarrow> bool" where
  "place_ok cmp k \<longleftrightarrow> (\<forall>a \<in> set (before k). cmp a > 0) \<and> (\<forall>a \<in> set (after k). cmp a < 0)"

text \<open>In sort order, the nodes below the key come first and the nodes above it last.\<close>

definition guides :: "(u32 \<Rightarrow> int) \<Rightarrow> u32 list \<Rightarrow> bool" where
  "guides cmp xs \<longleftrightarrow> sorted_wrt (\<lambda>a b. (cmp a < 0 \<longrightarrow> cmp b < 0) \<and> (cmp b > 0 \<longrightarrow> cmp a > 0)) xs"

lemma load_slot_hole: "tree_rep m (plug k t) \<Longrightarrow> load_slot (slot k) m = ptr t"
  by (cases k) (auto simp: tree_rep_plug cell_def tree_rep_root)

lemma guides_side:
  assumes "guides cmp (before k @ inorder (Node c l n r) @ after k)" "place_ok cmp k"
  shows "cmp n < 0 \<Longrightarrow> place_ok cmp (InL c n r k)" "cmp n > 0 \<Longrightarrow> place_ok cmp (InR c l n k)"
  using assms by (auto simp: guides_def place_ok_def sorted_wrt_append)

lemma rb_lookup_ok:
  assumes "tree_rep m (plug k t)" "guides cmp (inorder (plug k t))" "place_ok cmp k"
  shows "(\<exists>n \<in> set (inorder t). cmp n = 0 \<and> rb_lookup cmp (slot k) (cptr k) m = Some (Inl n))
    \<or> (\<exists>k'. plug k' Leaf = plug k t \<and> place_ok cmp k'
         \<and> rb_lookup cmp (slot k) (cptr k) m = Some (Inr (slot k', cptr k')))"
  using assms
proof (induction t arbitrary: k)
  case Leaf
  then have "rb_lookup cmp (slot k) (cptr k) m = Some (Inr (slot k, cptr k))"
    using load_slot_hole [of m k Leaf] by (subst rb_lookup.simps) simp
  then show ?case using Leaf.prems(3) by blast
next
  case (Node c l n r)
  have n: "load_slot (slot k) m = n" "n \<noteq> 0"
    using load_slot_hole [OF Node.prems(1)] tree_rep_cell(5) [OF Node.prems(1)] by simp_all
  note side = guides_side [OF Node.prems(2) [unfolded inorder_plug] Node.prems(3)]
  consider (left) "cmp n < 0" | (right) "cmp n > 0" | (eq) "cmp n = 0" by linarith
  then show ?case
  proof cases
    case left
    have "rb_lookup cmp (slot k) (cptr k) m = rb_lookup cmp (slot (InL c n r k)) (cptr (InL c n r k)) m"
      using n left by (subst rb_lookup.simps) simp
    then show ?thesis using Node.IH(1) [of "InL c n r k"] Node.prems side(1) [OF left] by auto
  next
    case right
    then have "rb_lookup cmp (slot k) (cptr k) m = rb_lookup cmp (slot (InR c l n k)) (cptr (InR c l n k)) m"
      using n by (subst rb_lookup.simps) simp
    then show ?thesis using Node.IH(2) [of "InR c l n k"] Node.prems side(2) [OF right] by auto
  next
    case eq
    then have "rb_lookup cmp (slot k) (cptr k) m = Some (Inl n)"
      using n by (subst rb_lookup.simps) simp
    then show ?thesis using eq by auto
  qed
qed

lemma rb_find_ok:
  assumes "tree_rep m (plug k t)" "guides cmp (inorder (plug k t))" "place_ok cmp k"
  shows "\<exists>n. rb_find cmp (ptr t) m = Some n
    \<and> (if n = 0 then \<forall>a \<in> set (inorder (plug k t)). cmp a \<noteq> 0 else n \<in> set (inorder t) \<and> cmp n = 0)"
  using assms
proof (induction t arbitrary: k)
  case Leaf
  then show ?case by (subst rb_find.simps) (auto simp: place_ok_def)
next
  case (Node c l n r)
  have n: "rb_left m n = ptr l" "rb_right m n = ptr r" "n \<noteq> 0"
    using tree_rep_cell [OF Node.prems(1)] by simp_all
  note side = guides_side [OF Node.prems(2) [unfolded inorder_plug] Node.prems(3)]
  consider (left) "cmp n < 0" | (right) "cmp n > 0" | (eq) "cmp n = 0" by linarith
  then show ?case
  proof cases
    case left
    have "rb_find cmp (ptr (Node c l n r)) m = rb_find cmp (ptr l) m"
      using n left by (subst rb_find.simps) simp
    then show ?thesis using Node.IH(1) [of "InL c n r k"] Node.prems side(1) [OF left] by (auto split: if_splits)
  next
    case right
    then have "rb_find cmp (ptr (Node c l n r)) m = rb_find cmp (ptr r) m"
      using n by (subst rb_find.simps) simp
    then show ?thesis using Node.IH(2) [of "InR c l n k"] Node.prems side(2) [OF right] by (auto split: if_splits)
  next
    case eq
    then have "rb_find cmp (ptr (Node c l n r)) m = Some n"
      using n by (subst rb_find.simps) simp
    then show ?thesis using n eq by auto
  qed
qed

text \<open>Search for the place and insert, as the users write it; \<open>put\<close> is what they do with the tree.\<close>

lemma rb_lookup_insert:
  assumes t: "tree_rep m t" "rbtree t" "guides cmp (inorder t)" and no: "\<And>a. a \<in> set (inorder t) \<Longrightarrow> cmp a \<noteq> 0"
    and n: "n \<noteq> 0" "aligned n" "n \<notin> set (inorder t)"
  shows "\<exists>m' t' xs ys. Option.bind (rb_lookup cmp Slot_root 0 m) (\<lambda>res. case res of Inl _ \<Rightarrow> None
      | Inr (q, parent) \<Rightarrow> map_option put (rb_insert_color n (rb_link_node n parent q m))) = Some (put m')
    \<and> tree_rep m' t' \<and> rbtree t' \<and> inorder t = xs @ ys \<and> inorder t' = xs @ n # ys
    \<and> (\<forall>a \<in> set xs. cmp a > 0) \<and> (\<forall>a \<in> set ys. cmp a < 0)"
proof -
  obtain k where k: "plug k Leaf = t" "place_ok cmp k" "rb_lookup cmp Slot_root 0 m = Some (Inr (slot k, cptr k))"
    using rb_lookup_ok [of m Top t cmp] t no by (auto simp: place_ok_def)
  have tk: "inorder t = before k @ after k" using k(1) by auto
  then have "n \<notin> cnodes k" using n(3) by simp
  from rb_insert_refines [of m k n, unfolded k(1), OF t(1,2) n(1,2) this] obtain m' where
    "rb_insert_color n (rb_link_node n (cptr k) (slot k) m) = Some m'"
    "tree_rep m' (ins_fix (Node Red Leaf n Leaf) k)" "rbtree (ins_fix (Node Red Leaf n Leaf) k)"
    "inorder (ins_fix (Node Red Leaf n Leaf) k) = before k @ n # after k" by blast
  then show ?thesis
    using k(2,3) tk unfolding place_ok_def by (intro exI [of _ m'] exI [of _ "ins_fix (Node Red Leaf n Leaf) k"]
      exI [of _ "before k"] exI [of _ "after k"]) simp
qed

text \<open>\<open>rb_erase\<close> by the sort order.\<close>

lemma rb_erase_inorder:
  assumes t: "tree_rep m t" "rbtree t" "inorder t = xs @ a # ys"
  shows "\<exists>m' t'. rb_erase a m = Some m' \<and> tree_rep m' t' \<and> rbtree t' \<and> inorder t' = xs @ ys"
proof -
  have "distinct (inorder t)" using t(1) by (simp add: tree_rep_def nodes_ok_def)
  then obtain k c l r where f: "t = plug k (Node c l a r)" "xs = before k @ inorder l" "ys = inorder r @ after k"
    using focus_exists [OF t(3)] by blast
  then obtain m' where "rb_erase a m = Some m'" "tree_rep m' (erase_at (Node c l a r) k)"
    using rb_erase_refines [of m k c l a r] t by auto
  moreover have "rbtree (erase_at (Node c l a r) k)" "inorder (erase_at (Node c l a r) k) = xs @ ys"
    using rbtree_erase_at [of k c l a r] inorder_erase_at [of c l a r k] f t by simp_all
  ultimately show ?thesis by blast
qed

section \<open>Trees sorted by a key\<close>

text \<open>A tree in memory, balanced, whose nodes are strictly sorted by \<open>key\<close>.\<close>

definition key_tree :: "(u32 \<Rightarrow> 'k::linorder) \<Rightarrow> rb_mem \<Rightarrow> u32 list \<Rightarrow> bool" where
  "key_tree key m xs \<longleftrightarrow> (\<exists>t. tree_rep m t \<and> rbtree t \<and> inorder t = xs) \<and> sorted_wrt (\<lambda>a b. key a < key b) xs"

lemma key_tree_unique:
  assumes "key_tree key m xs" "a \<in> set xs" "b \<in> set xs" "key a = key b"
  shows "a = b"
  using assms by (auto simp: key_tree_def sorted_wrt_iff_nth_less in_set_conv_nth) (metis linorder_neqE_nat order_less_irrefl)

lemma key_tree_nonzero: "key_tree key m xs \<Longrightarrow> a \<in> set xs \<Longrightarrow> a \<noteq> 0 \<and> aligned a"
  by (auto simp: key_tree_def tree_rep_def nodes_ok_def)

lemma key_tree_erase:
  assumes "key_tree key m (xs @ a # ys)"
  shows "\<exists>m'. rb_erase a m = Some m' \<and> key_tree key m' (xs @ ys)"
proof -
  obtain t where "tree_rep m t" "rbtree t" "inorder t = xs @ a # ys" using assms by (auto simp: key_tree_def)
  then obtain m' t' where "rb_erase a m = Some m'" "tree_rep m' t'" "rbtree t'" "inorder t' = xs @ ys"
    using rb_erase_inorder by blast
  then show ?thesis using assms by (auto simp: key_tree_def sorted_wrt_append)
qed

lemma key_tree_first: "key_tree key m xs \<Longrightarrow> rb_first m = Some (hd0 xs)"
  using rb_first_ok by (auto simp: key_tree_def)

lemma key_tree_next:
  assumes "key_tree key m (xs @ a # ys)"
  shows "rb_next m a = Some (hd0 ys)"
proof -
  obtain t where t: "tree_rep m t" "inorder t = xs @ a # ys" using assms by (auto simp: key_tree_def)
  then have "distinct (inorder t)" by (simp add: tree_rep_def nodes_ok_def)
  then obtain k c l r where f: "t = plug k (Node c l a r)" "ys = inorder r @ after k"
    using focus_exists [OF t(2)] by blast
  then show ?thesis using rb_neighbours(1) [of m k c l a r] t(1) by simp
qed

text \<open>The interface between a user and the trees: how a sought key compares with the key of a
  node.\<close>

locale rb_index =
  fixes cmp :: "'k::linorder \<Rightarrow> 'k \<Rightarrow> int"
  assumes cmp_less: "cmp k x < 0 \<longleftrightarrow> k < x" and cmp_greater: "cmp k x > 0 \<longleftrightarrow> x < k"
begin

lemma cmp_eq: "cmp k x = 0 \<longleftrightarrow> k = x"
  using cmp_less [of k x] cmp_greater [of k x] by (metis less_irrefl linorder_neqE)

lemma key_guides: "key_tree key m xs \<Longrightarrow> guides (\<lambda>a. cmp k (key a)) xs"
  unfolding key_tree_def guides_def cmp_less cmp_greater by (auto elim!: sorted_wrt_mono_rel [rotated])

lemma lookup:
  assumes "key_tree key m xs"
  shows "(\<exists>n \<in> set xs. key n = k \<and> rb_lookup (\<lambda>a. cmp k (key a)) Slot_root 0 m = Some (Inl n))
    \<or> (k \<notin> key ` set xs \<and> (\<exists>c t. plug c Leaf = t \<and> tree_rep m t \<and> rbtree t \<and> inorder t = xs
         \<and> place_ok (\<lambda>a. cmp k (key a)) c
         \<and> rb_lookup (\<lambda>a. cmp k (key a)) Slot_root 0 m = Some (Inr (slot c, cptr c))))"
proof -
  obtain t where t: "tree_rep m t" "rbtree t" "inorder t = xs" using assms by (auto simp: key_tree_def)
  have "k \<notin> key ` set xs" if "place_ok (\<lambda>a. cmp k (key a)) c" "plug c Leaf = t" for c
  proof -
    have "xs = before c @ after c" using that t(3) by auto
    then show ?thesis using that(1) by (auto simp: place_ok_def cmp_less cmp_greater)
  qed
  then show ?thesis
    using rb_lookup_ok [of m Top t "\<lambda>a. cmp k (key a)"] t key_guides [OF assms, of k]
    by (auto simp: place_ok_def cmp_eq)
qed

lemma find:
  assumes "key_tree key m xs"
  shows "\<exists>n. rb_find (\<lambda>a. cmp k (key a)) (rb_root m) m = Some n
    \<and> (if n = 0 then k \<notin> key ` set xs else n \<in> set xs \<and> key n = k)"
proof -
  obtain t where t: "tree_rep m t" "inorder t = xs" using assms by (auto simp: key_tree_def)
  have "rb_root m = ptr t" using t(1) by (simp add: tree_rep_def)
  then show ?thesis
    using rb_find_ok [of m Top t "\<lambda>a. cmp k (key a)"] t key_guides [OF assms, of k]
    by (auto simp: place_ok_def cmp_eq split: if_splits)
qed

lemma insert:
  assumes "tree_rep m (plug c Leaf)" "rbtree (plug c Leaf)" "inorder (plug c Leaf) = xs"
    "sorted_wrt (\<lambda>a b. key a < key b) xs" "place_ok (\<lambda>a. cmp k (key a)) c" "key n = k"
    and n: "n \<noteq> 0" "aligned n" "n \<notin> set xs"
  shows "\<exists>m'. rb_insert_color n (rb_link_node n (cptr c) (slot c) m) = Some m'
    \<and> key_tree key m' (before c @ n # after c)"
proof -
  have xs: "xs = before c @ after c" using assms(3) by simp
  then have "n \<notin> cnodes c" using n(3) by simp
  from rb_insert_refines [OF assms(1,2) n(1,2) this] obtain m' where
    "rb_insert_color n (rb_link_node n (cptr c) (slot c) m) = Some m'"
    "tree_rep m' (ins_fix (Node Red Leaf n Leaf) c)" "rbtree (ins_fix (Node Red Leaf n Leaf) c)"
    "inorder (ins_fix (Node Red Leaf n Leaf) c) = before c @ n # after c" by blast
  moreover have "sorted_wrt (\<lambda>a b. key a < key b) (before c @ n # after c)"
    using assms(4-6) xs by (auto simp: sorted_wrt_append place_ok_def cmp_less cmp_greater)
  ultimately show ?thesis by (auto simp: key_tree_def)
qed

end

end
