(* ===== verification/Userwakelock.thy ===== *)
theory Userwakelock
  imports Wakelock_Props Rbtree_Search "HOL-Library.Char_ord" "HOL-Library.List_Lexorder"
begin

text \<open>
  Wake locks of user space, \<open>kernel/power/userwakelock.c\<close>: the files \<open>/sys/power/wake_lock\<close> and
  \<open>wake_unlock\<close>, on top of the wake locks and the red-black trees. A C string is a HOL string
  without the terminating NUL. A \<open>user_wake_lock\<close> lives at an address; the address names its tree
  node, its name and its wake lock. The result of \<open>kzalloc\<close> is a parameter, 0 for failure.
\<close>

section \<open>Strings\<close>

abbreviation code :: "char \<Rightarrow> nat" where
  "code c \<equiv> of_char c"










text \<open>\<open>s += scnprintf (s, end - s, \<dots>)\<close> on the text between \<open>buf\<close> and \<open>s\<close>: one byte is kept for
  the terminating NUL.\<close>

definition scnprintf_app :: "string \<Rightarrow> string \<Rightarrow> string" where
  "scnprintf_app b x = b @ take (unat PAGE_SIZE - length b - 1) x"

section \<open>State\<close>

record uwl =
  uwl_tree :: rb_mem
  uwl_name :: "u32 \<Rightarrow> string"
  uwl_wl :: wl_state


section \<open>Looking up a name\<close>





section \<open>The files\<close>



text \<open>The loop of the two \<open>show\<close> functions over \<open>rb_first\<close> and \<open>rb_next\<close>.\<close>

partial_function (option) show_loop :: "bool \<Rightarrow> uwl \<Rightarrow> u32 \<Rightarrow> string \<Rightarrow> string option" where
  "show_loop active st n s =
     (if n \<noteq> 0 then
        (let s1 = (if wake_lock_active (locks (uwl_wl st) (unat n)) = active
                   then scnprintf_app s (uwl_name st n @ '' '') else s)
         in Option.bind (rb_next (uwl_tree st) n) (\<lambda>n1. show_loop active st n1 s1))
      else Some s)"

declare show_loop.simps [code]

definition wake_lock_show :: "uwl \<Rightarrow> string option" where
  "wake_lock_show st =
     Option.bind (rb_first (uwl_tree st)) (\<lambda>n.
       map_option (\<lambda>s. scnprintf_app s [CHR 0x0A]) (show_loop True st n []))"

definition wake_unlock_show :: "uwl \<Rightarrow> string option" where
  "wake_unlock_show st =
     Option.bind (rb_first (uwl_tree st)) (\<lambda>n.
       map_option (\<lambda>s. scnprintf_app s [CHR 0x0A]) (show_loop False st n []))"

section \<open>Names are compared in lexicographic order\<close>








section \<open>The invariant\<close>

text \<open>The nodes \<open>xs\<close> in the order of their names, each with an initialised wake lock of type suspend.\<close>

definition uwl_locks :: "uwl \<Rightarrow> u32 list \<Rightarrow> bool" where
  "uwl_locks st xs \<longleftrightarrow> wl_inv (uwl_wl st) \<and> key_tree (uwl_name st) (uwl_tree st) xs
     \<and> (\<forall>a \<in> set xs. c_init (cores (uwl_wl st) (unat a)) \<and> c_type (cores (uwl_wl st) (unat a)) = 0)"







section \<open>Holding and releasing by name\<close>


lemma expires_only_static: "expires_only clk c c' \<Longrightarrow> static c' = static c"
  by (auto simp: expires_only_def)




section \<open>A state for the examples\<close>






section \<open>Properties\<close>





section \<open>Listing the names\<close>

lemma show_loop_ok:
  "key_tree (uwl_name st) (uwl_tree st) (xs @ ys) \<Longrightarrow> show_loop b st (hd0 ys) s
     = Some (fold (\<lambda>a s. scnprintf_app s (uwl_name st a @ '' ''))
         (filter (\<lambda>a. wake_lock_active (locks (uwl_wl st) (unat a)) = b) ys) s)"
proof (induction ys arbitrary: xs s)
  case Nil
  then show ?case by (subst show_loop.simps) (simp add: hd0_def)
next
  case (Cons a ys)
  have a: "a \<noteq> 0" using key_tree_nonzero [OF Cons.prems] by simp
  have "key_tree (uwl_name st) (uwl_tree st) ((xs @ [a]) @ ys)" using Cons.prems by simp
  note IH = Cons.IH [OF this]
  show ?case
    using a key_tree_next [OF Cons.prems] IH by (subst show_loop.simps) (simp add: hd0_def [of "a # ys"] Let_def)
qed

text \<open>Reading \<open>wake_lock\<close> gives the names of the held locks in sorted order, \<open>wake_unlock\<close> those of the
  others, each followed by a space and cut off at the end of the page.\<close>

lemma wake_lock_show_ok:
  assumes "uwl_locks st xs"
  shows "wake_lock_show st = Some (scnprintf_app (fold (\<lambda>a s. scnprintf_app s (uwl_name st a @ '' ''))
      (filter (\<lambda>a. wake_lock_active (locks (uwl_wl st) (unat a))) xs) []) [CHR 0x0A])"
    and "wake_unlock_show st = Some (scnprintf_app (fold (\<lambda>a s. scnprintf_app s (uwl_name st a @ '' ''))
      (filter (\<lambda>a. \<not> wake_lock_active (locks (uwl_wl st) (unat a))) xs) []) [CHR 0x0A])"
proof -
  have k: "key_tree (uwl_name st) (uwl_tree st) ([] @ xs)" using assms by (simp add: uwl_locks_def)
  note k' = key_tree_first [OF k]
  show "wake_lock_show st = Some (scnprintf_app (fold (\<lambda>a s. scnprintf_app s (uwl_name st a @ '' ''))
      (filter (\<lambda>a. wake_lock_active (locks (uwl_wl st) (unat a))) xs) []) [CHR 0x0A])"
    "wake_unlock_show st = Some (scnprintf_app (fold (\<lambda>a s. scnprintf_app s (uwl_name st a @ '' ''))
      (filter (\<lambda>a. \<not> wake_lock_active (locks (uwl_wl st) (unat a))) xs) []) [CHR 0x0A])"
    using k' show_loop_ok [OF k] by (simp_all add: wake_lock_show_def wake_unlock_show_def)
qed

lemma scnprintf_app_fits: "length b < unat PAGE_SIZE \<Longrightarrow> length (scnprintf_app b x) < unat PAGE_SIZE"
  by (simp add: scnprintf_app_def)

end
