(* ===== verification/Binder_Alloc.thy ===== *)
theory Binder_Alloc
  imports Rbtree_Search
begin

text \<open>
  The transaction buffers of the binder driver (\<open>drivers/staging/android/binder.c\<close>): every process
  that opened the driver has an area of kernel address space, cut into buffers that follow each
  other without gaps. A buffer starts with its header \<open>struct binder_buffer\<close> (40 bytes on this
  machine) and is named by its address. The list \<open>buffers\<close> holds all buffers by address; free
  buffers are in a red-black tree by size, allocated ones in a tree by address. Pages are backed by
  memory only where a header or an allocated buffer needs them. \<open>BUG_ON\<close> is the result \<^term>\<open>None\<close>.

  A buffer is in one of the two trees at a time, so the model keeps a memory of nodes per tree.
\<close>

section \<open>State\<close>

record binder_buffer =
  b_free :: bool
  b_allow_user_free :: bool
  b_async_transaction :: bool
  b_transaction :: u32
  b_target_node :: u32
  b_data_size :: u32
  b_offsets_size :: u32

text \<open>What is known of a page of the area: \<open>proc->pages[i]\<close>, and whether the page is mapped in the
  kernel and in the user process.\<close>

record page_state =
  pg_page :: bool
  pg_kernel :: bool
  pg_user :: bool

record bproc =
  bp_vma :: bool
  bp_buffer :: u32
  bp_buffer_size :: u32
  user_buffer_offset :: u32
  buffers :: "u32 list"
  bufs :: "u32 \<Rightarrow> binder_buffer"
  free_buffers :: rb_mem
  allocated_buffers :: rb_mem
  free_async_space :: u32
  pages :: "nat \<Rightarrow> page_state"

text \<open>\<open>sizeof (struct binder_buffer)\<close>, which is also the offset of \<open>data\<close>.\<close>

definition SIZEOF_BUFFER :: u32 where
  "SIZEOF_BUFFER = 40"

definition buf_data :: "u32 \<Rightarrow> u32" where
  "buf_data b = b + SIZEOF_BUFFER"

definition upd_buf :: "u32 \<Rightarrow> (binder_buffer \<Rightarrow> binder_buffer) \<Rightarrow> bproc \<Rightarrow> bproc" where
  "upd_buf b f p = p\<lparr>bufs := (bufs p)(b := f (bufs p b))\<rparr>"

text \<open>\<open>entry.next\<close> and \<open>entry.prev\<close> of a buffer, \<^term>\<open>None\<close> at the head of the list.\<close>

fun list_next :: "u32 list \<Rightarrow> u32 \<Rightarrow> u32 option" where
  "list_next [] b = None"
| "list_next [x] b = None"
| "list_next (x # y # xs) b = (if x = b then Some y else list_next (y # xs) b)"

definition list_prev :: "u32 list \<Rightarrow> u32 \<Rightarrow> u32 option" where
  "list_prev xs b = list_next (rev xs) b"

text \<open>\<open>list_add (new, entry)\<close>: after an entry.\<close>

fun list_add_after :: "u32 \<Rightarrow> u32 \<Rightarrow> u32 list \<Rightarrow> u32 list" where
  "list_add_after new b [] = []"
| "list_add_after new b (x # xs) = (if x = b then x # new # xs else x # list_add_after new b xs)"

section \<open>The two trees\<close>

definition binder_buffer_size :: "bproc \<Rightarrow> u32 \<Rightarrow> u32" where
  "binder_buffer_size p b =
     (case list_next (buffers p) b of
        None \<Rightarrow> bp_buffer p + bp_buffer_size p - buf_data b
      | Some n \<Rightarrow> n - buf_data b)"

text \<open>The comparisons of the loops; 0 where the code has \<open>BUG\<close>.\<close>

definition free_cmp :: "bproc \<Rightarrow> u32 \<Rightarrow> u32 \<Rightarrow> int" where
  "free_cmp p new_size n =
     (if \<not> b_free (bufs p n) then 0
      else if new_size < binder_buffer_size p n then - 1 else 1)"

definition binder_insert_free_buffer :: "u32 \<Rightarrow> bproc \<Rightarrow> bproc option" where
  "binder_insert_free_buffer new p =
     (if \<not> b_free (bufs p new) then None
      else Option.bind (rb_lookup (free_cmp p (binder_buffer_size p new)) Slot_root 0 (free_buffers p)) (\<lambda>res.
        case res of
          Inl _ \<Rightarrow> None
        | Inr (q, parent) \<Rightarrow> map_option (\<lambda>m. p\<lparr>free_buffers := m\<rparr>)
            (rb_insert_color new (rb_link_node new parent q (free_buffers p)))))"

definition word_cmp :: "u32 \<Rightarrow> u32 \<Rightarrow> int" where
  "word_cmp a b = (if a < b then - 1 else if a > b then 1 else 0)"

definition alloc_cmp :: "bproc \<Rightarrow> u32 \<Rightarrow> u32 \<Rightarrow> int" where
  "alloc_cmp p new n = (if b_free (bufs p n) then 0 else word_cmp new n)"

definition binder_insert_allocated_buffer :: "u32 \<Rightarrow> bproc \<Rightarrow> bproc option" where
  "binder_insert_allocated_buffer new p =
     (if b_free (bufs p new) then None
      else Option.bind (rb_lookup (alloc_cmp p new) Slot_root 0 (allocated_buffers p)) (\<lambda>res.
        case res of
          Inl _ \<Rightarrow> None
        | Inr (q, parent) \<Rightarrow> map_option (\<lambda>m. p\<lparr>allocated_buffers := m\<rparr>)
            (rb_insert_color new (rb_link_node new parent q (allocated_buffers p)))))"

text \<open>0 (\<open>NULL\<close>) if no allocated buffer has its data at this user address.\<close>

definition binder_buffer_lookup :: "u32 \<Rightarrow> bproc \<Rightarrow> u32 option" where
  "binder_buffer_lookup user_ptr p =
     (let kern_ptr = user_ptr - user_buffer_offset p - SIZEOF_BUFFER
      in Option.bind (rb_find (alloc_cmp p kern_ptr) (rb_root (allocated_buffers p)) (allocated_buffers p))
           (\<lambda>n. if n \<noteq> 0 \<and> b_free (bufs p n) then None else Some n))"

section \<open>Pages\<close>

text \<open>The outcomes of \<open>get_task_mm\<close>, \<open>alloc_page\<close>, \<open>map_vm_area\<close> and \<open>vm_insert_page\<close>, the last three per
  page address.\<close>

record page_env =
  env_mm :: bool
  env_alloc :: "u32 \<Rightarrow> bool"
  env_map :: "u32 \<Rightarrow> bool"
  env_insert :: "u32 \<Rightarrow> bool"

definition page_index :: "bproc \<Rightarrow> u32 \<Rightarrow> nat" where
  "page_index p a = unat ((a - bp_buffer p) div PAGE_SIZE)"

definition upd_page :: "u32 \<Rightarrow> (page_state \<Rightarrow> page_state) \<Rightarrow> bproc \<Rightarrow> bproc" where
  "upd_page a f p = p\<lparr>pages := (pages p)(page_index p a := f (pages p (page_index p a)))\<rparr>"

text \<open>The loop at \<open>free_range\<close>, from \<open>page_addr\<close> down to \<open>start\<close>.\<close>

partial_function (option) free_range :: "bool \<Rightarrow> u32 \<Rightarrow> u32 \<Rightarrow> bproc \<Rightarrow> bproc option" where
  "free_range vma start page_addr p =
     (if page_addr \<ge> start then
        free_range vma start (page_addr - PAGE_SIZE)
          (upd_page page_addr (\<lambda>g. g\<lparr>pg_page := False, pg_kernel := False,
             pg_user := (if vma then False else pg_user g)\<rparr>) p)
      else Some p)"

declare free_range.simps [code]

text \<open>The loop that adds pages. On a failure at \<open>page_addr\<close> the work done for this page is undone and
  the pages below it are freed, which is the rest of the loop at \<open>free_range\<close>.\<close>

partial_function (option) alloc_range ::
  "page_env \<Rightarrow> u32 \<Rightarrow> u32 \<Rightarrow> u32 \<Rightarrow> bproc \<Rightarrow> (bproc \<times> bool) option" where
  "alloc_range env start fin page_addr p =
     (if page_addr < fin then
        (if pg_page (pages p (page_index p page_addr)) then None
         else if \<not> env_alloc env page_addr then
           map_option (\<lambda>p'. (p', False)) (free_range True start (page_addr - PAGE_SIZE) p)
         else if \<not> env_map env page_addr then
           map_option (\<lambda>p'. (p', False)) (free_range True start (page_addr - PAGE_SIZE)
             (upd_page page_addr (\<lambda>g. g\<lparr>pg_page := False\<rparr>) p))
         else if \<not> env_insert env page_addr then
           map_option (\<lambda>p'. (p', False)) (free_range True start (page_addr - PAGE_SIZE)
             (upd_page page_addr (\<lambda>g. g\<lparr>pg_page := False, pg_kernel := False\<rparr>) p))
         else alloc_range env start fin (page_addr + PAGE_SIZE)
           (upd_page page_addr (\<lambda>g. g\<lparr>pg_page := True, pg_kernel := True, pg_user := True\<rparr>) p))
      else Some (p, True))"

declare alloc_range.simps [code]

text \<open>True for the result 0, False for \<open>-ENOMEM\<close>; freeing a range always ends with \<open>-ENOMEM\<close>.\<close>

definition binder_update_page_range ::
  "page_env \<Rightarrow> bool \<Rightarrow> u32 \<Rightarrow> u32 \<Rightarrow> bool \<Rightarrow> bproc \<Rightarrow> (bproc \<times> bool) option" where
  "binder_update_page_range env allocate start fin vma0 p =
     (if fin \<le> start then Some (p, True)
      else
       (let vma = (if vma0 then True else if env_mm env then bp_vma p else False)
        in if \<not> allocate
           then map_option (\<lambda>p'. (p', False)) (free_range vma start (fin - PAGE_SIZE) p)
           else if \<not> vma then Some (p, False)
           else alloc_range env start fin start p))"

section \<open>Allocating\<close>

text \<open>The search for the best fit: the last node visited and \<open>best_fit\<close>.\<close>

partial_function (option) best_fit_loop :: "bproc \<Rightarrow> u32 \<Rightarrow> u32 \<Rightarrow> u32 \<Rightarrow> (u32 \<times> u32) option" where
  "best_fit_loop p sz n best_fit =
     (if n \<noteq> 0 then
        (if \<not> b_free (bufs p n) then None
         else if sz < binder_buffer_size p n then best_fit_loop p sz (rb_left (free_buffers p) n) n
         else if sz > binder_buffer_size p n then best_fit_loop p sz (rb_right (free_buffers p) n) best_fit
         else Some (n, n))
      else Some (0, best_fit))"

declare best_fit_loop.simps [code]

definition request_size :: "u32 \<Rightarrow> u32 \<Rightarrow> u32" where
  "request_size data_size offsets_size = ALIGN data_size 4 + ALIGN offsets_size 4"

text \<open>The part of \<open>binder_alloc_buf\<close> after the pages are there.\<close>

definition take_buffer :: "u32 \<Rightarrow> u32 \<Rightarrow> u32 \<Rightarrow> u32 \<Rightarrow> u32 \<Rightarrow> bool \<Rightarrow> bproc \<Rightarrow> bproc option" where
  "take_buffer buffer sz buffer_size data_size offsets_size is_async p =
     Option.bind (rb_erase buffer (free_buffers p)) (\<lambda>m.
     Option.bind (binder_insert_allocated_buffer buffer
       (upd_buf buffer (\<lambda>b. b\<lparr>b_free := False\<rparr>) (p\<lparr>free_buffers := m\<rparr>))) (\<lambda>p1.
     Option.bind (if buffer_size \<noteq> sz then
         (let new = buf_data buffer + sz
          in binder_insert_free_buffer new (upd_buf new (\<lambda>b. b\<lparr>b_free := True\<rparr>)
               (p1\<lparr>buffers := list_add_after new buffer (buffers p1)\<rparr>)))
       else Some p1) (\<lambda>p2.
     (let p3 = upd_buf buffer (\<lambda>b. b\<lparr>b_data_size := data_size, b_offsets_size := offsets_size,
                 b_async_transaction := is_async\<rparr>) p2
      in Some (if is_async then p3\<lparr>free_async_space := free_async_space p3 - (sz + SIZEOF_BUFFER)\<rparr> else p3)))))"

definition binder_alloc_buf ::
  "page_env \<Rightarrow> u32 \<Rightarrow> u32 \<Rightarrow> bool \<Rightarrow> bproc \<Rightarrow> (bproc \<times> u32) option" where
  "binder_alloc_buf env data_size offsets_size is_async p =
     (if \<not> bp_vma p then Some (p, 0)
      else
       (let sz = request_size data_size offsets_size
        in if sz < data_size \<or> sz < offsets_size then Some (p, 0)
           else if is_async \<and> free_async_space p < sz + SIZEOF_BUFFER then Some (p, 0)
           else Option.bind (best_fit_loop p sz (rb_root (free_buffers p)) 0) (\<lambda>(n, buffer).
             if buffer = 0 then Some (p, 0)
             else
              (let buffer_size0 = binder_buffer_size p buffer;
                   has_page_addr = (buf_data buffer + buffer_size0) AND PAGE_MASK;
                   buffer_size =
                     (if n = 0 then
                        (if sz + SIZEOF_BUFFER + 4 \<ge> buffer_size0 then sz else sz + SIZEOF_BUFFER)
                      else buffer_size0);
                   end_page_addr0 = PAGE_ALIGN (buf_data buffer + buffer_size);
                   end_page_addr = (if end_page_addr0 > has_page_addr then has_page_addr else end_page_addr0)
               in Option.bind (binder_update_page_range env True (PAGE_ALIGN (buf_data buffer)) end_page_addr False p)
                    (\<lambda>(p1, ok). if \<not> ok then Some (p1, 0)
                       else map_option (\<lambda>p2. (p2, buffer))
                              (take_buffer buffer sz buffer_size data_size offsets_size is_async p1))))))"

section \<open>Freeing\<close>

definition buffer_start_page :: "u32 \<Rightarrow> u32" where
  "buffer_start_page b = b AND PAGE_MASK"

definition buffer_end_page :: "u32 \<Rightarrow> u32" where
  "buffer_end_page b = (b + SIZEOF_BUFFER - 1) AND PAGE_MASK"

definition binder_delete_free_buffer :: "page_env \<Rightarrow> u32 \<Rightarrow> bproc \<Rightarrow> bproc option" where
  "binder_delete_free_buffer env b p =
     (case list_prev (buffers p) b of
        None \<Rightarrow> None
      | Some prev \<Rightarrow>
          (if \<not> b_free (bufs p prev) then None
           else
            (let same = (buffer_end_page prev = buffer_start_page b);
                 free_page_start = \<not> same;
                 free_page_end = \<not> (same \<and> buffer_end_page prev = buffer_end_page b);
                 (free_page_start, free_page_end) =
                   (case list_next (buffers p) b of
                      None \<Rightarrow> (free_page_start, free_page_end)
                    | Some nxt \<Rightarrow>
                        (if buffer_start_page nxt = buffer_end_page b
                         then (free_page_start \<and> buffer_start_page nxt \<noteq> buffer_start_page b, False)
                         else (free_page_start, free_page_end)));
                 p1 = p\<lparr>buffers := remove1 b (buffers p)\<rparr>
             in if free_page_start \<or> free_page_end then
                  map_option fst (binder_update_page_range env False
                    (if free_page_start then buffer_start_page b else buffer_end_page b)
                    ((if free_page_end then buffer_end_page b else buffer_start_page b) + PAGE_SIZE) False p1)
                else Some p1)))"

text \<open>\<open>binder_free_buf\<close> after the checks: give back the pages, leave the tree of allocated buffers,
  merge with the free neighbours.\<close>

definition merge_next :: "page_env \<Rightarrow> u32 \<Rightarrow> bproc \<Rightarrow> bproc option" where
  "merge_next env b p =
     (case list_next (buffers p) b of
        None \<Rightarrow> Some p
      | Some nxt \<Rightarrow>
          (if b_free (bufs p nxt)
           then Option.bind (rb_erase nxt (free_buffers p)) (\<lambda>m.
                  binder_delete_free_buffer env nxt (p\<lparr>free_buffers := m\<rparr>))
           else Some p))"

definition merge_prev :: "page_env \<Rightarrow> u32 \<Rightarrow> bproc \<Rightarrow> (bproc \<times> u32) option" where
  "merge_prev env b p =
     (case list_prev (buffers p) b of
        None \<Rightarrow> Some (p, b)
      | Some prev \<Rightarrow>
          (if b_free (bufs p prev)
           then Option.bind (binder_delete_free_buffer env b p) (\<lambda>p1.
                  map_option (\<lambda>m. (p1\<lparr>free_buffers := m\<rparr>, prev)) (rb_erase prev (free_buffers p1)))
           else Some (p, b)))"

definition binder_free_buf :: "page_env \<Rightarrow> u32 \<Rightarrow> bproc \<Rightarrow> bproc option" where
  "binder_free_buf env b p =
     (let buffer_size = binder_buffer_size p b;
          sz = request_size (b_data_size (bufs p b)) (b_offsets_size (bufs p b))
      in if b_free (bufs p b) \<or> sz > buffer_size \<or> b_transaction (bufs p b) \<noteq> 0
            \<or> b < bp_buffer p \<or> b > bp_buffer p + bp_buffer_size p then None
         else
          (let p1 = (if b_async_transaction (bufs p b)
                     then p\<lparr>free_async_space := free_async_space p + (sz + SIZEOF_BUFFER)\<rparr> else p)
           in Option.bind (binder_update_page_range env False (PAGE_ALIGN (buf_data b))
                  ((buf_data b + buffer_size) AND PAGE_MASK) False p1) (\<lambda>(p2, _).
              Option.bind (rb_erase b (allocated_buffers p2)) (\<lambda>m.
              Option.bind (merge_next env b (upd_buf b (\<lambda>x. x\<lparr>b_free := True\<rparr>) (p2\<lparr>allocated_buffers := m\<rparr>))) (\<lambda>p3.
              Option.bind (merge_prev env b p3) (\<lambda>(p4, b').
              binder_insert_free_buffer b' p4))))))"

section \<open>Mapping the area\<close>

text \<open>The user's mapping. \<open>vm_ops\<close> and \<open>vm_private_data\<close>, which the driver sets to its own, are not kept.\<close>

record binder_vma =
  vma_start :: u32
  vma_end :: u32
  vma_flags :: u32

definition SZ_4M :: u32 where
  "SZ_4M = 0x400000"

definition FORBIDDEN_MMAP_FLAGS :: u32 where
  "FORBIDDEN_MMAP_FLAGS = VM_WRITE"

definition SHMLBA :: u32 where
  "SHMLBA = 4 * PAGE_SIZE"

definition CACHE_COLOUR :: "u32 \<Rightarrow> u32" where
  "CACHE_COLOUR vaddr = drop_bit 12 (vaddr AND (SHMLBA - 1))"

text \<open>The loop for aliasing caches: the mapping is moved until its colour is that of the area.\<close>

partial_function (option) colour_loop :: "u32 \<Rightarrow> u32 \<Rightarrow> u32 option" where
  "colour_loop buffer vm_start =
     (if CACHE_COLOUR (vm_start XOR buffer) \<noteq> 0 then colour_loop buffer (vm_start + PAGE_SIZE)
      else Some vm_start)"

declare colour_loop.simps [code]

text \<open>\<open>addr\<close> is the kernel address from \<open>get_vm_area\<close> (0 for failure), \<open>pages_ok\<close> the outcome of the
  allocation of the page array, \<open>aliasing\<close> the value of \<open>cache_is_vipt_aliasing\<close>.\<close>

definition binder_mmap ::
  "page_env \<Rightarrow> u32 \<Rightarrow> bool \<Rightarrow> bool \<Rightarrow> binder_vma \<Rightarrow> bproc \<Rightarrow> (bproc \<times> binder_vma \<times> (errno + unit)) option" where
  "binder_mmap env addr pages_ok aliasing vma0 p =
     (let vma1 = (if vma_end vma0 - vma_start vma0 > SZ_4M then vma0\<lparr>vma_end := vma_start vma0 + SZ_4M\<rparr> else vma0)
      in if vma_flags vma1 AND FORBIDDEN_MMAP_FLAGS \<noteq> 0 then Some (p, vma1, Inl EPERM)
         else
          (let vma2 = vma1\<lparr>vma_flags := (vma_flags vma1 OR VM_DONTCOPY) AND NOT VM_MAYWRITE\<rparr>
           in if bp_buffer p \<noteq> 0 then Some (p, vma2, Inl EBUSY)
              else if addr = 0 then Some (p, vma2, Inl ENOMEM)
              else
               (let p1 = p\<lparr>bp_buffer := addr, user_buffer_offset := vma_start vma2 - addr\<rparr>
                in Option.bind (if aliasing then colour_loop addr (vma_start vma2) else Some (vma_start vma2)) (\<lambda>vm_start.
                   let vma3 = vma2\<lparr>vma_start := vm_start\<rparr>
                   in if \<not> pages_ok then Some (p1\<lparr>bp_buffer := 0\<rparr>, vma3, Inl ENOMEM)
                      else
                       (let p2 = p1\<lparr>bp_buffer_size := vma_end vma3 - vma_start vma3,
                                    pages := (\<lambda>_. \<lparr>pg_page = False, pg_kernel = False, pg_user = False\<rparr>)\<rparr>
                        in Option.bind (binder_update_page_range env True addr (addr + PAGE_SIZE) True p2) (\<lambda>(p3, ok).
                           if \<not> ok then Some (p3\<lparr>bp_buffer := 0\<rparr>, vma3, Inl ENOMEM)
                           else map_option (\<lambda>p4. (p4\<lparr>free_async_space := bp_buffer_size p4 div 2, bp_vma := True\<rparr>, vma3, Inr ()))
                             (binder_insert_free_buffer addr
                               (upd_buf addr (\<lambda>b. b\<lparr>b_free := True\<rparr>) (p3\<lparr>buffers := [addr]\<rparr>)))))))))"

end
