(* ===== verification/Binder_Layout.thy ===== *)
theory Binder_Layout
  imports Binder_Alloc
begin

text \<open>
  The layout of a buffer area: a list of buffers that fill the area, and the pages that have to be
  there for it. Everything here is about natural numbers; theory Binder\_Buffers connects it with
  the code.
\<close>

section \<open>Neighbours in the list\<close>

lemma list_next_split:
  "b \<notin> set xs \<Longrightarrow> list_next (xs @ b # ys) b = (case ys of [] \<Rightarrow> None | n # _ \<Rightarrow> Some n)"
proof (induction xs)
  case Nil
  then show ?case by (cases ys) auto
next
  case (Cons x xs)
  then show ?case by (cases xs) auto
qed

lemma list_prev_split:
  "b \<notin> set ys \<Longrightarrow> list_prev (xs @ b # ys) b = (if xs = [] then None else Some (last xs))"
  using list_next_split [of b "rev ys" "rev xs"]
  by (cases xs rule: rev_cases) (auto simp: list_prev_def)

lemma list_add_after_split: "b \<notin> set xs \<Longrightarrow> list_add_after new b (xs @ b # ys) = xs @ b # new # ys"
  by (induction xs) auto

section \<open>Buffers one after the other\<close>

definition head_or :: "nat \<Rightarrow> u32 list \<Rightarrow> nat" where
  "head_or e bs = (case bs of [] \<Rightarrow> e | b # _ \<Rightarrow> unat b)"

lemma head_or_simps [simp]: "head_or e [] = e" "head_or e (b # bs) = unat b"
  by (simp_all add: head_or_def)

text \<open>Each buffer has room for its header before the next one starts; the last ends at \<open>e\<close>.\<close>

fun chain :: "nat \<Rightarrow> u32 list \<Rightarrow> bool" where
  "chain e [] = True"
| "chain e (b # bs) = (unat b + 40 \<le> head_or e bs \<and> chain e bs)"

lemma head_or_append: "head_or e (xs @ b # ys) = head_or (unat b) xs"
  by (cases xs) auto

lemma chain_append: "chain e (xs @ b # ys) \<longleftrightarrow> chain (unat b) xs \<and> chain e (b # ys)"
  by (induction xs) (auto simp: head_or_append)

lemma chain_head: "chain e bs \<Longrightarrow> head_or e bs \<le> e"
  by (induction bs) auto

lemma chain_end: "chain e bs \<Longrightarrow> b \<in> set bs \<Longrightarrow> unat b + 40 \<le> e"
  by (induction bs) (auto dest: chain_head)

lemma chain_sorted: "chain e bs \<Longrightarrow> sorted_wrt (\<lambda>a b. unat a + 40 \<le> unat b) bs"
proof (induction bs)
  case (Cons x bs)
  then show ?case by (cases bs) auto
qed simp

lemma chain_distinct: "chain e bs \<Longrightarrow> distinct bs"
  using chain_sorted [of e bs] by (induction bs) auto

lemma chain_less:
  assumes "chain e (xs @ b # ys)"
  shows "a \<in> set xs \<Longrightarrow> unat a + 40 \<le> unat b" "a \<in> set ys \<Longrightarrow> unat b + 40 \<le> unat a"
  using chain_sorted [OF assms] by (auto simp: sorted_wrt_append)

lemma chain_notin:
  assumes "chain e (xs @ b # ys)"
  shows "b \<notin> set xs" "b \<notin> set ys"
  using chain_distinct [OF assms] by auto

section \<open>Pages\<close>

text \<open>Page \<open>q\<close> of an area that starts at \<open>a\<close> meets the header of a buffer, or lies inside an interval.\<close>

definition hdr_page :: "nat \<Rightarrow> u32 \<Rightarrow> nat \<Rightarrow> bool" where
  "hdr_page a b q \<longleftrightarrow> a + 4096 * q < unat b + 40 \<and> unat b < a + 4096 * (q + 1)"

definition in_page :: "nat \<Rightarrow> nat \<Rightarrow> nat \<Rightarrow> nat \<Rightarrow> bool" where
  "in_page a lo hi q \<longleftrightarrow> lo \<le> a + 4096 * q \<and> a + 4096 * (q + 1) \<le> hi"

text \<open>The pages a layout needs: those of all headers, and those inside allocated buffers.\<close>

fun used :: "nat \<Rightarrow> nat \<Rightarrow> (u32 \<Rightarrow> bool) \<Rightarrow> u32 list \<Rightarrow> nat \<Rightarrow> bool" where
  "used a e fr [] q = False"
| "used a e fr (b # bs) q =
     (hdr_page a b q \<or> (\<not> fr b \<and> in_page a (unat b + 40) (head_or e bs) q) \<or> used a e fr bs q)"

lemma used_append: "used a e fr (xs @ b # ys) q \<longleftrightarrow> used a (unat b) fr xs q \<or> used a e fr (b # ys) q"
  by (induction xs) (auto simp: head_or_append)

lemma used_cong: "(\<And>b. b \<in> set bs \<Longrightarrow> fr b = fr' b) \<Longrightarrow> used a e fr bs q = used a e fr' bs q"
  by (induction bs) auto

lemma used_below: "chain e bs \<Longrightarrow> used a e fr bs q \<Longrightarrow> a + 4096 * q < e"
proof (induction bs)
  case (Cons b bs)
  have "unat b + 40 \<le> head_or e bs" "head_or e bs \<le> e" using Cons.prems(1) chain_head [of e bs] by simp_all
  then show ?case using Cons by (auto simp: hdr_page_def in_page_def)
qed simp

lemma used_above: "chain e bs \<Longrightarrow> used a e fr bs q \<Longrightarrow> head_or e bs < a + 4096 * (q + 1)"
proof (induction bs)
  case (Cons b bs)
  then show ?case by (auto simp: hdr_page_def in_page_def)
qed simp

text \<open>A page inside a buffer's data belongs to no other buffer.\<close>

lemma in_page_only:
  assumes c: "chain e (xs @ b # ys)" and q: "in_page a (unat b + 40) (head_or e ys) q"
  shows "\<not> used a (unat b) fr xs q" "\<not> hdr_page a b q" "\<not> used a e fr ys q"
proof -
  have "chain (unat b) xs" "chain e ys" using c by (simp_all add: chain_append)
  then show "\<not> used a (unat b) fr xs q" "\<not> used a e fr ys q"
    using q used_below [of "unat b" xs a fr q] used_above [of e ys a fr q] by (auto simp: in_page_def)
  show "\<not> hdr_page a b q" using q by (auto simp: in_page_def hdr_page_def)
qed

text \<open>Allocating or freeing a buffer adds or removes the pages inside it.\<close>

lemma used_toggle:
  assumes c: "chain e (xs @ b # ys)" and fr: "\<And>x. x \<in> set (xs @ ys) \<Longrightarrow> fr x = fr' x" "fr b" "\<not> fr' b"
  shows "used a e fr' (xs @ b # ys) q \<longleftrightarrow> used a e fr (xs @ b # ys) q \<or> in_page a (unat b + 40) (head_or e ys) q"
    and "used a e fr (xs @ b # ys) q \<longleftrightarrow> used a e fr' (xs @ b # ys) q \<and> \<not> in_page a (unat b + 40) (head_or e ys) q"
proof -
  have "used a (unat b) fr xs q = used a (unat b) fr' xs q" "used a e fr ys q = used a e fr' ys q"
    by (intro used_cong; simp add: fr(1))+
  then show "used a e fr' (xs @ b # ys) q \<longleftrightarrow> used a e fr (xs @ b # ys) q \<or> in_page a (unat b + 40) (head_or e ys) q"
    "used a e fr (xs @ b # ys) q \<longleftrightarrow> used a e fr' (xs @ b # ys) q \<and> \<not> in_page a (unat b + 40) (head_or e ys) q"
    using fr(2,3) in_page_only(1,3) [OF c, of a q fr] in_page_only(2) [OF c, of a q] by (auto simp: used_append)
qed

text \<open>Splitting a buffer at \<open>d\<close>: the pages of the lower part and of the new header. The pages the
  code adds are those from the end of the header of \<open>b\<close> up to the first page after the new header,
  cut off at the page of the next buffer.\<close>

lemma used_split:
  assumes c: "chain e (xs @ b # ys)" and fr: "\<And>x. x \<in> set (xs @ ys) \<Longrightarrow> fr x = fr' x" "fr b" "\<not> fr' b" "fr' d"
    and d: "unat b + 40 \<le> unat d" "unat d + 40 \<le> head_or e ys"
    and e: "\<exists>k. e = a + 4096 * k"
  shows "used a e fr' (xs @ b # d # ys) q \<longleftrightarrow> used a e fr (xs @ b # ys) q
      \<or> unat b + 40 \<le> a + 4096 * q \<and> a + 4096 * q < unat d + 40 \<and> a + 4096 * (q + 1) \<le> head_or e ys"
proof -
  have u: "used a (unat b) fr xs q = used a (unat b) fr' xs q" "used a e fr ys q = used a e fr' ys q"
    by (intro used_cong; simp add: fr(1))+
  have ho: "ys = [] \<Longrightarrow> head_or e ys = e" "ys \<noteq> [] \<Longrightarrow> hdr_page a (hd ys) q \<Longrightarrow> used a e fr ys q"
    "ys \<noteq> [] \<Longrightarrow> head_or e ys = unat (hd ys)"
    by (cases ys; simp)+
  have "used a e fr' (xs @ b # d # ys) q \<longleftrightarrow> used a e fr (xs @ b # ys) q
      \<or> in_page a (unat b + 40) (unat d) q \<or> hdr_page a d q"
    using fr(2-4) by (auto simp: used_append u)
  moreover have "in_page a (unat b + 40) (unat d) q \<or> hdr_page a d q \<longrightarrow> used a e fr (xs @ b # ys) q
      \<or> unat b + 40 \<le> a + 4096 * q \<and> a + 4096 * q < unat d + 40 \<and> a + 4096 * (q + 1) \<le> head_or e ys"
  proof (intro impI)
    assume "in_page a (unat b + 40) (unat d) q \<or> hdr_page a d q"
    then consider "in_page a (unat b + 40) (unat d) q" | "hdr_page a d q" by blast
    then show "used a e fr (xs @ b # ys) q
      \<or> unat b + 40 \<le> a + 4096 * q \<and> a + 4096 * q < unat d + 40 \<and> a + 4096 * (q + 1) \<le> head_or e ys"
    proof cases
      case 1
      then show ?thesis using d by (auto simp: in_page_def)
    next
      case 2
      have "hdr_page a b q" if "a + 4096 * q < unat b + 40" using that 2 d by (auto simp: hdr_page_def)
      moreover have "used a e fr ys q" if "head_or e ys < a + 4096 * (q + 1)"
      proof (cases "ys = []")
        case True
        obtain k where k: "e = a + 4096 * k" using e by blast
        then have "q < k" using 2 d(2) True by (simp add: hdr_page_def)
        then show ?thesis using that k True by simp
      next
        case False
        then show ?thesis using that 2 d ho(2,3) by (auto simp: hdr_page_def)
      qed
      ultimately show ?thesis using 2 by (fastforce simp: hdr_page_def used_append)
    qed
  qed
  moreover have "unat b + 40 \<le> a + 4096 * q \<and> a + 4096 * q < unat d + 40 \<and> a + 4096 * (q + 1) \<le> head_or e ys
      \<longrightarrow> in_page a (unat b + 40) (unat d) q \<or> hdr_page a d q"
    by (auto simp: in_page_def hdr_page_def)
  ultimately show ?thesis by blast
qed

text \<open>Removing the header of \<open>b\<close> between two buffers, when the buffer before it is free too.\<close>

lemma used_merge:
  assumes c: "chain e (xs @ [f] @ b # ys)" and fr: "fr f" "fr b"
  shows "used a e fr (xs @ f # ys) q \<longleftrightarrow> used a e fr (xs @ f # b # ys) q
      \<and> \<not> (hdr_page a b q \<and> \<not> hdr_page a f q \<and> (ys = [] \<or> \<not> hdr_page a (hd ys) q))"
proof -
  have cx: "chain (unat f) xs" "chain e (f # b # ys)" "chain e ys" "unat f + 40 \<le> unat b" "unat b + 40 \<le> head_or e ys"
    using c chain_append [of e xs f "b # ys"] by auto
  have "\<not> used a (unat f) fr xs q" if "hdr_page a b q" "\<not> hdr_page a f q"
    using used_below [OF cx(1), of a fr q] that cx(4) by (auto simp: hdr_page_def)
  moreover have "\<not> used a e fr ys q" if "hdr_page a b q" "ys = [] \<or> \<not> hdr_page a (hd ys) q"
  proof (cases ys)
    case (Cons n zs)
    then show ?thesis
      using used_above [OF cx(3), of a fr q] that cx(5) by (auto simp: hdr_page_def)
  qed simp
  ultimately show ?thesis using fr by (cases ys) (auto simp: used_append)
qed

end
