(* ===== verification/Binder_Pages.thy ===== *)
theory Binder_Pages
  imports Binder_Layout
begin

text \<open>
  Page addresses and \<open>binder_update_page_range\<close>: adding pages gives all of the range or leaves every
  page as it was, freeing clears the range. The page array is indexed from the start of the area.
\<close>

section \<open>Page numbers\<close>

text \<open>The first page that starts at or after an address, and the page an address is in.\<close>

definition up :: "nat \<Rightarrow> nat \<Rightarrow> nat" where
  "up a x = (x - a + 4095) div 4096"

definition down :: "nat \<Rightarrow> nat \<Rightarrow> nat" where
  "down a x = (x - a) div 4096"

lemma up_le: "a \<le> x \<Longrightarrow> up a x \<le> q \<longleftrightarrow> x \<le> a + 4096 * q"
  unfolding up_def using div_less_iff_less_mult [of 4096 "x - a + 4095" "Suc q"] by (auto simp: less_Suc_eq_le)

lemma down_less: "a \<le> x \<Longrightarrow> q < down a x \<longleftrightarrow> a + 4096 * (q + 1) \<le> x"
  unfolding down_def using less_eq_div_iff_mult_less_eq [of 4096 "Suc q" "x - a"] by auto

lemma down_le: "a \<le> x \<Longrightarrow> down a x \<le> q \<longleftrightarrow> x < a + 4096 * (q + 1)"
  using down_less [of a x q] by (auto simp: not_less [symmetric])

definition area_ok :: "bproc \<Rightarrow> bool" where
  "area_ok p \<longleftrightarrow> bp_buffer p \<noteq> 0 \<and> 4096 dvd unat (bp_buffer p) \<and> 4096 dvd unat (bp_buffer_size p)
     \<and> unat (bp_buffer p) + unat (bp_buffer_size p) < 2 ^ 32"

abbreviation base :: "bproc \<Rightarrow> nat" where
  "base p \<equiv> unat (bp_buffer p)"

definition stop :: "bproc \<Rightarrow> nat" where
  "stop p = unat (bp_buffer p) + unat (bp_buffer_size p)"

lemma area_stop:
  assumes "area_ok p"
  shows "4096 \<le> base p" "stop p + 4096 \<le> 2 ^ 32" "4096 dvd base p" "base p \<le> stop p" "\<exists>k. stop p = base p + 4096 * k"
proof -
  have d: "4096 dvd base p" "4096 dvd stop p" "stop p < 2 ^ 32" using assms by (auto simp: area_ok_def stop_def)
  have "0 < base p" using assms by (simp add: area_ok_def unat_gt_0)
  with d(1) show "4096 \<le> base p" by (auto dest: dvd_imp_le)
  show "4096 dvd base p" "base p \<le> stop p" using d by (simp_all add: stop_def)
  obtain k where k: "stop p = 4096 * k" using d(2) by (auto elim: dvdE)
  then have "k < 1048576" using d(3) by simp
  then show "stop p + 4096 \<le> 2 ^ 32" using k by simp
  show "\<exists>k. stop p = base p + 4096 * k" using assms by (auto simp: area_ok_def stop_def elim: dvdE)
qed

lemma page_up:
  assumes "4096 dvd a" "a \<le> x"
  shows "(x + 4095) div 4096 * 4096 = a + 4096 * up a x"
proof -
  obtain k where a: "a = 4096 * k" using assms(1) by (auto elim: dvdE)
  have "x + 4095 = (x - a + 4095) + 4096 * k" using assms(2) a by simp
  then have "(x + 4095) div 4096 = k + (x - a + 4095) div 4096" by (simp only: div_mult_self2)
  then show ?thesis unfolding a up_def by (simp only: distrib_left mult.commute)
qed

lemma page_down:
  assumes "4096 dvd a" "a \<le> x"
  shows "x div 4096 * 4096 = a + 4096 * down a x"
proof -
  obtain k where a: "a = 4096 * k" using assms(1) by (auto elim: dvdE)
  have "x = (x - a) + 4096 * k" using assms(2) a by simp
  then have "x div 4096 = ((x - a) + 4096 * k) div 4096" by (rule arg_cong)
  then have "x div 4096 = k + (x - a) div 4096" by (simp only: div_mult_self2)
  then show ?thesis unfolding a down_def by (simp only: distrib_left mult.commute)
qed

section \<open>Page addresses\<close>

definition pgaddr :: "bproc \<Rightarrow> nat \<Rightarrow> u32" where
  "pgaddr p q = bp_buffer p + of_nat (4096 * q)"

lemma unat_pgaddr: "base p + 4096 * q < 2 ^ 32 \<Longrightarrow> unat (pgaddr p q) = base p + 4096 * q"
  by (simp add: pgaddr_def unat_word_ariths unat_of_nat)

lemma pgaddr_eq: "unat x = base p + 4096 * q \<Longrightarrow> x = pgaddr p q"
proof -
  assume x: "unat x = base p + 4096 * q"
  then have "unat (pgaddr p q) = unat x" using unsigned_less [of x, where 'a = nat] by (simp add: unat_pgaddr)
  then show ?thesis by (simp add: word_unat_eq_iff)
qed

lemma page_index_pgaddr: "base p + 4096 * q < 2 ^ 32 \<Longrightarrow> page_index p (pgaddr p q) = q"
proof -
  assume "base p + 4096 * q < 2 ^ 32"
  then have "unat (of_nat (4096 * q) :: u32) = 4096 * q" by (simp only: unat_of_nat) simp
  then show ?thesis by (simp add: page_index_def pgaddr_def PAGE_SIZE_def unat_div)
qed

lemma pgaddr_less: "base p + 4096 * q < 2 ^ 32 \<Longrightarrow> base p + 4096 * r < 2 ^ 32 \<Longrightarrow> pgaddr p q < pgaddr p r \<longleftrightarrow> q < r"
  by (simp add: word_less_nat_alt unat_pgaddr)

lemma pgaddr_Suc: "pgaddr p (Suc q) = pgaddr p q + PAGE_SIZE" "pgaddr p (Suc q) - PAGE_SIZE = pgaddr p q"
  by (simp_all add: pgaddr_def PAGE_SIZE_def algebra_simps)

lemma pgaddr_below: "4096 \<le> base p \<Longrightarrow> base p + 4096 * q < 2 ^ 32 \<Longrightarrow> pgaddr p q - PAGE_SIZE < pgaddr p q"
  using unat_pgaddr [of p q] by (simp add: PAGE_SIZE_def word_less_nat_alt unat_sub word_le_nat_alt)

lemma pgaddr_pages [simp]: "pgaddr (p\<lparr>pages := g\<rparr>) = pgaddr p" "pgaddr (upd_page a f p) = pgaddr p"
  "pgaddr (p\<lparr>buffers := bs\<rparr>) = pgaddr p" "pgaddr (p\<lparr>free_async_space := x\<rparr>) = pgaddr p"
  by (simp_all add: pgaddr_def upd_page_def fun_eq_iff)

lemma page_align_pgaddr:
  assumes "area_ok p" "base p \<le> unat x" "unat x \<le> stop p"
  shows "PAGE_ALIGN x = pgaddr p (up (base p) (unat x))" "x AND PAGE_MASK = pgaddr p (down (base p) (unat x))"
proof -
  note a = area_stop [OF assms(1)]
  have "unat (PAGE_ALIGN x) = base p + 4096 * up (base p) (unat x)"
    using page_up [OF a(3) assms(2)] assms(3) a(2) by (subst unat_page_align) auto
  then show "PAGE_ALIGN x = pgaddr p (up (base p) (unat x))" by (rule pgaddr_eq)
  have "unat (x AND PAGE_MASK) = base p + 4096 * down (base p) (unat x)"
    using page_down [OF a(3) assms(2)] by (simp add: unat_page_floor)
  then show "x AND PAGE_MASK = pgaddr p (down (base p) (unat x))" by (rule pgaddr_eq)
qed

section \<open>The loops\<close>

definition clear_page :: "bool \<Rightarrow> page_state \<Rightarrow> page_state" where
  "clear_page vma g = g\<lparr>pg_page := False, pg_kernel := False, pg_user := (if vma then False else pg_user g)\<rparr>"

lemma free_range_ok:
  assumes "i \<le> j" "base p + 4096 * j < 2 ^ 32" "4096 \<le> base p"
  shows "free_range vma (pgaddr p i) (pgaddr p j - PAGE_SIZE) p
    = Some (p\<lparr>pages := (\<lambda>q. if i \<le> q \<and> q < j then clear_page vma (pages p q) else pages p q)\<rparr>)"
  using assms
proof (induction "j - i" arbitrary: j p)
  case 0
  then have "\<not> pgaddr p i \<le> pgaddr p i - PAGE_SIZE" "j = i"
    using pgaddr_below [of p i] by (auto simp: not_le)
  moreover have "(\<lambda>q. if i \<le> q \<and> q < i then clear_page vma (pages p q) else pages p q) = pages p" by (rule ext) auto
  ultimately show ?case by (subst free_range.simps) simp
next
  case (Suc n)
  then obtain k where j: "j = Suc k" "i \<le> k" by (cases j) auto
  let ?p = "upd_page (pgaddr p k) (clear_page vma) p"
  have k: "page_index p (pgaddr p k) = k" using Suc.prems j by (intro page_index_pgaddr) simp
  have "\<not> pgaddr p k < pgaddr p i" using Suc.prems j by (subst pgaddr_less) auto
  then have "free_range vma (pgaddr p i) (pgaddr p j - PAGE_SIZE) p = free_range vma (pgaddr ?p i) (pgaddr ?p k - PAGE_SIZE) ?p"
    unfolding j(1) pgaddr_Suc by (subst free_range.simps) (simp add: not_less clear_page_def [abs_def])
  also have "\<dots> = Some (?p\<lparr>pages := (\<lambda>q. if i \<le> q \<and> q < k then clear_page vma (pages ?p q) else pages ?p q)\<rparr>)"
    by (rule Suc.hyps(1)) (use Suc.hyps(2) Suc.prems j in \<open>auto simp: upd_page_def\<close>)
  also have "(\<lambda>q. if i \<le> q \<and> q < k then clear_page vma (pages ?p q) else pages ?p q)
      = (\<lambda>q. if i \<le> q \<and> q < j then clear_page vma (pages p q) else pages p q)"
    using j k by (intro ext) (auto simp: upd_page_def)
  finally show ?case by (simp add: upd_page_def)
qed

text \<open>What counts for the layout: a page is there and mapped in the kernel.\<close>

definition there :: "page_state \<Rightarrow> bool \<Rightarrow> bool" where
  "there g b \<longleftrightarrow> pg_page g = b \<and> pg_kernel g = b"

text \<open>Nothing fails.\<close>

definition env_good :: "page_env \<Rightarrow> bool" where
  "env_good env \<longleftrightarrow> env_mm env \<and> (\<forall>a. env_alloc env a \<and> env_map env a \<and> env_insert env a)"

lemma alloc_range_ok:
  assumes "i \<le> k" "k \<le> j" "base p + 4096 * j < 2 ^ 32" "4096 \<le> base p"
    and "\<And>q. i \<le> q \<Longrightarrow> q < k \<Longrightarrow> there (pages p q) True" "\<And>q. k \<le> q \<Longrightarrow> q < j \<Longrightarrow> there (pages p q) False"
  shows "\<exists>g ok. alloc_range env (pgaddr p i) (pgaddr p j) (pgaddr p k) p = Some (p\<lparr>pages := g\<rparr>, ok)
    \<and> (\<forall>q. if i \<le> q \<and> q < j then there (g q) ok else g q = pages p q) \<and> (env_good env \<longrightarrow> ok)"
  using assms
proof (induction "j - k" arbitrary: k p)
  case 0
  then have "k = j" by simp
  then show ?case using "0.prems" by (subst alloc_range.simps) (intro exI [of _ "pages p"] exI [of _ True], auto)
next
  case (Suc n)
  then have k: "k < j" by simp
  have kj: "pgaddr p k < pgaddr p j" using Suc.prems k by (subst pgaddr_less) auto
  have ix: "page_index p (pgaddr p k) = k" using Suc.prems k by (intro page_index_pgaddr) simp
  have np: "\<not> pg_page (pages p k)" using Suc.prems(6) [of k] k by (simp add: there_def)
  have fail: "\<exists>g. free_range True (pgaddr p i) (pgaddr p k - PAGE_SIZE) (upd_page (pgaddr p k) f p) = Some (p\<lparr>pages := g\<rparr>)
      \<and> (\<forall>q. if i \<le> q \<and> q < j then there (g q) False else g q = pages p q)"
    if f: "there (f (pages p k)) False" for f
  proof -
    let ?p = "upd_page (pgaddr p k) f p"
    have "free_range True (pgaddr ?p i) (pgaddr ?p k - PAGE_SIZE) ?p
        = Some (?p\<lparr>pages := (\<lambda>q. if i \<le> q \<and> q < k then clear_page True (pages ?p q) else pages ?p q)\<rparr>)"
      by (rule free_range_ok) (use Suc.prems k in \<open>auto simp: upd_page_def\<close>)
    then have "free_range True (pgaddr p i) (pgaddr p k - PAGE_SIZE) ?p
        = Some (p\<lparr>pages := (\<lambda>q. if i \<le> q \<and> q < k then clear_page True (pages ?p q) else pages ?p q)\<rparr>)"
      by (simp add: upd_page_def)
    moreover have "if i \<le> q \<and> q < j then there (if i \<le> q \<and> q < k then clear_page True (pages ?p q) else pages ?p q) False
        else (if i \<le> q \<and> q < k then clear_page True (pages ?p q) else pages ?p q) = pages p q" for q
      using f ix k Suc.prems(1) Suc.prems(6) [of q]
      by (cases "q = k") (auto simp: upd_page_def clear_page_def there_def)
    ultimately show ?thesis by blast
  qed
  have same: "upd_page (pgaddr p k) (\<lambda>g. g) p = p" by (simp add: upd_page_def)
  show ?case
  proof (cases "env_alloc env (pgaddr p k) \<and> env_map env (pgaddr p k) \<and> env_insert env (pgaddr p k)")
    case True
    let ?f = "\<lambda>g. g\<lparr>pg_page := True, pg_kernel := True, pg_user := True\<rparr>"
    let ?p = "upd_page (pgaddr p k) ?f p"
    have "\<exists>g ok. alloc_range env (pgaddr ?p i) (pgaddr ?p j) (pgaddr ?p (Suc k)) ?p = Some (?p\<lparr>pages := g\<rparr>, ok)
      \<and> (\<forall>q. if i \<le> q \<and> q < j then there (g q) ok else g q = pages ?p q) \<and> (env_good env \<longrightarrow> ok)"
    proof (rule Suc.hyps(1))
      fix q
      show "there (pages ?p q) True" if "i \<le> q" "q < Suc k"
        using that Suc.prems(5) ix by (cases "q = k") (auto simp: upd_page_def there_def)
      show "there (pages ?p q) False" if "Suc k \<le> q" "q < j"
        using that Suc.prems(6) ix by (auto simp: upd_page_def)
    qed (use Suc.hyps(2) Suc.prems k in \<open>auto simp: upd_page_def\<close>)
    then obtain g ok where g: "alloc_range env (pgaddr p i) (pgaddr p j) (pgaddr p k + PAGE_SIZE) ?p = Some (?p\<lparr>pages := g\<rparr>, ok)"
      "\<forall>q. if i \<le> q \<and> q < j then there (g q) ok else g q = pages ?p q" "env_good env \<longrightarrow> ok"
      unfolding pgaddr_pages pgaddr_Suc by blast
    have "alloc_range env (pgaddr p i) (pgaddr p j) (pgaddr p k) p = Some (p\<lparr>pages := g\<rparr>, ok)"
      using g(1) True kj np ix by (subst alloc_range.simps) (simp add: upd_page_def)
    moreover have "if i \<le> q \<and> q < j then there (g q) ok else g q = pages p q" for q
      using g(2) [rule_format, of q] ix k Suc.prems(1) by (auto simp: upd_page_def split: if_splits)
    ultimately show ?thesis using g(3) by blast
  next
    case False
    then have bad: "\<not> env_good env" by (auto simp: env_good_def)
    have th: "there (pages p k) False" using Suc.prems(6) [of k] k by simp
    obtain f where f: "there (f (pages p k)) False" and
      al: "alloc_range env (pgaddr p i) (pgaddr p j) (pgaddr p k) p
        = map_option (\<lambda>p'. (p', False)) (free_range True (pgaddr p i) (pgaddr p k - PAGE_SIZE) (upd_page (pgaddr p k) f p))"
    proof (cases "env_alloc env (pgaddr p k)")
      case alloc: False
      show ?thesis
        by (rule that [of "\<lambda>g. g"]) (use th alloc kj np ix in \<open>simp_all add: same alloc_range.simps [of env _ _ "pgaddr p k"]\<close>)
    next
      case alloc: True
      show ?thesis
      proof (cases "env_map env (pgaddr p k)")
        case map: False
        show ?thesis
          by (rule that [of "\<lambda>g. g\<lparr>pg_page := False\<rparr>"])
            (use th alloc map kj np ix in \<open>simp_all add: there_def alloc_range.simps [of env _ _ "pgaddr p k"]\<close>)
      next
        case map: True
        show ?thesis
          by (rule that [of "\<lambda>g. g\<lparr>pg_page := False, pg_kernel := False\<rparr>"])
            (use th alloc map kj np ix False in \<open>simp_all add: there_def alloc_range.simps [of env _ _ "pgaddr p k"]\<close>)
      qed
    qed
    obtain g where "free_range True (pgaddr p i) (pgaddr p k - PAGE_SIZE) (upd_page (pgaddr p k) f p) = Some (p\<lparr>pages := g\<rparr>)"
      "\<forall>q. if i \<le> q \<and> q < j then there (g q) False else g q = pages p q"
      using fail [of f, OF f] by blast
    with al bad show ?thesis by (intro exI [of _ g] exI [of _ False]) simp
  qed
qed

text \<open>The two uses of \<open>binder_update_page_range\<close>.\<close>

lemma update_add:
  "\<not> fin \<le> start \<Longrightarrow> binder_update_page_range env True start fin vma p =
    (if (if vma then True else if env_mm env then bp_vma p else False)
     then alloc_range env start fin start p else Some (p, False))"
  by (simp add: binder_update_page_range_def)

lemma add_pages:
  assumes "area_ok p" "base p + 4096 * i \<le> stop p" "base p + 4096 * j \<le> stop p"
    and "\<And>q. i \<le> q \<Longrightarrow> q < j \<Longrightarrow> there (pages p q) False"
  shows "\<exists>g ok. binder_update_page_range env True (pgaddr p i) (pgaddr p j) vma p = Some (p\<lparr>pages := g\<rparr>, ok)
    \<and> (\<forall>q. if i \<le> q \<and> q < j \<and> ok then there (g q) True else g q = pages p q \<or> there (g q) False \<and> there (pages p q) False)
    \<and> (env_good env \<longrightarrow> vma \<or> bp_vma p \<longrightarrow> ok)"
proof (cases "i < j")
  case False
  then have "\<not> pgaddr p i < pgaddr p j"
    using area_stop(2) [OF assms(1)] assms(2,3) by (subst pgaddr_less) auto
  then have "binder_update_page_range env True (pgaddr p i) (pgaddr p j) vma p = Some (p\<lparr>pages := pages p\<rparr>, True)"
    by (simp add: binder_update_page_range_def not_less)
  then show ?thesis using False by (intro exI [of _ "pages p"] exI [of _ True]) auto
next
  case True
  have b: "base p + 4096 * j < 2 ^ 32" "4096 \<le> base p" using area_stop(1,2) [OF assms(1)] assms(3) by simp_all
  then have lt: "\<not> pgaddr p j \<le> pgaddr p i" using True by (simp add: not_le pgaddr_less)
  show ?thesis
  proof (cases "if vma then True else if env_mm env then bp_vma p else False")
    case v: True
    have "\<exists>g ok. alloc_range env (pgaddr p i) (pgaddr p j) (pgaddr p i) p = Some (p\<lparr>pages := g\<rparr>, ok)
        \<and> (\<forall>q. if i \<le> q \<and> q < j then there (g q) ok else g q = pages p q) \<and> (env_good env \<longrightarrow> ok)"
      by (rule alloc_range_ok [OF order.refl less_imp_le [OF True] b _ assms(4)]) simp_all
    then obtain g ok where g: "alloc_range env (pgaddr p i) (pgaddr p j) (pgaddr p i) p = Some (p\<lparr>pages := g\<rparr>, ok)"
      and gq: "\<forall>q. if i \<le> q \<and> q < j then there (g q) ok else g q = pages p q" and ok: "env_good env \<longrightarrow> ok"
      by blast
    have "binder_update_page_range env True (pgaddr p i) (pgaddr p j) vma p = Some (p\<lparr>pages := g\<rparr>, ok)"
      using update_add [OF lt, of env vma] v g by metis
    moreover have "if i \<le> q \<and> q < j \<and> ok then there (g q) True else g q = pages p q \<or> there (g q) False \<and> there (pages p q) False" for q
      using gq [rule_format, of q] assms(4) [of q] by (cases ok) (auto split: if_split_asm)
    ultimately show ?thesis using ok by blast
  next
    case v: False
    have "binder_update_page_range env True (pgaddr p i) (pgaddr p j) vma p = Some (p\<lparr>pages := pages p\<rparr>, False)"
      using lt v unfolding binder_update_page_range_def Let_def by (simp only: if_False if_True simp_thms) simp
    moreover have "env_good env \<longrightarrow> \<not> (vma \<or> bp_vma p)" using v by (auto simp: env_good_def split: if_split_asm)
    ultimately show ?thesis by (intro exI [of _ "pages p"] exI [of _ False]) simp
  qed
qed

lemma drop_pages:
  assumes "area_ok p" "base p + 4096 * i \<le> stop p" "base p + 4096 * j \<le> stop p"
  shows "\<exists>g ok. binder_update_page_range env False (pgaddr p i) (pgaddr p j) vma p = Some (p\<lparr>pages := g\<rparr>, ok)
    \<and> (\<forall>q. if i \<le> q \<and> q < j then there (g q) False else g q = pages p q)"
proof (cases "i < j")
  case False
  then have "\<not> pgaddr p i < pgaddr p j"
    using area_stop(2) [OF assms(1)] assms(2,3) by (subst pgaddr_less) auto
  then have "binder_update_page_range env False (pgaddr p i) (pgaddr p j) vma p = Some (p\<lparr>pages := pages p\<rparr>, True)"
    by (simp add: binder_update_page_range_def not_less)
  then show ?thesis using False by (intro exI [of _ "pages p"] exI [of _ True]) auto
next
  case True
  have b: "base p + 4096 * j < 2 ^ 32" "4096 \<le> base p" using area_stop(1,2) [OF assms(1)] assms(3) by simp_all
  then have lt: "\<not> pgaddr p j \<le> pgaddr p i" using True by (simp add: not_le pgaddr_less)
  let ?v = "if vma then True else if env_mm env then bp_vma p else False"
  let ?g = "\<lambda>q. if i \<le> q \<and> q < j then clear_page ?v (pages p q) else pages p q"
  have "binder_update_page_range env False (pgaddr p i) (pgaddr p j) vma p = Some (p\<lparr>pages := ?g\<rparr>, False)"
    using lt free_range_ok [OF _ b, of i ?v] True unfolding binder_update_page_range_def Let_def
    by (simp only: if_False if_True simp_thms less_imp_le option.map)
  then show ?thesis by (intro exI [of _ ?g] exI [of _ False]) (auto simp: clear_page_def there_def)
qed

end
