(* ===== verification/Binder_Buffers.thy ===== *)
theory Binder_Buffers
  imports Binder_Pages
begin

text \<open>
  The invariant of a process's buffer area, and the parts of it that the operations of theory
  Binder\_Alloc use: sizes, the search for the best fit, the two trees.
\<close>

section \<open>The request size\<close>

definition align4 :: "u32 \<Rightarrow> nat" where
  "align4 x = (unat x + 3) div 4 * 4"

lemma align4_ge: "unat x \<le> align4 x" "align4 x < unat x + 4"
proof -
  have "align4 x = unat x + 3 - (unat x + 3) mod 4" by (simp add: align4_def div_mult_mod_eq minus_mod_eq_div_mult)
  then show "unat x \<le> align4 x" "align4 x < unat x + 4" using mod_less_divisor [of 4 "unat x + 3"] by linarith+
qed

lemma unat_ALIGN_wrap: "2 ^ 32 \<le> unat x + 3 \<Longrightarrow> ALIGN x 4 = 0"
proof -
  assume x: "2 ^ 32 \<le> unat x + 3"
  have "unat (x + 3) = unat x + 3 - 2 ^ 32"
    using x unsigned_less [of x, where 'a = nat] by (simp add: unat_word_ariths mod_if)
  then have "unat (x + 3) < 4" using unsigned_less [of x, where 'a = nat] by simp
  then have "unat (ALIGN x 4) = 0"
    using unat_clear_low [of "x + 3" 2] by (simp add: ALIGN_def mask_eq_exp_minus_1)
  then show ?thesis by (simp add: unat_eq_0)
qed

text \<open>The test for an overflow of the sum in \<open>binder_alloc_buf\<close> finds every overflow.\<close>

lemma request_size_exact:
  assumes "\<not> request_size d f < d" "\<not> request_size d f < f"
  shows "unat (request_size d f) = align4 d + align4 f"
proof -
  let ?A = "unat (ALIGN d 4)" and ?B = "unat (ALIGN f 4)"
  have lt: "unat d < 2 ^ 32" "unat f < 2 ^ 32" "?A < 2 ^ 32" "?B < 2 ^ 32"
    using unsigned_less [of d, where 'a = nat] unsigned_less [of f, where 'a = nat]
      unsigned_less [of "ALIGN d 4", where 'a = nat] unsigned_less [of "ALIGN f 4", where 'a = nat] by simp_all
  have s: "unat (request_size d f) = (?A + ?B) mod 2 ^ 32" by (simp add: request_size_def unat_word_ariths)
  have ge: "unat d \<le> unat (request_size d f)" "unat f \<le> unat (request_size d f)"
    using assms by (simp_all add: word_less_nat_alt)
  have v: "?A = (if unat d + 3 < 2 ^ 32 then align4 d else 0)" "?B = (if unat f + 3 < 2 ^ 32 then align4 f else 0)"
    using unat_align4 unat_ALIGN_wrap by (auto simp: align4_def not_less)
  have m: "4 dvd ?A" "4 dvd ?B" by (auto simp: v align4_def)
  then obtain i j where ij: "?A = 4 * i" "?B = 4 * j" by (auto elim!: dvdE)
  have ij': "i < 2 ^ 30" "j < 2 ^ 30" using lt(3,4) ij by auto
  have nd: "unat d + 3 < 2 ^ 32"
  proof (rule ccontr)
    assume "\<not> unat d + 3 < 2 ^ 32"
    then have "?A = 0" "2 ^ 32 \<le> unat d + 3" using v by simp_all
    then show False using s ge(1) ij ij' by simp
  qed
  have nf: "unat f + 3 < 2 ^ 32"
  proof (rule ccontr)
    assume "\<not> unat f + 3 < 2 ^ 32"
    then have "?B = 0" "2 ^ 32 \<le> unat f + 3" using v by simp_all
    then show False using s ge(2) ij ij' by simp
  qed
  have "?A + ?B < 2 ^ 32"
  proof (rule ccontr)
    assume w: "\<not> ?A + ?B < 2 ^ 32"
    then have "unat (request_size d f) = ?A + ?B - 2 ^ 32" using s lt by (simp add: mod_if)
    moreover have "?A < unat d + 4" using v nd align4_ge [of d] by simp
    ultimately show False using ge(1) ij ij' w by simp
  qed
  then show ?thesis using s v nd nf by simp
qed

lemma request_size_align: "4 dvd unat (request_size d f)"
proof -
  have a: "4 dvd unat (ALIGN x 4)" for x :: u32
    using unat_align4 [of x] unat_ALIGN_wrap [of x] by (cases "unat x + 3 < 2 ^ 32") auto
  have "4 dvd (unat (ALIGN d 4) + unat (ALIGN f 4)) mod 2 ^ 32"
    using a [of d] a [of f] by (intro dvd_mod) auto
  then show ?thesis by (simp add: request_size_def unat_word_ariths)
qed

lemma aligned_dvd: "aligned x \<longleftrightarrow> 4 dvd unat x"
proof -
  have "x AND 3 = take_bit 2 x" using take_bit_eq_mask [of 2 x] by (simp add: mask_eq_exp_minus_1)
  then have "unat (x AND 3) = unat x mod 4" by (simp add: take_bit_eq_mod unat_mod)
  then show ?thesis by (simp add: aligned_def dvd_eq_mod_eq_0 flip: unat_eq_0)
qed

section \<open>Sizes\<close>

definition layout :: "bproc \<Rightarrow> bool" where
  "layout p \<longleftrightarrow> area_ok p \<and> buffers p \<noteq> [] \<and> hd (buffers p) = bp_buffer p \<and> chain (stop p) (buffers p)
     \<and> (\<forall>b \<in> set (buffers p). aligned b)"

text \<open>The end of a buffer in the area.\<close>

lemma layout_bounds:
  assumes "layout p" "buffers p = xs @ b # ys"
  shows "base p \<le> unat b" "unat b + 40 \<le> head_or (stop p) ys" "head_or (stop p) ys \<le> stop p"
    "unat b + 40 < 2 ^ 32" "b \<notin> set xs" "b \<notin> set ys" "b \<noteq> 0" "aligned b" "unat (buf_data b) = unat b + 40"
proof -
  have c: "chain (stop p) (xs @ b # ys)" "area_ok p" "hd (xs @ b # ys) = bp_buffer p"
    using assms by (auto simp: layout_def)
  show h: "unat b + 40 \<le> head_or (stop p) ys" "head_or (stop p) ys \<le> stop p"
    using c(1) chain_head [of "stop p" ys] by (simp_all add: chain_append)
  show lb: "base p \<le> unat b" using c(1,3) chain_less(1) [OF c(1), of "hd xs"] by (cases xs) auto
  show s: "unat b + 40 < 2 ^ 32" using h area_stop(2) [OF c(2)] by simp
  show "b \<notin> set xs" "b \<notin> set ys" using chain_notin [OF c(1)] .
  show "b \<noteq> 0" using lb area_stop(1) [OF c(2)] by auto
  show "aligned b" using assms by (auto simp: layout_def)
  show "unat (buf_data b) = unat b + 40" using s by (simp add: buf_data_def SIZEOF_BUFFER_def unat_word_ariths)
qed

lemma buffer_size_unat:
  assumes "layout p" "buffers p = xs @ b # ys"
  shows "unat (binder_buffer_size p b) = head_or (stop p) ys - (unat b + 40)"
    "unat (buf_data b + binder_buffer_size p b) = head_or (stop p) ys"
proof -
  note l = layout_bounds [OF assms]
  have a: "area_ok p" using assms(1) by (simp add: layout_def)
  have st: "unat (bp_buffer p + bp_buffer_size p) = stop p"
    using area_stop(2) [OF a] by (simp add: stop_def unat_word_ariths)
  obtain e where e: "binder_buffer_size p b = e - buf_data b" "unat e = head_or (stop p) ys"
    using l(5) st by (cases ys) (auto simp: binder_buffer_size_def assms(2) list_next_split)
  have "buf_data b \<le> e" using l(2,9) e(2) by (simp add: word_le_nat_alt)
  then show "unat (binder_buffer_size p b) = head_or (stop p) ys - (unat b + 40)"
    using e l(9) by (simp add: unat_sub)
  show "unat (buf_data b + binder_buffer_size p b) = head_or (stop p) ys" using e by simp
qed

text \<open>The size of a buffer depends on the list alone, and only on the next buffer.\<close>

lemma buffer_size_cong:
  "list_next (buffers p) b = list_next (buffers p') b \<Longrightarrow> bp_buffer p = bp_buffer p' \<Longrightarrow>
    bp_buffer_size p = bp_buffer_size p' \<Longrightarrow> binder_buffer_size p b = binder_buffer_size p' b"
  by (simp add: binder_buffer_size_def cong: option.case_cong)

lemma list_next_other:
  assumes "distinct (xs @ f # b # ys)" "a \<noteq> f" "a \<noteq> b"
  shows "list_next (xs @ f # b # ys) a = list_next (xs @ f # ys) a"
proof -
  consider (l) us vs where "xs = us @ a # vs" | (r) us vs where "ys = us @ a # vs" | (n) "a \<notin> set xs" "a \<notin> set ys"
    by (meson split_list)
  then show ?thesis
  proof cases
    case l
    then show ?thesis
      using assms list_next_split [of a us "vs @ f # b # ys"] list_next_split [of a us "vs @ f # ys"]
      by (cases vs) auto
  next
    case r
    then show ?thesis
      using assms list_next_split [of a "xs @ f # b # us" vs] list_next_split [of a "xs @ f # us" vs] by auto
  next
    case n
    have no: "list_next zs a = None" if "a \<notin> set zs" for zs
      using that by (induction zs a rule: list_next.induct) auto
    show ?thesis using n assms no [of "xs @ f # b # ys"] no [of "xs @ f # ys"] by simp
  qed
qed

section \<open>The tree of free buffers\<close>

definition rb_nodes :: "rb_mem \<Rightarrow> u32 list \<Rightarrow> bool" where
  "rb_nodes m xs \<longleftrightarrow> (\<exists>t. tree_rep m t \<and> rbtree t \<and> inorder t = xs)"

definition by_size :: "bproc \<Rightarrow> u32 list \<Rightarrow> bool" where
  "by_size p = sorted_wrt (\<lambda>a b. binder_buffer_size p a \<le> binder_buffer_size p b)"

lemma rb_nodes_distinct: "rb_nodes m xs \<Longrightarrow> distinct xs"
  by (auto simp: rb_nodes_def tree_rep_def nodes_ok_def)

lemma rb_nodes_erase:
  assumes "rb_nodes m fs" "b \<in> set fs"
  shows "\<exists>m'. rb_erase b m = Some m' \<and> rb_nodes m' (remove1 b fs)"
proof -
  obtain xs ys where fs: "fs = xs @ b # ys" using assms(2) by (meson split_list)
  then have "b \<notin> set xs" using rb_nodes_distinct [OF assms(1)] by auto
  then show ?thesis using assms rb_erase_inorder [of m _ xs b ys] fs by (auto simp: rb_nodes_def remove1_append)
qed

lemma by_size_remove: "by_size p fs \<Longrightarrow> by_size p (remove1 b fs)"
  unfolding by_size_def by (induction fs) (auto dest: notin_set_remove1)

lemma by_size_cong:
  "(\<And>a. a \<in> set fs \<Longrightarrow> binder_buffer_size p a = binder_buffer_size p' a) \<Longrightarrow> by_size p fs = by_size p' fs"
  unfolding by_size_def by (induction fs) auto

lemma insert_free_ok:
  assumes "rb_nodes (free_buffers p) fs" "by_size p fs" "\<And>a. a \<in> set fs \<Longrightarrow> b_free (bufs p a)"
    and "b_free (bufs p new)" "new \<notin> set fs" "new \<noteq> 0" "aligned new"
  shows "\<exists>m fs'. binder_insert_free_buffer new p = Some (p\<lparr>free_buffers := m\<rparr>) \<and> rb_nodes m fs' \<and> by_size p fs'
    \<and> set fs' = insert new (set fs)"
proof -
  obtain t where t: "tree_rep (free_buffers p) t" "rbtree t" "inorder t = fs" using assms(1) by (auto simp: rb_nodes_def)
  let ?s = "binder_buffer_size p new"
  have g: "guides (free_cmp p ?s) (inorder t)"
    unfolding guides_def
  proof (rule sorted_wrt_mono_rel [OF _ assms(2) [folded t(3), unfolded by_size_def]])
    fix a b
    assume "a \<in> set (inorder t)" "b \<in> set (inorder t)" "binder_buffer_size p a \<le> binder_buffer_size p b"
    then show "(free_cmp p ?s a < 0 \<longrightarrow> free_cmp p ?s b < 0) \<and> (0 < free_cmp p ?s b \<longrightarrow> 0 < free_cmp p ?s a)"
      using assms(3) t(3) by (auto simp: free_cmp_def)
  qed
  have no: "a \<in> set (inorder t) \<Longrightarrow> free_cmp p ?s a \<noteq> 0" for a
    using assms(3) t(3) by (auto simp: free_cmp_def)
  have "\<exists>m t' xs ys. binder_insert_free_buffer new p = Some (p\<lparr>free_buffers := m\<rparr>)
      \<and> tree_rep m t' \<and> rbtree t' \<and> inorder t = xs @ ys \<and> inorder t' = xs @ new # ys
      \<and> (\<forall>a \<in> set xs. free_cmp p ?s a > 0) \<and> (\<forall>a \<in> set ys. free_cmp p ?s a < 0)"
    using rb_lookup_insert [OF t(1,2) g no assms(6,7), where put = "\<lambda>m. p\<lparr>free_buffers := m\<rparr>"] assms(4,5) t(3)
    by (simp only: binder_insert_free_buffer_def simp_thms if_False)
  then obtain m t' xs ys where r: "binder_insert_free_buffer new p = Some (p\<lparr>free_buffers := m\<rparr>)"
    "tree_rep m t'" "rbtree t'" "inorder t = xs @ ys" "inorder t' = xs @ new # ys"
    "\<forall>a \<in> set xs. free_cmp p ?s a > 0" "\<forall>a \<in> set ys. free_cmp p ?s a < 0" by blast
  have "by_size p (xs @ new # ys)"
    using assms(2) r(4,6,7) t(3) by (auto simp: by_size_def sorted_wrt_append free_cmp_def split: if_split_asm)
  then show ?thesis using r t(3) by (intro exI [of _ m] exI [of _ "xs @ new # ys"]) (auto simp: rb_nodes_def)
qed

text \<open>The search for the best fit, from a node down: the smallest buffer below it that is large enough,
  or what was found before.\<close>

lemma best_fit_down:
  assumes "rep (free_buffers p) par t" "nodes_ok (inorder t)" "by_size p (inorder t)"
    and "\<And>a. a \<in> set (inorder t) \<Longrightarrow> b_free (bufs p a)"
  shows "\<exists>n b. best_fit_loop p sz (ptr t) best = Some (n, b)
    \<and> (n \<noteq> 0 \<and> b = n \<and> n \<in> set (inorder t) \<and> binder_buffer_size p n = sz
       \<or> n = 0 \<and> b = best \<and> (\<forall>a \<in> set (inorder t). binder_buffer_size p a < sz)
       \<or> n = 0 \<and> b \<in> set (inorder t) \<and> sz < binder_buffer_size p b
          \<and> (\<forall>a \<in> set (inorder t). binder_buffer_size p a < sz \<or> binder_buffer_size p b \<le> binder_buffer_size p a))"
  using assms
proof (induction t arbitrary: par best)
  case Leaf
  then show ?case by (subst best_fit_loop.simps) simp
next
  case (Node c l x r)
  let ?s = "binder_buffer_size p"
  have x: "x \<noteq> 0" "rb_left (free_buffers p) x = ptr l" "rb_right (free_buffers p) x = ptr r" "b_free (bufs p x)"
    using Node.prems by (auto simp: cell_def nodes_ok_def)
  have le: "\<And>a. a \<in> set (inorder l) \<Longrightarrow> ?s a \<le> ?s x" "\<And>a. a \<in> set (inorder r) \<Longrightarrow> ?s x \<le> ?s a"
    using Node.prems(3) by (auto simp: by_size_def sorted_wrt_append)
  have sub: "rep (free_buffers p) x l" "nodes_ok (inorder l)" "by_size p (inorder l)"
    "rep (free_buffers p) x r" "nodes_ok (inorder r)" "by_size p (inorder r)"
    using Node.prems(1-3) by (auto simp: nodes_ok_def by_size_def sorted_wrt_append)
  consider (l) "sz < ?s x" | (r) "?s x < sz" | (eq) "?s x = sz" by fastforce
  then show ?case
  proof cases
    case l
    have "best_fit_loop p sz (ptr (Node c l x r)) best = best_fit_loop p sz (ptr l) x"
      using x l by (subst best_fit_loop.simps) simp
    moreover obtain n b where "best_fit_loop p sz (ptr l) x = Some (n, b)" and
      nb: "n \<noteq> 0 \<and> b = n \<and> n \<in> set (inorder l) \<and> ?s n = sz
       \<or> n = 0 \<and> b = x \<and> (\<forall>a \<in> set (inorder l). ?s a < sz)
       \<or> n = 0 \<and> b \<in> set (inorder l) \<and> sz < ?s b \<and> (\<forall>a \<in> set (inorder l). ?s a < sz \<or> ?s b \<le> ?s a)"
      using Node.IH(1) [OF sub(1-3), of x] Node.prems(4) by auto
    moreover have main: "n \<noteq> 0 \<and> b = n \<and> n \<in> set (inorder (Node c l x r)) \<and> ?s n = sz
       \<or> n = 0 \<and> b \<in> set (inorder (Node c l x r)) \<and> sz < ?s b
          \<and> (\<forall>a \<in> set (inorder (Node c l x r)). ?s a < sz \<or> ?s b \<le> ?s a)"
      using nb
    proof (elim disjE conjE)
      assume b: "b \<in> set (inorder l)" "n = 0" "sz < ?s b" "\<forall>a \<in> set (inorder l). ?s a < sz \<or> ?s b \<le> ?s a"
      have "?s b \<le> ?s a" if "a \<in> insert x (set (inorder r))" for a
        using that le(1) [OF b(1)] le(2) [of a] by (auto intro: order_trans)
      then show ?thesis using b by auto
    qed (use l le in auto)
    ultimately have "best_fit_loop p sz (ptr (Node c l x r)) best = Some (n, b)" by simp
    then show ?thesis using main by (elim disjE) (rule exI [of _ n], rule exI [of _ b], simp only: simp_thms; blast?)+
  next
    case r
    have "best_fit_loop p sz (ptr (Node c l x r)) best = best_fit_loop p sz (ptr r) best"
      using x r less_not_sym [OF r] by (subst best_fit_loop.simps) simp
    moreover obtain n b where "best_fit_loop p sz (ptr r) best = Some (n, b)" and
      nb: "n \<noteq> 0 \<and> b = n \<and> n \<in> set (inorder r) \<and> ?s n = sz
       \<or> n = 0 \<and> b = best \<and> (\<forall>a \<in> set (inorder r). ?s a < sz)
       \<or> n = 0 \<and> b \<in> set (inorder r) \<and> sz < ?s b \<and> (\<forall>a \<in> set (inorder r). ?s a < sz \<or> ?s b \<le> ?s a)"
      using Node.IH(2) [OF sub(4-6), of best] Node.prems(4) by auto
    moreover have "?s a < sz" if "a \<in> insert x (set (inorder l))" for a
      using that r le(1) [of a] by (auto intro: le_less_trans)
    ultimately show ?thesis by auto
  next
    case eq
    then have "best_fit_loop p sz (ptr (Node c l x r)) best = Some (x, x)"
      using x by (subst best_fit_loop.simps) simp
    then show ?thesis using x eq by auto
  qed
qed

lemma best_fit_ok:
  assumes "rb_nodes (free_buffers p) fs" "by_size p fs" "\<And>a. a \<in> set fs \<Longrightarrow> b_free (bufs p a)"
  shows "\<exists>n b. best_fit_loop p sz (rb_root (free_buffers p)) 0 = Some (n, b)
    \<and> (if b = 0 then \<forall>a \<in> set fs. binder_buffer_size p a < sz
       else b \<in> set fs \<and> sz \<le> binder_buffer_size p b \<and> (n = 0 \<longleftrightarrow> binder_buffer_size p b \<noteq> sz)
         \<and> (\<forall>a \<in> set fs. sz \<le> binder_buffer_size p a \<longrightarrow> binder_buffer_size p b \<le> binder_buffer_size p a))"
proof -
  obtain t where t: "tree_rep (free_buffers p) t" "inorder t = fs" using assms(1) by (auto simp: rb_nodes_def)
  then have r: "rep (free_buffers p) 0 t" "nodes_ok (inorder t)" "rb_root (free_buffers p) = ptr t"
    by (simp_all add: tree_rep_def)
  have nz: "\<And>a. a \<in> set fs \<Longrightarrow> a \<noteq> 0" using r(2) t(2) by (auto simp: nodes_ok_def)
  obtain n b where nb: "best_fit_loop p sz (ptr t) 0 = Some (n, b)" and
    "n \<noteq> 0 \<and> b = n \<and> n \<in> set fs \<and> binder_buffer_size p n = sz
       \<or> n = 0 \<and> b = 0 \<and> (\<forall>a \<in> set fs. binder_buffer_size p a < sz)
       \<or> n = 0 \<and> b \<in> set fs \<and> sz < binder_buffer_size p b
          \<and> (\<forall>a \<in> set fs. binder_buffer_size p a < sz \<or> binder_buffer_size p b \<le> binder_buffer_size p a)"
    using best_fit_down [of p 0 t sz 0] r assms(2,3) t(2) by auto
  then show ?thesis
  proof (elim disjE conjE)
    assume "n = 0" "b = 0" "\<forall>a \<in> set fs. binder_buffer_size p a < sz"
    then show ?thesis using nb r(3) by auto
  next
    assume "n \<noteq> 0" "b = n" "n \<in> set fs" "binder_buffer_size p n = sz"
    then show ?thesis using nb r(3) by auto
  next
    assume "n = 0" "b \<in> set fs" "sz < binder_buffer_size p b"
      "\<forall>a \<in> set fs. binder_buffer_size p a < sz \<or> binder_buffer_size p b \<le> binder_buffer_size p a"
    then show ?thesis using nb r(3) nz [of b] by (intro exI [of _ n] exI [of _ b]) (auto simp: not_less [symmetric])
  qed
qed

section \<open>The tree of allocated buffers\<close>

interpretation addrs: rb_index word_cmp
  by unfold_locales (auto simp: word_cmp_def)

lemma alloc_guides:
  assumes "key_tree (\<lambda>a. a) (allocated_buffers p) as" "\<And>a. a \<in> set as \<Longrightarrow> \<not> b_free (bufs p a)"
  shows "guides (alloc_cmp p k) as" "a \<in> set as \<Longrightarrow> alloc_cmp p k a = word_cmp k a"
proof -
  show c: "alloc_cmp p k a = word_cmp k a" if "a \<in> set as" for a using that assms(2) by (simp add: alloc_cmp_def)
  show "guides (alloc_cmp p k) as"
    using addrs.key_guides [OF assms(1), of k] unfolding guides_def
    by (rule sorted_wrt_mono_rel [rotated]) (simp add: c)
qed

lemma insert_alloc_ok:
  assumes "key_tree (\<lambda>a. a) (allocated_buffers p) as" "\<And>a. a \<in> set as \<Longrightarrow> \<not> b_free (bufs p a)"
    and "\<not> b_free (bufs p new)" "new \<notin> set as" "new \<noteq> 0" "aligned new"
  shows "\<exists>m as'. binder_insert_allocated_buffer new p = Some (p\<lparr>allocated_buffers := m\<rparr>)
    \<and> key_tree (\<lambda>a. a) m as' \<and> set as' = insert new (set as)"
proof -
  obtain t where t: "tree_rep (allocated_buffers p) t" "rbtree t" "inorder t = as" using assms(1) by (auto simp: key_tree_def)
  note g = alloc_guides [OF assms(1,2), where k = new, folded t(3)]
  have no: "a \<in> set (inorder t) \<Longrightarrow> alloc_cmp p new a \<noteq> 0" for a
    using g(2) [of a] assms(4) t(3) by (auto simp: addrs.cmp_eq)
  have "\<exists>m t' xs ys. binder_insert_allocated_buffer new p = Some (p\<lparr>allocated_buffers := m\<rparr>)
      \<and> tree_rep m t' \<and> rbtree t' \<and> inorder t = xs @ ys \<and> inorder t' = xs @ new # ys
      \<and> (\<forall>a \<in> set xs. alloc_cmp p new a > 0) \<and> (\<forall>a \<in> set ys. alloc_cmp p new a < 0)"
    using rb_lookup_insert [OF t(1,2) g(1) no assms(5,6), where put = "\<lambda>m. p\<lparr>allocated_buffers := m\<rparr>"] assms(3,4) t(3)
    by (simp only: binder_insert_allocated_buffer_def simp_thms if_False)
  then obtain m t' xs ys where r: "binder_insert_allocated_buffer new p = Some (p\<lparr>allocated_buffers := m\<rparr>)"
    "tree_rep m t'" "rbtree t'" "inorder t = xs @ ys" "inorder t' = xs @ new # ys"
    "\<forall>a \<in> set xs. alloc_cmp p new a > 0" "\<forall>a \<in> set ys. alloc_cmp p new a < 0" by blast
  have "sorted_wrt (<) (xs @ new # ys)"
    using assms(1) r(4,6,7) t(3) g(2) by (auto simp: key_tree_def sorted_wrt_append addrs.cmp_less addrs.cmp_greater)
  then show ?thesis using r t(3) by (intro exI [of _ m] exI [of _ "xs @ new # ys"]) (auto simp: key_tree_def)
qed

lemma buffer_lookup_ok:
  assumes "key_tree (\<lambda>a. a) (allocated_buffers p) as" "\<And>a. a \<in> set as \<Longrightarrow> \<not> b_free (bufs p a)"
  shows "binder_buffer_lookup user_ptr p
    = Some (let k = user_ptr - user_buffer_offset p - SIZEOF_BUFFER in if k \<in> set as then k else 0)"
proof -
  let ?k = "user_ptr - user_buffer_offset p - SIZEOF_BUFFER"
  obtain t where t: "tree_rep (allocated_buffers p) t" "inorder t = as" using assms(1) by (auto simp: key_tree_def)
  note g = alloc_guides [OF assms, where k = ?k]
  have "rb_root (allocated_buffers p) = ptr t" using t(1) by (simp add: tree_rep_def)
  then obtain n where n: "rb_find (alloc_cmp p ?k) (rb_root (allocated_buffers p)) (allocated_buffers p) = Some n"
    "if n = 0 then \<forall>a \<in> set as. alloc_cmp p ?k a \<noteq> 0 else n \<in> set as \<and> alloc_cmp p ?k n = 0"
    using rb_find_ok [of "allocated_buffers p" Top t "alloc_cmp p ?k"] t g(1) by (auto simp: place_ok_def)
  show ?thesis
  proof (cases "n = 0")
    case True
    then have "?k \<notin> set as" using n(2) g(2) [of ?k] by (auto simp: addrs.cmp_eq)
    then show ?thesis using n(1) True by (simp add: binder_buffer_lookup_def Let_def)
  next
    case False
    then have "n = ?k" "n \<in> set as" using n(2) g(2) [of n] by (auto simp: addrs.cmp_eq)
    then show ?thesis using n(1) False assms(2) by (simp add: binder_buffer_lookup_def Let_def)
  qed
qed

end
