(* ===== verification/Binder_Inv.thy ===== *)
theory Binder_Inv
  imports Binder_Buffers
begin

text \<open>
  The invariant of a buffer area and the steps of the operations on it: taking a free buffer,
  deleting the header of a free buffer behind a free buffer, merging with the neighbours.
\<close>

section \<open>The invariant\<close>

definition free_set :: "bproc \<Rightarrow> u32 set" where
  "free_set p = {b \<in> set (buffers p). b_free (bufs p b)}"

definition alloc_set :: "bproc \<Rightarrow> u32 set" where
  "alloc_set p = {b \<in> set (buffers p). \<not> b_free (bufs p b)}"

abbreviation buf_request :: "binder_buffer \<Rightarrow> u32" where
  "buf_request x \<equiv> request_size (b_data_size x) (b_offsets_size x)"

text \<open>The data and the offsets fit, and no sum of their sizes has wrapped.\<close>

definition fits :: "bproc \<Rightarrow> u32 \<Rightarrow> bool" where
  "fits p b \<longleftrightarrow> \<not> buf_request (bufs p b) < b_data_size (bufs p b) \<and> \<not> buf_request (bufs p b) < b_offsets_size (bufs p b)
     \<and> buf_request (bufs p b) \<le> binder_buffer_size p b"

definition free_tree :: "bproc \<Rightarrow> u32 set \<Rightarrow> bool" where
  "free_tree p S \<longleftrightarrow> (\<exists>fs. rb_nodes (free_buffers p) fs \<and> by_size p fs \<and> set fs = S)"

definition alloc_tree :: "bproc \<Rightarrow> u32 set \<Rightarrow> bool" where
  "alloc_tree p S \<longleftrightarrow> (\<exists>as. key_tree (\<lambda>a. a) (allocated_buffers p) as \<and> set as = S)"

definition pages_ok :: "bproc \<Rightarrow> bool" where
  "pages_ok p \<longleftrightarrow> (\<forall>q. there (pages p q) (used (base p) (stop p) (\<lambda>b. b_free (bufs p b)) (buffers p) q))"

definition async_cost :: "binder_buffer \<Rightarrow> nat" where
  "async_cost x = (if \<not> b_free x \<and> b_async_transaction x then unat (buf_request x) + 40 else 0)"

definition async_ok :: "bproc \<Rightarrow> bool" where
  "async_ok p \<longleftrightarrow> unat (free_async_space p) + sum_list (map (\<lambda>b. async_cost (bufs p b)) (buffers p))
     = unat (bp_buffer_size p) div 2"

definition coalesced :: "bproc \<Rightarrow> u32 list \<Rightarrow> bool" where
  "coalesced p = successively (\<lambda>a b. \<not> (b_free (bufs p a) \<and> b_free (bufs p b)))"

definition buf_inv :: "bproc \<Rightarrow> bool" where
  "buf_inv p \<longleftrightarrow> layout p \<and> free_tree p (free_set p) \<and> alloc_tree p (alloc_set p) \<and> pages_ok p
     \<and> async_ok p \<and> coalesced p (buffers p) \<and> (\<forall>b \<in> alloc_set p. fits p b)"

lemma size_upd [simp]:
  "binder_buffer_size (p\<lparr>bufs := x1\<rparr>) = binder_buffer_size p"
  "binder_buffer_size (p\<lparr>free_buffers := x2\<rparr>) = binder_buffer_size p"
  "binder_buffer_size (p\<lparr>allocated_buffers := x2\<rparr>) = binder_buffer_size p"
  "binder_buffer_size (p\<lparr>free_async_space := x3\<rparr>) = binder_buffer_size p"
  "binder_buffer_size (p\<lparr>pages := x4\<rparr>) = binder_buffer_size p"
  by (intro ext buffer_size_cong; simp)+

lemma by_size_upd [simp]:
  "by_size (p\<lparr>bufs := x1\<rparr>) = by_size p" "by_size (p\<lparr>free_buffers := x2\<rparr>) = by_size p"
  "by_size (p\<lparr>allocated_buffers := x2\<rparr>) = by_size p" "by_size (p\<lparr>free_async_space := x3\<rparr>) = by_size p"
  "by_size (p\<lparr>pages := x4\<rparr>) = by_size p"
  by (simp_all add: by_size_def)

lemma area_upd [simp]:
  "stop (p\<lparr>buffers := x\<rparr>) = stop p" "stop (p\<lparr>bufs := x1\<rparr>) = stop p" "stop (p\<lparr>free_buffers := x2\<rparr>) = stop p"
  "stop (p\<lparr>allocated_buffers := x2\<rparr>) = stop p" "stop (p\<lparr>free_async_space := x3\<rparr>) = stop p" "stop (p\<lparr>pages := x4\<rparr>) = stop p"
  "area_ok (p\<lparr>buffers := x\<rparr>) = area_ok p" "area_ok (p\<lparr>bufs := x1\<rparr>) = area_ok p" "area_ok (p\<lparr>free_buffers := x2\<rparr>) = area_ok p"
  "area_ok (p\<lparr>allocated_buffers := x2\<rparr>) = area_ok p" "area_ok (p\<lparr>free_async_space := x3\<rparr>) = area_ok p" "area_ok (p\<lparr>pages := x4\<rparr>) = area_ok p"
  by (simp_all add: stop_def area_ok_def)

lemma coalesced_append:
  "coalesced p (xs @ b # ys) \<longleftrightarrow> coalesced p xs \<and> coalesced p ys
     \<and> (xs = [] \<or> \<not> (b_free (bufs p (last xs)) \<and> b_free (bufs p b)))
     \<and> (ys = [] \<or> \<not> (b_free (bufs p b) \<and> b_free (bufs p (hd ys))))"
  unfolding coalesced_def by (cases ys) (auto simp: successively_append_iff successively_Cons)

lemma coalesced_cong: "(\<And>b. b \<in> set bs \<Longrightarrow> b_free (bufs p b) = b_free (bufs p' b)) \<Longrightarrow> coalesced p bs = coalesced p' bs"
  unfolding coalesced_def by (rule successively_cong) auto

section \<open>Deleting a header\<close>

lemma start_page:
  assumes "layout p" "b \<in> set (buffers p)"
  shows "buffer_start_page b = pgaddr p (down (base p) (unat b))"
    "buffer_end_page b = pgaddr p (down (base p) (unat b + 39))"
proof -
  obtain xs ys where s: "buffers p = xs @ b # ys" using assms(2) by (meson split_list)
  note l = layout_bounds [OF assms(1) s]
  have a: "area_ok p" using assms(1) by (simp add: layout_def)
  have "unat (b + SIZEOF_BUFFER - 1) = unat b + 39"
    using l(4) by (simp add: SIZEOF_BUFFER_def unat_word_ariths)
  then show "buffer_end_page b = pgaddr p (down (base p) (unat b + 39))"
    using page_align_pgaddr(2) [OF a, of "b + SIZEOF_BUFFER - 1"] l unfolding buffer_end_page_def by simp
  show "buffer_start_page b = pgaddr p (down (base p) (unat b))"
    using page_align_pgaddr(2) [OF a, of b] l unfolding buffer_start_page_def by simp
qed

lemma down_bound: "base p \<le> x \<Longrightarrow> x < 2 ^ 32 \<Longrightarrow> base p + 4096 * down (base p) x < 2 ^ 32"
  using times_div_less_eq_dividend [of 4096 "x - base p"] by (simp add: down_def)

lemma pgaddr_inj:
  assumes "base p + 4096 * q < 2 ^ 32" "base p + 4096 * r < 2 ^ 32"
  shows "pgaddr p q = pgaddr p r \<longleftrightarrow> q = r"
proof
  assume "pgaddr p q = pgaddr p r"
  then have "unat (pgaddr p q) = unat (pgaddr p r)" by (rule arg_cong)
  then have "base p + 4096 * q = base p + 4096 * r" unfolding unat_pgaddr [OF assms(1)] unat_pgaddr [OF assms(2)] .
  then show "q = r" by simp
qed (rule arg_cong)

text \<open>Which of the pages of a header go when it is deleted: \<open>s\<close> and \<open>t\<close> are its first and last page, \<open>u\<close>
  is the last page of the header before it, \<open>v\<close> the first page of the header after it.\<close>

lemma delete_pages:
  fixes s t u :: nat
  assumes "s \<le> t" "t \<le> s + 1" "u \<le> s" and v: "\<And>n. v = Some n \<Longrightarrow> t \<le> n"
    and fps: "fps = (u \<noteq> s \<and> \<not> (v = Some t \<and> v = Some s))" and fpe: "fpe = (\<not> (u = s \<and> u = t) \<and> v \<noteq> Some t)"
  shows "(fps \<or> fpe) \<and> (if fps then s else t) \<le> q \<and> q < Suc (if fpe then t else s)
    \<longleftrightarrow> s \<le> q \<and> q \<le> t \<and> u < q \<and> (\<forall>n. v = Some n \<longrightarrow> q < n)"
proof -
  have ts: "t = s \<or> t = Suc s" using assms(1,2) by auto
  have us: "u < s \<or> u = s" using assms(3) by auto
  have nt: "n = t \<or> t < n" if "v = Some n" for n using v [OF that] by auto
  show ?thesis
  proof (cases v)
    case None
    from ts us show ?thesis unfolding fps fpe None by (elim disjE) auto
  next
    case (Some n)
    from ts us nt [OF Some] show ?thesis unfolding fps fpe Some by (elim disjE) auto
  qed
qed

lemma hdr_page_down:
  assumes "a \<le> unat b"
  shows "hdr_page a b q \<longleftrightarrow> down a (unat b) \<le> q \<and> q \<le> down a (unat b + 39)"
  using down_le [OF assms, of q] down_less [of a "unat b + 39" "q - 1"] assms
  by (cases q) (auto simp: hdr_page_def Suc_le_eq)

lemma down_mono: "x \<le> y \<Longrightarrow> down a x \<le> down a y"
  by (simp add: down_def div_le_mono)

lemma down_39: "down a (x + 39) \<le> down a x + 1"
  unfolding down_def using div_le_mono [of "x + 39 - a" "x - a + 4096" 4096] by simp

lemma down_stop:
  assumes "area_ok p" "base p \<le> x" "x < stop p"
  shows "base p + 4096 * Suc (down (base p) x) \<le> stop p"
proof -
  obtain k where k: "stop p = base p + 4096 * k" using area_stop(5) [OF assms(1)] by blast
  then have "down (base p) x < k" using down_le [OF assms(2), of "k - 1"] assms(2,3) by (cases k) auto
  then show ?thesis using k by simp
qed

text \<open>The whole of \<open>binder_delete_free_buffer\<close>, behind a free buffer \<open>f\<close>.\<close>

lemma delete_ok:
  assumes l: "layout p" and pg: "pages_ok p" and bs: "buffers p = xs @ f # b # ys"
    and fr: "b_free (bufs p f)" "b_free (bufs p b)"
  shows "\<exists>g. binder_delete_free_buffer env b p = Some (p\<lparr>buffers := xs @ f # ys, pages := g\<rparr>)
    \<and> pages_ok (p\<lparr>buffers := xs @ f # ys, pages := g\<rparr>)"
proof -
  let ?a = "base p" and ?e = "stop p"
  let ?fr = "\<lambda>b. b_free (bufs p b)"
  have ar: "area_ok p" and c: "chain ?e (xs @ f # b # ys)" using l bs by (simp_all add: layout_def)
  have bs': "buffers p = (xs @ [f]) @ b # ys" using bs by simp
  note lf = layout_bounds [OF l bs] and lb = layout_bounds [OF l bs']
  have fb: "unat f + 40 \<le> unat b" using c by (simp add: chain_append)
  define s where "s = down ?a (unat b)"
  define t where "t = down ?a (unat b + 39)"
  define u where "u = down ?a (unat f + 39)"
  define v where "v = (case ys of [] \<Rightarrow> None | n # _ \<Rightarrow> Some (down ?a (unat n)))"
  have st: "s \<le> t" "t \<le> s + 1" "u \<le> s" unfolding s_def t_def u_def using fb down_39 [of ?a "unat b"] by (simp_all add: down_mono)
  have vt: "t \<le> n" if "v = Some n" for n
    using that lb(2) by (auto simp: v_def t_def split: list.splits intro: down_mono)
  have bnd: "?a + 4096 * s < 2 ^ 32" "?a + 4096 * t < 2 ^ 32" "?a + 4096 * u < 2 ^ 32"
    unfolding s_def t_def u_def using lf(1,4) lb(1,4) by (intro down_bound; simp)+
  have bndv: "?a + 4096 * n < 2 ^ 32" if "v = Some n" for n
  proof (cases ys)
    case (Cons x zs)
    then have "n = down ?a (unat x)" "?a \<le> unat x" using that lb(1,2) by (simp_all add: v_def)
    then show ?thesis using down_bound [of p "unat x"] unsigned_less [of x, where 'a = nat] by simp
  qed (use that in \<open>simp add: v_def\<close>)
  have pgs: "buffer_end_page f = pgaddr p u" "buffer_start_page b = pgaddr p s" "buffer_end_page b = pgaddr p t"
    "\<And>n zs. ys = n # zs \<Longrightarrow> buffer_start_page n = pgaddr p (down ?a (unat n)) \<and> v = Some (down ?a (unat n))"
    using start_page [OF l, of f] start_page [OF l, of b] start_page [OF l] bs by (auto simp: s_def t_def u_def v_def)
  define fps where "fps = (u \<noteq> s \<and> \<not> (v = Some t \<and> v = Some s))"
  define fpe where "fpe = (\<not> (u = s \<and> u = t) \<and> v \<noteq> Some t)"
  let ?p = "p\<lparr>buffers := xs @ f # ys\<rparr>"
  have prev: "list_prev (buffers p) b = Some f" and rem: "remove1 b (buffers p) = xs @ f # ys"
    using list_prev_split [OF lb(6), of "xs @ [f]"] lb(5) by (simp_all add: bs remove1_append)
  have nxt: "list_next (buffers p) b = (case ys of [] \<Rightarrow> None | n # _ \<Rightarrow> Some n)"
    using list_next_split [OF lb(5), of ys] by (simp add: bs)
  note inj = pgaddr_inj [OF bnd(3,1)] pgaddr_inj [OF bnd(3,2)] pgaddr_inj [OF bnd(2,1)]
  have del: "binder_delete_free_buffer env b p = (if fps \<or> fpe then map_option fst (binder_update_page_range env False
      (pgaddr p (if fps then s else t)) (pgaddr p (Suc (if fpe then t else s))) False ?p) else Some ?p)"
  proof (cases ys)
    case Nil
    then have "v = None" by (simp add: v_def)
    then show ?thesis
      unfolding binder_delete_free_buffer_def prev nxt rem fps_def fpe_def
      by (simp add: Nil fr pgs(1-3) inj pgaddr_Suc(1) Let_def)
  next
    case (Cons n zs)
    then have v: "v = Some (down ?a (unat n))" and n: "buffer_start_page n = pgaddr p (down ?a (unat n))" using pgs(4) by blast+
    note inj' = pgaddr_inj [OF bndv [OF v] bnd(1)] pgaddr_inj [OF bndv [OF v] bnd(2)]
    show ?thesis
      unfolding binder_delete_free_buffer_def prev nxt rem fps_def fpe_def v
      by (simp add: Cons fr pgs(1-3) n inj inj' pgaddr_Suc(1) Let_def)
  qed
  let ?lo = "if fps then s else t" and ?hi = "if fpe then t else s"
  have gone: "(fps \<or> fpe) \<and> ?lo \<le> q \<and> q < Suc ?hi
      \<longleftrightarrow> hdr_page ?a b q \<and> \<not> hdr_page ?a f q \<and> (ys = [] \<or> \<not> hdr_page ?a (hd ys) q)" for q
  proof -
    have "hdr_page ?a f q \<longleftrightarrow> q \<le> u" if "s \<le> q"
      using that st(3) down_mono [of "unat f" "unat f + 39" ?a] hdr_page_down [OF lf(1), of q] by (auto simp: u_def)
    moreover have "(ys = [] \<or> \<not> hdr_page ?a (hd ys) q) \<longleftrightarrow> (\<forall>n. v = Some n \<longrightarrow> q < n)" if "q \<le> t"
    proof (cases ys)
      case (Cons n zs)
      then have "v = Some (down ?a (unat n))" "?a \<le> unat n" using pgs(4) lb(1,2) by auto
      then show ?thesis
        using that vt hdr_page_down [of ?a n q] down_mono [of "unat n" "unat n + 39" ?a] Cons by fastforce
    qed (simp add: v_def)
    moreover have "hdr_page ?a b q \<longleftrightarrow> s \<le> q \<and> q \<le> t" unfolding s_def t_def by (rule hdr_page_down [OF lb(1)])
    moreover have "(fps \<or> fpe) \<and> ?lo \<le> q \<and> q < Suc ?hi
        \<longleftrightarrow> s \<le> q \<and> q \<le> t \<and> u < q \<and> (\<forall>n. v = Some n \<longrightarrow> q < n)"
      by (rule delete_pages [OF st vt fps_def fpe_def])
    ultimately show ?thesis by (metis not_le)
  qed
  have um: "used ?a ?e ?fr (xs @ f # ys) q \<longleftrightarrow> used ?a ?e ?fr (xs @ f # b # ys) q
      \<and> \<not> ((fps \<or> fpe) \<and> ?lo \<le> q \<and> q < Suc ?hi)" for q
    unfolding gone using used_merge [of ?e xs f b ys ?fr ?a q] c fr by simp
  have old: "there (pages p q) (used ?a ?e ?fr (xs @ f # b # ys) q)" for q using pg bs by (simp add: pages_ok_def)
  show ?thesis
  proof (cases "fps \<or> fpe")
    case False
    then show ?thesis
      using del um old unfolding pages_ok_def by (intro exI [of _ "pages p"]) simp
  next
    case True
    have "?a + 4096 * Suc t \<le> ?e" using down_stop [OF ar, of "unat b + 39"] lb(1,2,3) by (simp add: t_def)
    then have hl: "?a + 4096 * ?lo \<le> ?e" "?a + 4096 * Suc ?hi \<le> ?e" using st by (simp_all split: if_split)
    have "\<exists>g ok. binder_update_page_range env False (pgaddr ?p ?lo) (pgaddr ?p (Suc ?hi)) False ?p = Some (?p\<lparr>pages := g\<rparr>, ok)
        \<and> (\<forall>q. if ?lo \<le> q \<and> q < Suc ?hi then there (g q) False else g q = pages ?p q)"
      by (rule drop_pages) (use ar hl in simp_all)
    then obtain g ok where g: "binder_update_page_range env False (pgaddr p ?lo) (pgaddr p (Suc ?hi)) False ?p = Some (?p\<lparr>pages := g\<rparr>, ok)"
      "\<forall>q. if ?lo \<le> q \<and> q < Suc ?hi then there (g q) False else g q = pages p q" by auto
    have "there (g q) (used ?a ?e ?fr (xs @ f # ys) q)" for q
      using g(2) [rule_format, of q] old [of q] um [of q] True by (simp split: if_split_asm)
    then show ?thesis using del g(1) True unfolding pages_ok_def by (intro exI [of _ g]) simp
  qed
qed

end
