(* ===== verification/Binder_Free.thy ===== *)
theory Binder_Free
  imports Binder_Inv
begin

text \<open>
  \<open>binder_free_buf\<close> keeps the invariant of the buffer area: the pages inside the buffer go, the buffer
  becomes free and is merged with its free neighbours.
\<close>

section \<open>Merging\<close>

text \<open>The state between the steps of \<open>binder_free_buf\<close>: the free buffer \<open>b\<close> is not in the tree yet and may
  have free neighbours.\<close>

definition merging :: "bproc \<Rightarrow> u32 list \<Rightarrow> u32 \<Rightarrow> u32 list \<Rightarrow> bool" where
  "merging p xs b ys \<longleftrightarrow> buffers p = xs @ b # ys \<and> layout p \<and> b_free (bufs p b) \<and> free_tree p (free_set p - {b})
     \<and> alloc_tree p (alloc_set p) \<and> pages_ok p \<and> async_ok p \<and> coalesced p xs \<and> coalesced p ys
     \<and> (\<forall>a \<in> alloc_set p. fits p a)"

lemma layout_remove:
  assumes "layout p" "buffers p = xs @ f # b # ys"
  shows "layout (p\<lparr>buffers := xs @ f # ys\<rparr>)"
proof -
  have "chain (stop p) (xs @ f # b # ys)" using assms by (simp add: layout_def)
  then have "chain (stop p) (xs @ f # ys)" using chain_append [of "stop p" xs f] by auto
  then show ?thesis using assms by (cases xs) (auto simp: layout_def)
qed

lemma size_remove:
  assumes "layout p" "buffers p = xs @ f # b # ys" "a \<noteq> f" "a \<noteq> b"
  shows "binder_buffer_size (p\<lparr>buffers := xs @ f # ys\<rparr>) a = binder_buffer_size p a"
proof (rule buffer_size_cong)
  have "distinct (xs @ f # b # ys)" using assms(1,2) chain_distinct by (metis layout_def)
  then show "list_next (buffers (p\<lparr>buffers := xs @ f # ys\<rparr>)) a = list_next (buffers p) a"
    using list_next_other [of xs f b ys a] assms by simp
qed simp_all

lemma merge_step:
  assumes l: "layout p" and bs: "buffers p = xs @ f # b # ys" and fr: "b_free (bufs p f)" "b_free (bufs p b)"
    and ft: "free_tree p (free_set p - {c})" and cd: "{c, d} = {f, b}"
    and rest: "alloc_tree p (alloc_set p)" "async_ok p" "coalesced p xs" "coalesced p ys" "\<forall>a \<in> alloc_set p. fits p a"
  shows "\<exists>m. rb_erase d (free_buffers p) = Some m
    \<and> (\<forall>g. pages_ok (p\<lparr>buffers := xs @ f # ys, pages := g\<rparr>)
         \<longrightarrow> merging (p\<lparr>buffers := xs @ f # ys, pages := g, free_buffers := m\<rparr>) xs f ys)"
proof -
  have dist: "distinct (xs @ f # b # ys)" using l bs chain_distinct by (metis layout_def)
  have d: "d \<in> free_set p - {c}" "d \<noteq> c"
    using cd bs fr dist by (auto simp: free_set_def doubleton_eq_iff)
  obtain fs where fs: "rb_nodes (free_buffers p) fs" "by_size p fs" "set fs = free_set p - {c}"
    using ft by (auto simp: free_tree_def)
  then obtain m where m: "rb_erase d (free_buffers p) = Some m" "rb_nodes m (remove1 d fs)"
    using rb_nodes_erase [of _ fs d] d by auto
  have set: "set (remove1 d fs) = free_set p - {f, b}"
    using rb_nodes_distinct [OF fs(1)] fs(3) cd by auto
  have "merging (p\<lparr>buffers := xs @ f # ys, pages := g, free_buffers := m\<rparr>) xs f ys"
    if pg: "pages_ok (p\<lparr>buffers := xs @ f # ys, pages := g\<rparr>)" for g
  proof -
    let ?q = "p\<lparr>buffers := xs @ f # ys\<rparr>"
    let ?p = "p\<lparr>buffers := xs @ f # ys, pages := g, free_buffers := m\<rparr>"
    have sz: "binder_buffer_size ?p a = binder_buffer_size p a" if "a \<noteq> f" "a \<noteq> b" for a
      using size_remove [OF l bs that] by simp
    have free: "free_set ?p - {f} = free_set p - {f, b}" and al: "alloc_set ?p = alloc_set p"
      using bs fr dist by (auto simp: free_set_def alloc_set_def)
    have "by_size ?p (remove1 d fs)"
      using by_size_cong [of "remove1 d fs" ?p p] sz by_size_remove [OF fs(2), of d] set by auto
    then have "free_tree ?p (free_set ?p - {f})"
      using m(2) set free unfolding free_tree_def by (intro exI [of _ "remove1 d fs"]) simp
    moreover have "alloc_tree ?p (alloc_set ?p)" using rest(1) al by (simp add: alloc_tree_def)
    moreover have "async_ok ?p" using rest(2) bs fr by (simp add: async_ok_def async_cost_def)
    moreover have "fits ?p a" if a: "a \<in> alloc_set ?p" for a
    proof -
      have "a \<in> alloc_set p" "a \<noteq> f" "a \<noteq> b" using a al fr by (auto simp: alloc_set_def)
      then show ?thesis using rest(5) sz [of a] by (simp add: fits_def)
    qed
    moreover have "layout ?p" using layout_remove [OF l bs] by (simp add: layout_def)
    moreover have "pages_ok ?p" using pg by (simp add: pages_ok_def)
    ultimately show ?thesis using rest(3,4) fr by (simp add: merging_def coalesced_def)
  qed
  then show ?thesis using m(1) by blast
qed

text \<open>What merging leaves as it was: the buffers' headers, the allocated buffers, the area.\<close>

definition same_alloc :: "bproc \<Rightarrow> bproc \<Rightarrow> bool" where
  "same_alloc p p' \<longleftrightarrow> bufs p' = bufs p \<and> alloc_set p' = alloc_set p \<and> bp_buffer p' = bp_buffer p
     \<and> bp_buffer_size p' = bp_buffer_size p \<and> bp_vma p' = bp_vma p \<and> user_buffer_offset p' = user_buffer_offset p
     \<and> free_async_space p' = free_async_space p"

lemma merge_next_ok:
  assumes "merging p xs b ys"
  shows "\<exists>p' zs. merge_next env b p = Some p' \<and> merging p' xs b zs \<and> (zs = [] \<or> \<not> b_free (bufs p (hd zs))) \<and> same_alloc p p'"
proof -
  have l: "layout p" and bs: "buffers p = xs @ b # ys" and fr: "b_free (bufs p b)" using assms by (simp_all add: merging_def)
  have nxt: "list_next (buffers p) b = (case ys of [] \<Rightarrow> None | n # _ \<Rightarrow> Some n)"
    using list_next_split [OF layout_bounds(5) [OF l bs]] bs by simp
  show ?thesis
  proof (cases "ys \<noteq> [] \<and> b_free (bufs p (hd ys))")
    case False
    then have "merge_next env b p = Some p" by (cases ys) (auto simp: merge_next_def nxt)
    then show ?thesis using False assms by (intro exI [of _ p] exI [of _ ys]) (auto simp: same_alloc_def)
  next
    case True
    then obtain n zs where ys: "ys = n # zs" and n: "b_free (bufs p n)" by (cases ys) auto
    have bs': "buffers p = xs @ b # n # zs" using bs ys by simp
    have cz: "coalesced p zs" "zs = [] \<or> \<not> b_free (bufs p (hd zs))"
      using assms n coalesced_append [of p "[]" n zs] by (auto simp: merging_def ys)
    obtain m where m: "rb_erase n (free_buffers p) = Some m"
      "\<forall>g. pages_ok (p\<lparr>buffers := xs @ b # zs, pages := g\<rparr>)
         \<longrightarrow> merging (p\<lparr>buffers := xs @ b # zs, pages := g, free_buffers := m\<rparr>) xs b zs"
      using merge_step [OF l bs' fr n, of b n] assms cz(1) unfolding merging_def by auto
    let ?p = "p\<lparr>free_buffers := m\<rparr>"
    have "layout ?p" "pages_ok ?p" using l assms by (auto simp: layout_def merging_def pages_ok_def)
    then obtain g where g: "binder_delete_free_buffer env n ?p = Some (?p\<lparr>buffers := xs @ b # zs, pages := g\<rparr>)"
      "pages_ok (?p\<lparr>buffers := xs @ b # zs, pages := g\<rparr>)"
      using delete_ok [of ?p xs b n zs env] bs' fr n by auto
    have "merge_next env b p = Some (p\<lparr>buffers := xs @ b # zs, pages := g, free_buffers := m\<rparr>)"
      using g(1) m(1) n by (simp add: merge_next_def nxt ys)
    moreover have "pages_ok (p\<lparr>buffers := xs @ b # zs, pages := g\<rparr>)" using g(2) by (simp add: pages_ok_def)
    moreover have "alloc_set (p\<lparr>buffers := xs @ b # zs, pages := g, free_buffers := m\<rparr>) = alloc_set p"
      using bs' n by (auto simp: alloc_set_def)
    ultimately show ?thesis using m(2) cz(2) by (intro exI conjI) (assumption, auto simp: same_alloc_def)
  qed
qed

lemma merge_prev_ok:
  assumes "merging p xs b ys"
  shows "\<exists>p' zs b'. merge_prev env b p = Some (p', b') \<and> merging p' zs b' ys \<and> (zs = [] \<or> \<not> b_free (bufs p (last zs))) \<and> same_alloc p p'"
proof -
  have l: "layout p" and bs: "buffers p = xs @ b # ys" and fr: "b_free (bufs p b)" using assms by (simp_all add: merging_def)
  have prv: "list_prev (buffers p) b = (if xs = [] then None else Some (last xs))"
    using list_prev_split [OF layout_bounds(6) [OF l bs]] bs by simp
  show ?thesis
  proof (cases "xs \<noteq> [] \<and> b_free (bufs p (last xs))")
    case False
    then have "merge_prev env b p = Some (p, b)" by (auto simp: merge_prev_def prv)
    then show ?thesis using False assms by (intro exI [of _ p] exI [of _ xs] exI [of _ b]) (auto simp: same_alloc_def)
  next
    case True
    then obtain zs f where xs: "xs = zs @ [f]" and f: "b_free (bufs p f)" by (cases xs rule: rev_cases) auto
    have bs': "buffers p = zs @ f # b # ys" using bs xs by simp
    have cz: "coalesced p zs" "zs = [] \<or> \<not> b_free (bufs p (last zs))"
      using assms f coalesced_append [of p zs f "[]"] by (auto simp: merging_def xs)
    obtain m where m: "rb_erase f (free_buffers p) = Some m"
      "\<forall>g. pages_ok (p\<lparr>buffers := zs @ f # ys, pages := g\<rparr>)
         \<longrightarrow> merging (p\<lparr>buffers := zs @ f # ys, pages := g, free_buffers := m\<rparr>) zs f ys"
      using merge_step [OF l bs' f fr, of b f] assms cz(1) unfolding merging_def by auto
    have "pages_ok p" using assms by (simp add: merging_def)
    then obtain g where g: "binder_delete_free_buffer env b p = Some (p\<lparr>buffers := zs @ f # ys, pages := g\<rparr>)"
      "pages_ok (p\<lparr>buffers := zs @ f # ys, pages := g\<rparr>)"
      using delete_ok [OF l _ bs' f fr, of env] by auto
    have "merge_prev env b p = Some (p\<lparr>buffers := zs @ f # ys, pages := g, free_buffers := m\<rparr>, f)"
      using g(1) m(1) f by (simp add: merge_prev_def prv xs)
    moreover have "alloc_set (p\<lparr>buffers := zs @ f # ys, pages := g, free_buffers := m\<rparr>) = alloc_set p"
      using bs' f fr by (auto simp: alloc_set_def)
    ultimately show ?thesis using m(2) g(2) cz(2) by (intro exI conjI) (assumption, auto simp: same_alloc_def)
  qed
qed

section \<open>The whole operation\<close>

text \<open>The pages inside a buffer, as the code computes them.\<close>

lemma inner_pages:
  assumes "layout p" "buffers p = xs @ b # ys"
  defines "i \<equiv> up (base p) (unat b + 40)" and "j \<equiv> down (base p) (head_or (stop p) ys)"
  shows "PAGE_ALIGN (buf_data b) = pgaddr p i" "(buf_data b + binder_buffer_size p b) AND PAGE_MASK = pgaddr p j"
    "base p + 4096 * i \<le> stop p" "base p + 4096 * j \<le> stop p"
    "i \<le> q \<and> q < j \<longleftrightarrow> in_page (base p) (unat b + 40) (head_or (stop p) ys) q"
proof -
  note l = layout_bounds [OF assms(1,2)] and sz = buffer_size_unat [OF assms(1,2)]
  have a: "area_ok p" using assms(1) by (simp add: layout_def)
  show "PAGE_ALIGN (buf_data b) = pgaddr p i" "(buf_data b + binder_buffer_size p b) AND PAGE_MASK = pgaddr p j"
    using page_align_pgaddr(1) [OF a, of "buf_data b"] page_align_pgaddr(2) [OF a, of "buf_data b + binder_buffer_size p b"]
      l sz by (simp_all add: i_def j_def)
  obtain k where k: "stop p = base p + 4096 * k" using area_stop(5) [OF a] by blast
  have "i \<le> k" using up_le [of "base p" "unat b + 40" k] l k unfolding i_def by simp
  then show "base p + 4096 * i \<le> stop p" using k by simp
  show "base p + 4096 * j \<le> stop p"
    using times_div_less_eq_dividend [of 4096 "head_or (stop p) ys - base p"] l(1-3) by (simp add: j_def down_def)
  show "i \<le> q \<and> q < j \<longleftrightarrow> in_page (base p) (unat b + 40) (head_or (stop p) ys) q"
    using up_le [of "base p" "unat b + 40" q] down_less [of "base p" "head_or (stop p) ys" q] l(1,2)
    by (simp add: i_def j_def in_page_def)
qed

lemma async_give_back:
  assumes "async_ok p" "buffers p = xs @ b # ys" "\<not> b_free (bufs p b)"
    and fas: "fas = (if b_async_transaction (bufs p b) then free_async_space p + (buf_request (bufs p b) + SIZEOF_BUFFER)
      else free_async_space p)"
    and fits: "unat (buf_request (bufs p b)) + 40 < 2 ^ 32" and b: "b \<notin> set xs" "b \<notin> set ys"
  shows "async_ok (p\<lparr>free_async_space := fas, bufs := (bufs p)(b := (bufs p b)\<lparr>b_free := True\<rparr>)\<rparr>)"
proof -
  let ?S = "\<lambda>zs. sum_list (map (\<lambda>a. async_cost (bufs p a)) zs)"
  have eq: "unat (free_async_space p) + (?S xs + async_cost (bufs p b) + ?S ys) = unat (bp_buffer_size p) div 2"
    using assms(1,2) by (simp add: async_ok_def)
  have lt: "unat (bp_buffer_size p) < 2 ^ 32" using unsigned_less [of "bp_buffer_size p", where 'a = nat] by simp
  have r: "unat (buf_request (bufs p b) + SIZEOF_BUFFER) = unat (buf_request (bufs p b)) + 40"
    using fits by (simp add: SIZEOF_BUFFER_def unat_word_ariths)
  have "unat fas = unat (free_async_space p) + async_cost (bufs p b)"
  proof (cases "b_async_transaction (bufs p b)")
    case True
    then have c: "async_cost (bufs p b) = unat (buf_request (bufs p b)) + 40" using assms(3) by (simp add: async_cost_def)
    then have "unat (free_async_space p) + (unat (buf_request (bufs p b)) + 40) < 2 ^ 32" using eq lt by linarith
    then show ?thesis using True c r by (simp add: fas unat_word_ariths(1))
  qed (simp add: fas async_cost_def)
  moreover have "sum_list (map (\<lambda>a. async_cost (((bufs p)(b := (bufs p b)\<lparr>b_free := True\<rparr>)) a)) zs) = ?S zs"
    if "b \<notin> set zs" for zs using that by (induction zs) auto
  moreover have "async_cost ((bufs p b)\<lparr>b_free := True\<rparr>) = 0" by (simp add: async_cost_def)
  ultimately show ?thesis using eq b assms(2) by (simp add: async_ok_def fun_upd_same del: fun_upd_apply)
qed

text \<open>After the pages are given back and the buffer has left the tree of allocated buffers.\<close>

lemma free_start:
  assumes inv: "buf_inv p" and b: "b \<in> alloc_set p" and bs: "buffers p = xs @ b # ys"
  defines "sz \<equiv> buf_request (bufs p b)"
  defines "p1 \<equiv> if b_async_transaction (bufs p b) then p\<lparr>free_async_space := free_async_space p + (sz + SIZEOF_BUFFER)\<rparr> else p"
  shows "\<exists>p2 ok m. binder_update_page_range env False (PAGE_ALIGN (buf_data b)) ((buf_data b + binder_buffer_size p b) AND PAGE_MASK) False p1
      = Some (p2, ok) \<and> rb_erase b (allocated_buffers p2) = Some m
    \<and> (let q = upd_buf b (\<lambda>x. x\<lparr>b_free := True\<rparr>) (p2\<lparr>allocated_buffers := m\<rparr>) in merging q xs b ys
      \<and> bufs q = (bufs p)(b := (bufs p b)\<lparr>b_free := True\<rparr>) \<and> alloc_set q = alloc_set p - {b} \<and> bp_buffer q = bp_buffer p
      \<and> bp_buffer_size q = bp_buffer_size p \<and> bp_vma q = bp_vma p \<and> user_buffer_offset q = user_buffer_offset p)"
proof -
  have l: "layout p" and nf: "\<not> b_free (bufs p b)" using inv b by (simp_all add: buf_inv_def alloc_set_def)
  note lb = layout_bounds [OF l bs] and ip = inner_pages [OF l bs]
  have ar: "area_ok p" using l by (simp add: layout_def)
  define fas where "fas = (if b_async_transaction (bufs p b) then free_async_space p + (sz + SIZEOF_BUFFER) else free_async_space p)"
  have p1: "p1 = p\<lparr>free_async_space := fas\<rparr>" by (simp add: p1_def fas_def)
  let ?i = "up (base p) (unat b + 40)" and ?j = "down (base p) (head_or (stop p) ys)"
  have "\<exists>g ok. binder_update_page_range env False (pgaddr p1 ?i) (pgaddr p1 ?j) False p1 = Some (p1\<lparr>pages := g\<rparr>, ok)
      \<and> (\<forall>q. if ?i \<le> q \<and> q < ?j then there (g q) False else g q = pages p1 q)"
    by (rule drop_pages) (use ar ip(3,4) in \<open>simp_all add: p1\<close>)
  then obtain g ok where g: "binder_update_page_range env False (pgaddr p ?i) (pgaddr p ?j) False p1 = Some (p1\<lparr>pages := g\<rparr>, ok)"
    and gq: "\<forall>q. if ?i \<le> q \<and> q < ?j then there (g q) False else g q = pages p q" by (auto simp: p1)
  obtain as where as: "key_tree (\<lambda>a. a) (allocated_buffers p) as" "set as = alloc_set p"
    using inv by (auto simp: buf_inv_def alloc_tree_def)
  then obtain us vs where uv: "as = us @ b # vs" using b by (metis split_list)
  then obtain m where m: "rb_erase b (allocated_buffers p) = Some m" "key_tree (\<lambda>a. a) m (us @ vs)"
    using key_tree_erase [of "\<lambda>a. a" "allocated_buffers p" us b vs] as(1) by auto
  have uvset: "set (us @ vs) = alloc_set p - {b}"
    using as uv key_tree_unique [OF as(1)] by (auto simp: key_tree_def sorted_wrt_append)
  define q where "q = upd_buf b (\<lambda>x. x\<lparr>b_free := True\<rparr>) (p1\<lparr>pages := g, allocated_buffers := m\<rparr>)"
  have q: "q = p\<lparr>free_async_space := fas, pages := g, allocated_buffers := m, bufs := (bufs p)(b := (bufs p b)\<lparr>b_free := True\<rparr>)\<rparr>"
    by (simp add: q_def upd_buf_def p1)
  have sets: "free_set q - {b} = free_set p" "alloc_set q = alloc_set p - {b}"
    using nf by (auto simp: q free_set_def alloc_set_def)
  have "pages_ok q"
    unfolding pages_ok_def
  proof
    fix n
    let ?fr = "\<lambda>a. b_free (bufs q a)" and ?fr' = "\<lambda>a. b_free (bufs p a)"
    have c: "chain (stop p) (xs @ b # ys)" using l bs by (simp add: layout_def)
    have "used (base p) (stop p) ?fr (xs @ b # ys) n \<longleftrightarrow>
        used (base p) (stop p) ?fr' (xs @ b # ys) n \<and> \<not> in_page (base p) (unat b + 40) (head_or (stop p) ys) n"
      by (rule used_toggle(2) [OF c]) (use lb(5,6) nf in \<open>auto simp: q\<close>)
    moreover have "there (pages p n) (used (base p) (stop p) ?fr' (xs @ b # ys) n)"
      using inv bs by (simp add: buf_inv_def pages_ok_def)
    ultimately show "there (pages q n) (used (base q) (stop q) ?fr (buffers q) n)"
      using gq [rule_format, of n] ip(5) [of n] bs by (simp add: q split: if_split_asm)
  qed
  moreover have "async_ok q"
  proof -
    have "fits p b" using inv b by (simp add: buf_inv_def)
    then have "unat sz \<le> unat (binder_buffer_size p b)" by (simp add: fits_def sz_def word_le_nat_alt)
    then have "unat sz + 40 < 2 ^ 32" using buffer_size_unat(1) [OF l bs] lb(3) area_stop(2) [OF ar] by simp
    then have "async_ok (p\<lparr>free_async_space := fas, bufs := (bufs p)(b := (bufs p b)\<lparr>b_free := True\<rparr>)\<rparr>)"
      using inv by (intro async_give_back [OF _ bs nf _ _ lb(5,6)]) (simp_all add: buf_inv_def fas_def sz_def)
    then show ?thesis by (simp add: async_ok_def q)
  qed
  moreover have "coalesced q xs" "coalesced q ys"
  proof -
    have "coalesced p xs \<and> coalesced p ys" using inv coalesced_append [of p xs b ys] by (simp add: buf_inv_def bs)
    moreover have "coalesced q xs = coalesced p xs" "coalesced q ys = coalesced p ys"
      using lb(5,6) by (intro coalesced_cong; auto simp: q)+
    ultimately show "coalesced q xs" "coalesced q ys" by simp_all
  qed
  moreover have "free_tree q (free_set q - {b})" "alloc_tree q (alloc_set q)"
    using inv m(2) uvset unfolding sets by (auto simp: buf_inv_def free_tree_def alloc_tree_def q)
  moreover have "fits q a" if "a \<in> alloc_set q" for a
  proof -
    have "fits p a" "a \<noteq> b" using that inv sets(2) by (auto simp: buf_inv_def)
    then show ?thesis by (simp add: fits_def q)
  qed
  moreover have "layout q" using l by (simp add: layout_def q)
  ultimately have "merging q xs b ys" using bs by (simp add: merging_def q)
  then show ?thesis
    using g m(1) sets(2) q_def q ip(1,2) by (intro exI [of _ "p1\<lparr>pages := g\<rparr>"] exI [of _ ok] exI [of _ m]) (simp add: p1 upd_buf_def Let_def)
qed

lemma merging_insert:
  assumes "merging p xs b ys" "xs = [] \<or> \<not> b_free (bufs p (last xs))" "ys = [] \<or> \<not> b_free (bufs p (hd ys))"
  shows "\<exists>m. binder_insert_free_buffer b p = Some (p\<lparr>free_buffers := m\<rparr>) \<and> buf_inv (p\<lparr>free_buffers := m\<rparr>)"
proof -
  have l: "layout p" and bs: "buffers p = xs @ b # ys" and fr: "b_free (bufs p b)" using assms(1) by (simp_all add: merging_def)
  obtain fs where fs: "rb_nodes (free_buffers p) fs" "by_size p fs" "set fs = free_set p - {b}"
    using assms(1) by (auto simp: merging_def free_tree_def)
  have "\<exists>m fs'. binder_insert_free_buffer b p = Some (p\<lparr>free_buffers := m\<rparr>) \<and> rb_nodes m fs' \<and> by_size p fs'
      \<and> set fs' = insert b (set fs)"
    by (rule insert_free_ok) (use fs fr layout_bounds(7,8) [OF l bs] in \<open>auto simp: free_set_def\<close>)
  then obtain m fs' where m: "binder_insert_free_buffer b p = Some (p\<lparr>free_buffers := m\<rparr>)" "rb_nodes m fs'" "by_size p fs'"
    "set fs' = insert b (set fs)" by blast
  let ?p = "p\<lparr>free_buffers := m\<rparr>"
  have "free_set ?p = insert b (free_set p - {b})" "alloc_set ?p = alloc_set p"
    using bs fr by (auto simp: free_set_def alloc_set_def)
  then have "free_tree ?p (free_set ?p)" "alloc_tree ?p (alloc_set ?p)" "\<forall>a \<in> alloc_set ?p. fits ?p a"
    using m(2-4) fs(3) assms(1) by (auto simp: free_tree_def alloc_tree_def merging_def fits_def)
  moreover have "coalesced ?p (buffers ?p)"
    using assms fr coalesced_append [of ?p xs b ys] by (simp add: merging_def coalesced_def)
  moreover have "layout p" "pages_ok p" "async_ok p" using assms(1) by (simp_all add: merging_def)
  then have "layout ?p" "pages_ok ?p" "async_ok ?p" by (simp_all add: layout_def pages_ok_def async_ok_def)
  ultimately show ?thesis using m(1) by (intro exI [of _ m]) (simp add: buf_inv_def)
qed

lemma free_buf_ok:
  assumes inv: "buf_inv p" and b: "b \<in> alloc_set p" and tr: "b_transaction (bufs p b) = 0"
  shows "\<exists>p'. binder_free_buf env b p = Some p' \<and> buf_inv p' \<and> alloc_set p' = alloc_set p - {b}
    \<and> bufs p' = (bufs p)(b := (bufs p b)\<lparr>b_free := True\<rparr>) \<and> bp_buffer p' = bp_buffer p
    \<and> bp_buffer_size p' = bp_buffer_size p \<and> bp_vma p' = bp_vma p \<and> user_buffer_offset p' = user_buffer_offset p"
proof -
  have l: "layout p" and nf: "\<not> b_free (bufs p b)" using inv b by (simp_all add: buf_inv_def alloc_set_def)
  have ar: "area_ok p" using l by (simp add: layout_def)
  obtain xs ys where bs: "buffers p = xs @ b # ys" using b by (auto simp: alloc_set_def dest: split_list)
  note lb = layout_bounds [OF l bs]
  let ?sz = "buf_request (bufs p b)"
  let ?p1 = "if b_async_transaction (bufs p b) then p\<lparr>free_async_space := free_async_space p + (?sz + SIZEOF_BUFFER)\<rparr> else p"
  have "unat (bp_buffer p + bp_buffer_size p) = stop p" using area_stop(2) [OF ar] by (simp add: stop_def unat_word_ariths)
  then have bug: "\<not> (b_free (bufs p b) \<or> ?sz > binder_buffer_size p b \<or> b_transaction (bufs p b) \<noteq> 0
      \<or> b < bp_buffer p \<or> b > bp_buffer p + bp_buffer_size p)"
    using nf tr inv b lb(1,2,3) by (auto simp: buf_inv_def fits_def word_less_nat_alt word_le_nat_alt)
  obtain p2 ok m where p2: "binder_update_page_range env False (PAGE_ALIGN (buf_data b))
      ((buf_data b + binder_buffer_size p b) AND PAGE_MASK) False ?p1 = Some (p2, ok)"
    "rb_erase b (allocated_buffers p2) = Some m"
    and q: "let q = upd_buf b (\<lambda>x. x\<lparr>b_free := True\<rparr>) (p2\<lparr>allocated_buffers := m\<rparr>) in merging q xs b ys
      \<and> bufs q = (bufs p)(b := (bufs p b)\<lparr>b_free := True\<rparr>) \<and> alloc_set q = alloc_set p - {b} \<and> bp_buffer q = bp_buffer p
      \<and> bp_buffer_size q = bp_buffer_size p \<and> bp_vma q = bp_vma p \<and> user_buffer_offset q = user_buffer_offset p"
    using free_start [OF inv b bs, of env] by blast
  define q where "q = upd_buf b (\<lambda>x. x\<lparr>b_free := True\<rparr>) (p2\<lparr>allocated_buffers := m\<rparr>)"
  note q = q [folded q_def, unfolded Let_def]
  obtain p3 zs where p3: "merge_next env b q = Some p3" "merging p3 xs b zs" "zs = [] \<or> \<not> b_free (bufs q (hd zs))" "same_alloc q p3"
    using merge_next_ok [OF conjunct1 [OF q]] by blast
  obtain p4 ws b' where p4: "merge_prev env b p3 = Some (p4, b')" "merging p4 ws b' zs"
    "ws = [] \<or> \<not> b_free (bufs p3 (last ws))" "same_alloc p3 p4"
    using merge_prev_ok [OF p3(2)] by blast
  obtain m' where m': "binder_insert_free_buffer b' p4 = Some (p4\<lparr>free_buffers := m'\<rparr>)" "buf_inv (p4\<lparr>free_buffers := m'\<rparr>)"
  proof -
    have "bufs p3 = bufs q" "bufs p4 = bufs q" using p3(4) p4(4) by (simp_all add: same_alloc_def)
    then show ?thesis using merging_insert [OF p4(2)] p3(3) p4(3) that by auto
  qed
  have "binder_free_buf env b p = Some (p4\<lparr>free_buffers := m'\<rparr>)"
    unfolding binder_free_buf_def Let_def if_not_P [OF bug] p2(1) bind.bind_lunit prod.case p2(2)
      q_def [symmetric] p3(1) p4(1) m'(1) ..
  moreover have "alloc_set (p4\<lparr>free_buffers := m'\<rparr>) = alloc_set p4" by (simp add: alloc_set_def)
  ultimately show ?thesis using m'(2) p3(4) p4(4) q by (simp add: same_alloc_def)
qed

end
