(* ===== verification/Binder_Take.thy ===== *)
theory Binder_Take
  imports Binder_Free
begin

text \<open>
  \<open>binder_alloc_buf\<close> keeps the invariant of the buffer area: it finds the smallest free buffer that is
  large enough, adds the pages it needs, and splits it when another buffer fits behind the request.
\<close>

section \<open>Adding pages\<close>

lemma alloc_pages:
  assumes l: "layout p" and pg: "pages_ok p" and bs: "buffers p = xs @ b # ys" and fr: "b_free (bufs p b)"
    and len: "len \<le> binder_buffer_size p b"
  defines "has \<equiv> (buf_data b + binder_buffer_size p b) AND PAGE_MASK"
  defines "fin \<equiv> if PAGE_ALIGN (buf_data b + len) > has then has else PAGE_ALIGN (buf_data b + len)"
  shows "\<exists>g ok. binder_update_page_range env True (PAGE_ALIGN (buf_data b)) fin False p = Some (p\<lparr>pages := g\<rparr>, ok)
    \<and> (\<forall>q. there (g q) (used (base p) (stop p) (\<lambda>b. b_free (bufs p b)) (xs @ b # ys) q
         \<or> ok \<and> unat b + 40 \<le> base p + 4096 * q \<and> base p + 4096 * q < unat b + 40 + unat len
            \<and> base p + 4096 * (q + 1) \<le> head_or (stop p) ys))
    \<and> (env_good env \<longrightarrow> bp_vma p \<longrightarrow> ok)"
proof -
  note lb = layout_bounds [OF l bs] and sz = buffer_size_unat [OF l bs] and ip = inner_pages [OF l bs]
  have ar: "area_ok p" and c: "chain (stop p) (xs @ b # ys)" using l bs by (simp_all add: layout_def)
  let ?a = "base p" and ?e = "head_or (stop p) ys"
  define i where "i = up ?a (unat b + 40)"
  define j where "j = down ?a ?e"
  define k where "k = up ?a (unat b + 40 + unat len)"
  have le: "unat b + 40 + unat len \<le> ?e" using len sz(1) lb(2) by (simp add: word_le_nat_alt)
  have bl: "unat (buf_data b + len) = unat b + 40 + unat len"
    using le lb(3,9) area_stop(2) [OF ar] by (simp add: unat_word_ariths(1))
  have ke: "PAGE_ALIGN (buf_data b + len) = pgaddr p k"
    using page_align_pgaddr(1) [OF ar, of "buf_data b + len"] bl le lb(1,3) by (simp add: k_def)
  obtain n where n: "stop p = ?a + 4096 * n" using area_stop(5) [OF ar] by blast
  have "k \<le> n" using up_le [of ?a "unat b + 40 + unat len" n] le lb(1,3) n unfolding k_def by simp
  then have ks: "?a + 4096 * k \<le> stop p" using n by simp
  have lt: "?a + 4096 * k < 2 ^ 32" "?a + 4096 * j < 2 ^ 32"
    using ks ip(4) area_stop(2) [OF ar] by (simp_all add: j_def)
  have fin: "fin = pgaddr p (min k j)"
    using pgaddr_less [OF lt(2,1)] ip(2) ke unfolding fin_def has_def j_def [symmetric] by (auto simp: min_def)
  have rng: "i \<le> q \<and> q < min k j \<longleftrightarrow> unat b + 40 \<le> ?a + 4096 * q \<and> ?a + 4096 * q < unat b + 40 + unat len
      \<and> ?a + 4096 * (q + 1) \<le> ?e" for q
    using ip(5) [of q] up_le [of ?a "unat b + 40 + unat len" q] lb(1)
    unfolding i_def [symmetric] j_def [symmetric] k_def [symmetric] in_page_def by auto
  have old: "there (pages p q) (used ?a (stop p) (\<lambda>b. b_free (bufs p b)) (xs @ b # ys) q)" for q
    using pg bs by (simp add: pages_ok_def)
  have no: "there (pages p q) False" if "i \<le> q" "q < min k j" for q
  proof -
    have "in_page ?a (unat b + 40) ?e q" using that rng [of q] by (auto simp: in_page_def)
    then have "\<not> used ?a (stop p) (\<lambda>b. b_free (bufs p b)) (xs @ b # ys) q"
      using in_page_only [OF c] fr by (auto simp: used_append)
    then show ?thesis using old [of q] by simp
  qed
  have "?a + 4096 * min k j \<le> stop p" using ks ip(4) by (simp add: j_def min_def)
  then have "\<exists>g ok. binder_update_page_range env True (pgaddr p i) (pgaddr p (min k j)) False p = Some (p\<lparr>pages := g\<rparr>, ok)
    \<and> (\<forall>q. if i \<le> q \<and> q < min k j \<and> ok then there (g q) True else g q = pages p q \<or> there (g q) False \<and> there (pages p q) False)
    \<and> (env_good env \<longrightarrow> False \<or> bp_vma p \<longrightarrow> ok)"
    using ip(3) no by (intro add_pages [OF ar]) (simp_all add: i_def)
  then obtain g ok where g: "binder_update_page_range env True (pgaddr p i) (pgaddr p (min k j)) False p = Some (p\<lparr>pages := g\<rparr>, ok)"
    "\<forall>q. if i \<le> q \<and> q < min k j \<and> ok then there (g q) True else g q = pages p q \<or> there (g q) False \<and> there (pages p q) False"
    "env_good env \<longrightarrow> bp_vma p \<longrightarrow> ok"
    by blast
  have "there (g q) (used ?a (stop p) (\<lambda>b. b_free (bufs p b)) (xs @ b # ys) q \<or> ok \<and> i \<le> q \<and> q < min k j)" for q
    using g(2) [rule_format, of q] old [of q] by (auto simp: there_def split: if_split_asm)
  then show ?thesis using g(1,3) ip(1) fin unfolding i_def [symmetric] rng by auto
qed

section \<open>Taking the buffer\<close>

lemma take_trees:
  assumes inv: "buf_inv p" and b: "b \<in> free_set p"
  shows "\<exists>m m2. rb_erase b (free_buffers p) = Some m
    \<and> binder_insert_allocated_buffer b (upd_buf b (\<lambda>x. x\<lparr>b_free := False\<rparr>) (p\<lparr>pages := g, free_buffers := m\<rparr>))
      = Some (upd_buf b (\<lambda>x. x\<lparr>b_free := False\<rparr>) (p\<lparr>pages := g, free_buffers := m, allocated_buffers := m2\<rparr>))
    \<and> free_tree (p\<lparr>free_buffers := m\<rparr>) (free_set p - {b})
    \<and> (\<exists>as. key_tree (\<lambda>a. a) m2 as \<and> set as = insert b (alloc_set p))"
proof -
  obtain fs where fs: "rb_nodes (free_buffers p) fs" "by_size p fs" "set fs = free_set p"
    using inv by (auto simp: buf_inv_def free_tree_def)
  obtain m where m: "rb_erase b (free_buffers p) = Some m" "rb_nodes m (remove1 b fs)"
    using rb_nodes_erase [OF fs(1)] b fs(3) by auto
  have "free_tree (p\<lparr>free_buffers := m\<rparr>) (free_set p - {b})"
    using m(2) by_size_remove [OF fs(2), of b] fs(3) rb_nodes_distinct [OF fs(1)]
    unfolding free_tree_def by (intro exI [of _ "remove1 b fs"]) simp
  moreover
  obtain as where as: "key_tree (\<lambda>a. a) (allocated_buffers p) as" "set as = alloc_set p"
    using inv by (auto simp: buf_inv_def alloc_tree_def)
  let ?q = "upd_buf b (\<lambda>x. x\<lparr>b_free := False\<rparr>) (p\<lparr>pages := g, free_buffers := m\<rparr>)"
  obtain xs ys where bs: "buffers p = xs @ b # ys" using b by (auto simp: free_set_def dest: split_list)
  have l: "layout p" using inv by (simp add: buf_inv_def)
  have "\<exists>m2 as'. binder_insert_allocated_buffer b ?q = Some (?q\<lparr>allocated_buffers := m2\<rparr>)
      \<and> key_tree (\<lambda>a. a) m2 as' \<and> set as' = insert b (set as)"
  proof (rule insert_alloc_ok)
    show "key_tree (\<lambda>a. a) (allocated_buffers ?q) as" using as(1) by (simp add: upd_buf_def)
    show "\<not> b_free (bufs ?q a)" if "a \<in> set as" for a using that as(2) by (auto simp: upd_buf_def alloc_set_def)
    show "b \<notin> set as" using b as(2) by (auto simp: free_set_def alloc_set_def)
    show "b \<noteq> 0" "aligned b" using layout_bounds(7,8) [OF l bs] .
  qed (simp add: upd_buf_def)
  then obtain m2 as' where "binder_insert_allocated_buffer b ?q = Some (?q\<lparr>allocated_buffers := m2\<rparr>)"
    "key_tree (\<lambda>a. a) m2 as'" "set as' = insert b (set as)" by blast
  ultimately show ?thesis using m(1) as(2) by (intro exI [of _ m] exI [of _ m2] conjI exI [of _ as']) (simp_all add: upd_buf_def)
qed

text \<open>What is left to show of the state after the allocation; \<open>ds\<close> is the new free buffer, if there is
  one.\<close>

lemma taken_inv:
  assumes inv: "buf_inv p" and bs: "buffers p = xs @ b # ys" and fr: "b_free (bufs p b)"
    and ds: "length ds \<le> 1" "\<And>a. a \<in> set ds \<Longrightarrow> b_free (B a)" "b \<notin> set ds"
    and B: "\<And>a. a \<in> set xs \<union> set ys \<Longrightarrow> B a = bufs p a" "\<not> b_free (B b)"
    and p': "bp_buffer_size p' = bp_buffer_size p" "buffers p' = xs @ b # ds @ ys" "bufs p' = B"
    and lay: "layout p'" "pages_ok p'" and free: "free_tree p' (free_set p - {b} \<union> set ds)"
    and as: "alloc_tree p' (insert b (alloc_set p))"
    and fas: "unat (free_async_space p') + async_cost (B b) = unat (free_async_space p)"
    and fits: "fits p' b" "\<And>a. a \<in> alloc_set p \<Longrightarrow> binder_buffer_size p' a = binder_buffer_size p a"
  shows "buf_inv p' \<and> alloc_set p' = insert b (alloc_set p)"
proof -
  have l: "layout p" using inv by (simp add: buf_inv_def)
  note lb = layout_bounds [OF l bs]
  have sets: "alloc_set p' = insert b (alloc_set p)" "free_set p' = free_set p - {b} \<union> set ds"
    using B ds(2,3) lb(5,6) fr by (auto simp: alloc_set_def free_set_def p' bs)
  have S: "sum_list (map (\<lambda>a. async_cost (B a)) zs) = sum_list (map (\<lambda>a. async_cost (bufs p a)) zs)"
    if "set zs \<subseteq> set xs \<union> set ys" for zs using that B(1) by (induction zs) auto
  have D: "sum_list (map (\<lambda>a. async_cost (B a)) ds) = 0" using ds(2) by (induction ds) (auto simp: async_cost_def)
  have "async_cost (bufs p b) = 0" using fr by (simp add: async_cost_def)
  then have "async_ok p'"
    using inv fas S [of xs] S [of ys] by (simp add: async_ok_def buf_inv_def p' bs D)
  moreover have "coalesced p' (buffers p')"
  proof -
    have c: "coalesced p xs" "coalesced p ys" "ys = [] \<or> \<not> b_free (bufs p (hd ys))"
      using inv fr coalesced_append [of p xs b ys] by (auto simp: buf_inv_def bs)
    have "coalesced p' xs = coalesced p xs" "coalesced p' ys = coalesced p ys" by (intro coalesced_cong; simp add: B p')+
    then have "coalesced p' (ds @ ys)"
      using c ds(1) B(1) coalesced_append [of p' "[]" _ ys] by (cases ds; cases ys) (auto simp: p' coalesced_def)
    then show ?thesis
      using c(1) \<open>coalesced p' xs = coalesced p xs\<close> coalesced_append [of p' xs b "ds @ ys"] B(2) by (simp add: p')
  qed
  moreover have "fits p' a" if "a \<in> alloc_set p'" for a
  proof (cases "a = b")
    case False
    then have a: "a \<in> alloc_set p" "B a = bufs p a" using that sets(1) B(1) bs by (auto simp: alloc_set_def)
    then show ?thesis using inv fits(2) [of a] by (simp add: buf_inv_def fits_def p')
  qed (simp add: fits)
  ultimately show ?thesis using lay free as sets by (simp add: buf_inv_def)
qed

text \<open>What an allocation promises.\<close>

definition taken :: "u32 \<Rightarrow> u32 \<Rightarrow> bool \<Rightarrow> u32 \<Rightarrow> bproc \<Rightarrow> bproc \<Rightarrow> bool" where
  "taken data_size offsets_size is_async b p p' \<longleftrightarrow> alloc_set p' = insert b (alloc_set p)
     \<and> bufs p' b = (bufs p b)\<lparr>b_free := False, b_data_size := data_size, b_offsets_size := offsets_size, b_async_transaction := is_async\<rparr>
     \<and> (\<forall>a \<in> alloc_set p. bufs p' a = bufs p a \<and> binder_buffer_size p' a = binder_buffer_size p a)
     \<and> bp_buffer p' = bp_buffer p \<and> bp_buffer_size p' = bp_buffer_size p \<and> bp_vma p' = bp_vma p
     \<and> user_buffer_offset p' = user_buffer_offset p"

lemma async_take:
  assumes "\<not> (is_async \<and> fas < sz + SIZEOF_BUFFER)" "unat sz + 40 < 2 ^ 32"
  shows "unat (if is_async then fas - (sz + SIZEOF_BUFFER) else fas) + (if is_async then unat sz + 40 else 0) = unat fas"
proof -
  have "unat (sz + SIZEOF_BUFFER) = unat sz + 40" using assms(2) by (simp add: SIZEOF_BUFFER_def unat_word_ariths)
  then show ?thesis using assms(1) by (auto simp: not_less unat_sub word_le_nat_alt)
qed

lemma take_whole:
  assumes inv: "buf_inv p" and bs: "buffers p = xs @ b # ys" and fr: "b_free (bufs p b)"
    and sz: "sz = request_size ds os" "\<not> sz < ds" "\<not> sz < os" "sz \<le> binder_buffer_size p b"
    and asy: "\<not> (is_async \<and> free_async_space p < sz + SIZEOF_BUFFER)"
    and pg: "\<And>q. there (g q) (used (base p) (stop p) (\<lambda>b. b_free (bufs p b)) (xs @ b # ys) q
         \<or> in_page (base p) (unat b + 40) (head_or (stop p) ys) q)"
  shows "\<exists>p'. take_buffer b sz sz ds os is_async (p\<lparr>pages := g\<rparr>) = Some p' \<and> buf_inv p' \<and> taken ds os is_async b p p'"
proof -
  have l: "layout p" using inv by (simp add: buf_inv_def)
  note lb = layout_bounds [OF l bs]
  have bf: "b \<in> free_set p" using bs fr by (simp add: free_set_def)
  obtain m m2 as where m: "rb_erase b (free_buffers p) = Some m"
    "binder_insert_allocated_buffer b (upd_buf b (\<lambda>x. x\<lparr>b_free := False\<rparr>) (p\<lparr>pages := g, free_buffers := m\<rparr>))
      = Some (upd_buf b (\<lambda>x. x\<lparr>b_free := False\<rparr>) (p\<lparr>pages := g, free_buffers := m, allocated_buffers := m2\<rparr>))"
    "free_tree (p\<lparr>free_buffers := m\<rparr>) (free_set p - {b})" "key_tree (\<lambda>a. a) m2 as" "set as = insert b (alloc_set p)"
    using take_trees [OF inv bf, of g] by blast
  define hdr where "hdr = (bufs p b)\<lparr>b_free := False, b_data_size := ds, b_offsets_size := os, b_async_transaction := is_async\<rparr>"
  define fas where "fas = (if is_async then free_async_space p - (sz + SIZEOF_BUFFER) else free_async_space p)"
  define p' where "p' = p\<lparr>pages := g, free_buffers := m, allocated_buffers := m2, bufs := (bufs p)(b := hdr), free_async_space := fas\<rparr>"
  have run: "take_buffer b sz sz ds os is_async (p\<lparr>pages := g\<rparr>) = Some p'"
    using m(1,2) by (simp add: take_buffer_def upd_buf_def p'_def hdr_def fas_def Let_def)
  have small: "unat sz + 40 < 2 ^ 32"
    using sz(4) buffer_size_unat(1) [OF l bs] lb(3) area_stop(2) l by (fastforce simp: word_le_nat_alt layout_def)
  have "buf_inv p' \<and> alloc_set p' = insert b (alloc_set p)"
  proof (rule taken_inv [OF inv bs fr, of "[]" "(bufs p)(b := hdr)"])
    show "pages_ok p'" unfolding pages_ok_def
    proof
      fix q
      have c: "chain (stop p) (xs @ b # ys)" using l bs by (simp add: layout_def)
      have "used (base p) (stop p) (\<lambda>b. b_free (bufs p' b)) (xs @ b # ys) q \<longleftrightarrow>
          used (base p) (stop p) (\<lambda>b. b_free (bufs p b)) (xs @ b # ys) q \<or> in_page (base p) (unat b + 40) (head_or (stop p) ys) q"
        by (rule used_toggle(1) [OF c]) (use fr lb(5,6) in \<open>auto simp: p'_def hdr_def\<close>)
      then show "there (pages p' q) (used (base p') (stop p') (\<lambda>b. b_free (bufs p' b)) (buffers p') q)"
        using pg [of q] bs by (simp add: p'_def)
    qed
    show "free_tree p' (free_set p - {b} \<union> set [])" using m(3) by (simp add: free_tree_def p'_def)
    show "alloc_tree p' (insert b (alloc_set p))" using m(4,5) by (auto simp: alloc_tree_def p'_def)
    show "unat (free_async_space p') + async_cost (((bufs p)(b := hdr)) b) = unat (free_async_space p)"
      using async_take [OF asy small] sz(1) by (cases is_async) (simp_all add: p'_def fas_def async_cost_def hdr_def)
    show "fits p' b" using sz by (simp add: fits_def p'_def hdr_def)
    show "layout p'" using l by (simp add: layout_def p'_def)
  qed (use lb(5,6) bs in \<open>auto simp: p'_def hdr_def\<close>)
  moreover have "a \<noteq> b" if "a \<in> alloc_set p" for a using that fr by (auto simp: alloc_set_def)
  ultimately show ?thesis using run by (intro exI [of _ p']) (auto simp: taken_def p'_def hdr_def)
qed

text \<open>A new buffer behind the request: where it starts, and that it has room for its header.\<close>

lemma split_point:
  assumes l: "layout p" and bs: "buffers p = xs @ b # ys" and room: "unat sz + 44 < unat (binder_buffer_size p b)"
    and al: "4 dvd unat sz"
  defines "d \<equiv> buf_data b + sz"
  shows "unat d = unat b + 40 + unat sz" "unat d + 40 \<le> head_or (stop p) ys" "aligned d" "d \<notin> set (buffers p)"
    "p' = p\<lparr>buffers := xs @ b # d # ys\<rparr> \<Longrightarrow> layout p'"
proof -
  note lb = layout_bounds [OF l bs]
  have ar: "area_ok p" and c: "chain (stop p) (xs @ b # ys)" using l bs by (simp_all add: layout_def)
  have e: "unat b + 40 + unat sz + 44 < head_or (stop p) ys" using room buffer_size_unat(1) [OF l bs] by linarith
  show d: "unat d = unat b + 40 + unat sz"
    using e lb(3,9) area_stop(2) [OF ar] by (simp add: d_def unat_word_ariths(1))
  show de: "unat d + 40 \<le> head_or (stop p) ys" using d e by simp
  show ad: "aligned d" using al lb(8) d by (simp add: aligned_dvd)
  have "d \<notin> set xs" using chain_less(1) [OF c, of d] d by auto
  moreover have "d \<notin> set ys"
  proof
    assume y: "d \<in> set ys"
    then have "ys \<noteq> []" by auto
    then obtain n zs where ys: "ys = n # zs" by (cases ys) auto
    have "chain (stop p) (n # zs)" using c by (simp add: chain_append ys)
    then have "unat n \<le> unat d" using y chain_less(2) [of "stop p" "[]" n zs d] ys by auto
    then show False using de ys by simp
  qed
  moreover have "d \<noteq> b" using d by auto
  ultimately show "d \<notin> set (buffers p)" by (simp add: bs)
  have "chain (stop p) (xs @ b # d # ys)" using c d de by (simp add: chain_append)
  then show "layout p'" if "p' = p\<lparr>buffers := xs @ b # d # ys\<rparr>"
    using l bs ad that by (cases xs) (auto simp: layout_def)
qed

lemma take_split:
  assumes inv: "buf_inv p" and bs: "buffers p = xs @ b # ys" and fr: "b_free (bufs p b)"
    and sz: "sz = request_size ds os" "\<not> sz < ds" "\<not> sz < os" "unat sz + 44 < unat (binder_buffer_size p b)"
    and asy: "\<not> (is_async \<and> free_async_space p < sz + SIZEOF_BUFFER)"
    and pg: "\<And>q. there (g q) (used (base p) (stop p) (\<lambda>b. b_free (bufs p b)) (xs @ b # ys) q
         \<or> unat b + 40 \<le> base p + 4096 * q \<and> base p + 4096 * q < unat b + 40 + unat (sz + SIZEOF_BUFFER)
           \<and> base p + 4096 * (q + 1) \<le> head_or (stop p) ys)"
  shows "\<exists>p'. take_buffer b sz (sz + SIZEOF_BUFFER) ds os is_async (p\<lparr>pages := g\<rparr>) = Some p' \<and> buf_inv p' \<and> taken ds os is_async b p p'"
proof -
  have l: "layout p" using inv by (simp add: buf_inv_def)
  note lb = layout_bounds [OF l bs]
  have ar: "area_ok p" and c: "chain (stop p) (xs @ b # ys)" using l bs by (simp_all add: layout_def)
  have bf: "b \<in> free_set p" using bs fr by (simp add: free_set_def)
  define d where "d = buf_data b + sz"
  have al: "4 dvd unat sz" using sz(1) request_size_align by simp
  note sp = split_point [OF l bs sz(4) al, folded d_def]
  have small: "unat sz + 40 < 2 ^ 32"
    using sz(4) buffer_size_unat(1) [OF l bs] lb(3) area_stop(2) [OF ar] by simp
  have s40: "unat (sz + SIZEOF_BUFFER) = unat sz + 40" using small by (simp add: SIZEOF_BUFFER_def unat_word_ariths)
  have db: "d \<noteq> b" "d \<notin> set xs" "d \<notin> set ys" using sp(4) by (auto simp: bs)
  obtain m m2 as where m: "rb_erase b (free_buffers p) = Some m"
    "binder_insert_allocated_buffer b (upd_buf b (\<lambda>x. x\<lparr>b_free := False\<rparr>) (p\<lparr>pages := g, free_buffers := m\<rparr>))
      = Some (upd_buf b (\<lambda>x. x\<lparr>b_free := False\<rparr>) (p\<lparr>pages := g, free_buffers := m, allocated_buffers := m2\<rparr>))"
    "free_tree (p\<lparr>free_buffers := m\<rparr>) (free_set p - {b})" "key_tree (\<lambda>a. a) m2 as" "set as = insert b (alloc_set p)"
    using take_trees [OF inv bf, of g] by blast
  define P where "P = p\<lparr>pages := g, free_buffers := m, allocated_buffers := m2, buffers := xs @ b # d # ys,
    bufs := (bufs p)(b := (bufs p b)\<lparr>b_free := False\<rparr>, d := (bufs p d)\<lparr>b_free := True\<rparr>)\<rparr>"
  have lP: "layout P" using sp(5) [OF refl] by (simp add: layout_def P_def)
  have same: "binder_buffer_size P a = binder_buffer_size p a" if "a \<noteq> b" "a \<noteq> d" for a
  proof -
    have "binder_buffer_size (P\<lparr>buffers := xs @ b # ys\<rparr>) a = binder_buffer_size P a"
      by (rule size_remove [OF lP _ that]) (simp add: P_def)
    moreover have "binder_buffer_size (P\<lparr>buffers := xs @ b # ys\<rparr>) a = binder_buffer_size p a"
      by (rule buffer_size_cong) (simp_all add: P_def bs)
    ultimately show ?thesis by simp
  qed
  obtain fs where fs: "rb_nodes m fs" "by_size p fs" "set fs = free_set p - {b}"
    using m(3) by (auto simp: free_tree_def)
  have bP: "by_size P fs"
    using by_size_cong [of fs P p] same fs(2,3) sp(4) by (auto simp: free_set_def)
  have "\<exists>m' fs'. binder_insert_free_buffer d P = Some (P\<lparr>free_buffers := m'\<rparr>) \<and> rb_nodes m' fs' \<and> by_size P fs'
      \<and> set fs' = insert d (set fs)"
  proof (rule insert_free_ok [OF _ bP])
    show "rb_nodes (free_buffers P) fs" using fs(1) by (simp add: P_def)
    show "b_free (bufs P a)" if "a \<in> set fs" for a using that fs(3) by (auto simp: P_def free_set_def)
    show "d \<notin> set fs" using sp(4) fs(3) by (auto simp: free_set_def)
    show "d \<noteq> 0" using sp(1) by auto
  qed (use sp(3) in \<open>simp_all add: P_def\<close>)
  then obtain m' fs' where m': "binder_insert_free_buffer d P = Some (P\<lparr>free_buffers := m'\<rparr>)" "rb_nodes m' fs'" "by_size P fs'"
    "set fs' = insert d (set fs)" by blast
  define hdr where "hdr = (bufs p b)\<lparr>b_free := False, b_data_size := ds, b_offsets_size := os, b_async_transaction := is_async\<rparr>"
  define fas where "fas = (if is_async then free_async_space p - (sz + SIZEOF_BUFFER) else free_async_space p)"
  define B where "B = (bufs p)(b := hdr, d := (bufs p d)\<lparr>b_free := True\<rparr>)"
  define p' where "p' = P\<lparr>free_buffers := m', bufs := B, free_async_space := fas\<rparr>"
  have "sz + SIZEOF_BUFFER \<noteq> sz" by (simp add: SIZEOF_BUFFER_def)
  moreover have "upd_buf d (\<lambda>b. b\<lparr>b_free := True\<rparr>) (upd_buf b (\<lambda>x. x\<lparr>b_free := False\<rparr>)
      (p\<lparr>pages := g, free_buffers := m, allocated_buffers := m2\<rparr>)\<lparr>buffers := list_add_after d b (buffers p)\<rparr>) = P"
    using list_add_after_split [OF lb(5), of d ys] db by (simp add: upd_buf_def P_def bs)
  ultimately have run: "take_buffer b sz (sz + SIZEOF_BUFFER) ds os is_async (p\<lparr>pages := g\<rparr>) = Some p'"
    using m(1,2) m'(1) db
    by (simp add: take_buffer_def Let_def upd_buf_def [of b _ "P\<lparr>free_buffers := m'\<rparr>"] d_def [symmetric])
      (simp add: upd_buf_def p'_def P_def B_def hdr_def fas_def fun_upd_twist)
  have szp: "binder_buffer_size p' a = binder_buffer_size P a" for a by (simp add: p'_def)
  have "buf_inv p' \<and> alloc_set p' = insert b (alloc_set p)"
  proof (rule taken_inv [OF inv bs fr, of "[d]" B])
    show "pages_ok p'" unfolding pages_ok_def
    proof
      fix q
      have "used (base p) (stop p) (\<lambda>b. b_free (bufs p' b)) (xs @ b # d # ys) q \<longleftrightarrow>
          used (base p) (stop p) (\<lambda>b. b_free (bufs p b)) (xs @ b # ys) q
          \<or> unat b + 40 \<le> base p + 4096 * q \<and> base p + 4096 * q < unat d + 40 \<and> base p + 4096 * (q + 1) \<le> head_or (stop p) ys"
        by (rule used_split [OF c]) (use fr lb(5,6) db sp(1,2) area_stop(5) [OF ar] in \<open>auto simp: p'_def B_def hdr_def\<close>)
      then show "there (pages p' q) (used (base p') (stop p') (\<lambda>b. b_free (bufs p' b)) (buffers p') q)"
        using pg [of q] s40 sp(1) by (simp add: p'_def P_def add.assoc)
    qed
    show "free_tree p' (free_set p - {b} \<union> set [d])"
      using m'(2-4) fs(3) unfolding free_tree_def by (intro exI [of _ fs']) (auto simp: p'_def)
    show "alloc_tree p' (insert b (alloc_set p))" using m(4,5) by (auto simp: alloc_tree_def p'_def P_def)
    show "unat (free_async_space p') + async_cost (B b) = unat (free_async_space p)"
      using async_take [OF asy small] sz(1) db by (cases is_async) (simp_all add: p'_def fas_def async_cost_def hdr_def B_def)
    show "fits p' b"
    proof -
      have "unat (binder_buffer_size P b) = unat sz"
        using buffer_size_unat(1) [OF lP, of xs b "d # ys"] sp(1) by (simp add: P_def)
      then show ?thesis using sz db szp [of b] by (simp add: fits_def word_le_nat_alt p'_def B_def hdr_def)
    qed
    show "binder_buffer_size p' a = binder_buffer_size p a" if "a \<in> alloc_set p" for a
      using same [of a] szp [of a] that fr sp(4) by (auto simp: alloc_set_def)
    show "layout p'" using lP by (simp add: layout_def p'_def)
  qed (use lb(5,6) bs db in \<open>auto simp: p'_def P_def B_def hdr_def\<close>)
  moreover have "a \<noteq> b \<and> a \<noteq> d" if "a \<in> alloc_set p" for a using that fr sp(4) by (auto simp: alloc_set_def)
  ultimately show ?thesis using run same szp db by (intro exI [of _ p']) (auto simp: taken_def p'_def P_def B_def hdr_def)
qed

section \<open>The whole operation\<close>

text \<open>What the request is compared with: a free buffer that is large enough.\<close>

definition enough :: "u32 \<Rightarrow> bproc \<Rightarrow> u32 \<Rightarrow> bool" where
  "enough sz p a \<longleftrightarrow> a \<in> free_set p \<and> sz \<le> binder_buffer_size p a"

lemma alloc_fit:
  assumes inv: "buf_inv p" and vma: "bp_vma p"
    and sz: "sz = request_size ds os" "\<not> sz < ds" "\<not> sz < os"
    and asy: "\<not> (is_async \<and> free_async_space p < sz + SIZEOF_BUFFER)"
    and bf: "best_fit_loop p sz (rb_root (free_buffers p)) 0 = Some (n, b)" "b \<noteq> 0" "enough sz p b"
      "n = 0 \<longleftrightarrow> binder_buffer_size p b \<noteq> sz"
  shows "\<exists>p' r. binder_alloc_buf env ds os is_async p = Some (p', r) \<and> buf_inv p'
    \<and> (if r = 0 then \<exists>g. p' = p\<lparr>pages := g\<rparr> else r = b \<and> taken ds os is_async b p p') \<and> (env_good env \<longrightarrow> r \<noteq> 0)"
proof -
  have l: "layout p" and pg: "pages_ok p" using inv by (simp_all add: buf_inv_def)
  have ar: "area_ok p" using l by (simp add: layout_def)
  have fr: "b_free (bufs p b)" using bf(3) by (simp add: enough_def free_set_def)
  obtain xs ys where bs: "buffers p = xs @ b # ys" using bf(3) by (auto simp: enough_def free_set_def dest: split_list)
  note lb = layout_bounds [OF l bs] and su = buffer_size_unat(1) [OF l bs]
  let ?z = "binder_buffer_size p b"
  have le: "unat sz \<le> unat ?z" using bf(3) by (simp add: enough_def word_le_nat_alt)
  have s44: "unat (sz + SIZEOF_BUFFER + 4) = unat sz + 44" "unat (sz + SIZEOF_BUFFER) = unat sz + 40"
    using le su lb(3) area_stop(2) [OF ar] by (simp_all add: SIZEOF_BUFFER_def unat_word_ariths)
  define len where "len = (if n = 0 then (if sz + SIZEOF_BUFFER + 4 \<ge> ?z then sz else sz + SIZEOF_BUFFER) else ?z)"
  define split where "split \<longleftrightarrow> unat sz + 44 < unat ?z"
  have len_eq: "len = (if split then sz + SIZEOF_BUFFER else sz)"
    using s44(1) bf(4) by (auto simp: len_def split_def word_le_nat_alt)
  have "len \<le> ?z" using s44(2) le by (auto simp: len_eq split_def word_le_nat_alt)
  from alloc_pages [OF l pg bs fr this, of env] obtain g ok where
    u: "binder_update_page_range env True (PAGE_ALIGN (buf_data b))
      (if PAGE_ALIGN (buf_data b + len) > (buf_data b + ?z) AND PAGE_MASK then (buf_data b + ?z) AND PAGE_MASK
       else PAGE_ALIGN (buf_data b + len)) False p = Some (p\<lparr>pages := g\<rparr>, ok)"
    and gq: "\<forall>q. there (g q) (used (base p) (stop p) (\<lambda>b. b_free (bufs p b)) (xs @ b # ys) q
         \<or> ok \<and> unat b + 40 \<le> base p + 4096 * q \<and> base p + 4096 * q < unat b + 40 + unat len
            \<and> base p + 4096 * (q + 1) \<le> head_or (stop p) ys)" and good: "env_good env \<longrightarrow> bp_vma p \<longrightarrow> ok" by blast
  have run: "binder_alloc_buf env ds os is_async p = (if \<not> ok then Some (p\<lparr>pages := g\<rparr>, 0)
      else map_option (\<lambda>p2. (p2, b)) (take_buffer b sz len ds os is_async (p\<lparr>pages := g\<rparr>)))"
  proof -
    have g: "\<not> \<not> bp_vma p" "\<not> (sz < ds \<or> sz < os)" using vma sz by simp_all
    show ?thesis
      unfolding binder_alloc_buf_def Let_def sz(1) [symmetric] if_not_P [OF g(1)] if_not_P [OF g(2)] if_not_P [OF asy]
        bf(1) bind.bind_lunit prod.case if_not_P [OF bf(2)] len_def [symmetric] u ..
  qed
  show ?thesis
  proof (cases ok)
    case False
    then have "pages_ok (p\<lparr>pages := g\<rparr>)" using gq bs by (simp add: pages_ok_def)
    then have "buf_inv (p\<lparr>pages := g\<rparr>)"
      using inv by (simp add: buf_inv_def layout_def free_tree_def alloc_tree_def async_ok_def coalesced_def fits_def
        free_set_def alloc_set_def)
    then show ?thesis using run False good vma by auto
  next
    case True
    have "\<exists>p'. take_buffer b sz len ds os is_async (p\<lparr>pages := g\<rparr>) = Some p' \<and> buf_inv p' \<and> taken ds os is_async b p p'"
    proof (cases split)
      case s: True
      then show ?thesis
        using take_split [OF inv bs fr sz _ asy, of g] gq True by (simp add: split_def len_eq)
    next
      case s: False
      have "there (g q) (used (base p) (stop p) (\<lambda>b. b_free (bufs p b)) (xs @ b # ys) q
          \<or> in_page (base p) (unat b + 40) (head_or (stop p) ys) q)" for q
      proof -
        have "base p + 4096 * q < unat b + 40 + unat len" if "base p + 4096 * (q + 1) \<le> head_or (stop p) ys"
          using that s su lb(2) by (simp add: split_def len_eq)
        then show ?thesis using gq [rule_format, of q] True unfolding in_page_def by (auto simp: there_def)
      qed
      then show ?thesis
        using take_whole [OF inv bs fr sz _ asy, of g] bf(3) s by (simp add: enough_def len_eq)
    qed
    then show ?thesis using run True lb(7) by auto
  qed
qed

lemma alloc_buf_ok:
  assumes inv: "buf_inv p"
  shows "\<exists>p' b. binder_alloc_buf env ds os is_async p = Some (p', b) \<and> buf_inv p'
    \<and> (if b = 0 then \<exists>g. p' = p\<lparr>pages := g\<rparr>
       else enough (request_size ds os) p b \<and> (\<forall>a. enough (request_size ds os) p a \<longrightarrow> binder_buffer_size p b \<le> binder_buffer_size p a)
         \<and> taken ds os is_async b p p')
    \<and> (env_good env \<longrightarrow> b = 0 \<longrightarrow> \<not> bp_vma p \<or> request_size ds os < ds \<or> request_size ds os < os
         \<or> is_async \<and> free_async_space p < request_size ds os + SIZEOF_BUFFER \<or> (\<forall>a. \<not> enough (request_size ds os) p a))"
proof -
  define sz where "sz = request_size ds os"
  have same: "\<exists>g. p = p\<lparr>pages := g\<rparr>" by (rule exI [of _ "pages p"]) simp
  show ?thesis
  proof (cases "bp_vma p \<and> \<not> sz < ds \<and> \<not> sz < os \<and> \<not> (is_async \<and> free_async_space p < sz + SIZEOF_BUFFER)")
    case False
    then have "binder_alloc_buf env ds os is_async p = Some (p, 0)" by (auto simp: binder_alloc_buf_def Let_def sz_def)
    then show ?thesis using inv same False by (auto simp: sz_def)
  next
    case True
    obtain fs where fs: "rb_nodes (free_buffers p) fs" "by_size p fs" "set fs = free_set p"
      using inv by (auto simp: buf_inv_def free_tree_def)
    obtain n b where nb: "best_fit_loop p sz (rb_root (free_buffers p)) 0 = Some (n, b)"
      "if b = 0 then \<forall>a \<in> set fs. binder_buffer_size p a < sz
       else b \<in> set fs \<and> sz \<le> binder_buffer_size p b \<and> (n = 0 \<longleftrightarrow> binder_buffer_size p b \<noteq> sz)
         \<and> (\<forall>a \<in> set fs. sz \<le> binder_buffer_size p a \<longrightarrow> binder_buffer_size p b \<le> binder_buffer_size p a)"
      using best_fit_ok [OF fs(1,2), of sz] fs(3) unfolding free_set_def by blast
    show ?thesis
    proof (cases "b = 0")
      case b: True
      then have "binder_alloc_buf env ds os is_async p = Some (p, 0)"
        using True nb(1) by (simp add: binder_alloc_buf_def Let_def sz_def)
      moreover have "\<not> enough sz p a" for a using b nb(2) fs(3) by (auto simp: enough_def not_le)
      ultimately show ?thesis using inv same by (intro exI [of _ p] exI [of _ 0]) (auto simp: sz_def)
    next
      case b: False
      then have e: "enough sz p b" "n = 0 \<longleftrightarrow> binder_buffer_size p b \<noteq> sz"
        "\<forall>a. enough sz p a \<longrightarrow> binder_buffer_size p b \<le> binder_buffer_size p a"
        using nb(2) fs(3) by (auto simp: enough_def)
      have "\<exists>p' r. binder_alloc_buf env ds os is_async p = Some (p', r) \<and> buf_inv p'
          \<and> (if r = 0 then \<exists>g. p' = p\<lparr>pages := g\<rparr> else r = b \<and> taken ds os is_async b p p') \<and> (env_good env \<longrightarrow> r \<noteq> 0)"
        by (rule alloc_fit [OF inv _ sz_def _ _ _ nb(1) b e(1,2)]) (use True in blast)+
      then obtain p' r where r: "binder_alloc_buf env ds os is_async p = Some (p', r)" "buf_inv p'"
        "if r = 0 then \<exists>g. p' = p\<lparr>pages := g\<rparr> else r = b \<and> taken ds os is_async b p p'" "env_good env \<longrightarrow> r \<noteq> 0" by blast
      show ?thesis
      proof (cases "r = 0")
        case z: True
        then show ?thesis using r by (intro exI [of _ p'] exI [of _ r]) simp
      next
        case z: False
        then show ?thesis using r e(1,3) unfolding sz_def by (intro exI [of _ p'] exI [of _ r]) simp
      qed
    qed
  qed
qed

end
