(* ===== verification/Binder_Props.thy ===== *)
theory Binder_Props
  imports Binder_Take
begin

text \<open>
  What the binder driver relies on in its buffer area. \<open>buf_inv\<close> (theory Binder\_Inv) says that the
  buffers fill the area, that the trees hold exactly the free and the allocated buffers, that the
  pages in memory are those the buffers need, that no two free buffers touch, that every request
  fits its buffer, and that the space for asynchronous transactions is accounted for.
\<close>

section \<open>Memory behind an allocated buffer\<close>

definition backed :: "bproc \<Rightarrow> u32 \<Rightarrow> bool" where
  "backed p b \<longleftrightarrow> (\<forall>x. unat b \<le> x \<and> x < unat b + 40 + unat (binder_buffer_size p b)
     \<longrightarrow> there (pages p (down (base p) x)) True)"

lemma alloc_backed:
  assumes inv: "buf_inv p" and b: "b \<in> alloc_set p"
  shows "backed p b"
  unfolding backed_def
proof (intro allI impI)
  fix x
  assume x: "unat b \<le> x \<and> x < unat b + 40 + unat (binder_buffer_size p b)"
  have l: "layout p" and nf: "\<not> b_free (bufs p b)" using inv b by (simp_all add: buf_inv_def alloc_set_def)
  have ar: "area_ok p" using l by (simp add: layout_def)
  obtain xs ys where bs: "buffers p = xs @ b # ys" using b by (auto simp: alloc_set_def dest: split_list)
  note lb = layout_bounds [OF l bs]
  let ?a = "base p" and ?q = "down (base p) x" and ?e = "head_or (stop p) ys"
  have xe: "x < ?e" using x buffer_size_unat(1) [OF l bs] lb(2) by simp
  have ax: "?a \<le> x" using x lb(1) by simp
  have q: "x < ?a + 4096 * (?q + 1)" "?a + 4096 * ?q \<le> x"
    using down_le [OF ax, of ?q] times_div_less_eq_dividend [of 4096 "x - ?a"] ax by (simp_all add: down_def)
  have "used ?a (stop p) (\<lambda>b. b_free (bufs p b)) (xs @ b # ys) ?q"
  proof (cases "?a + 4096 * ?q < unat b + 40")
    case True
    then show ?thesis using q(1) x by (auto simp: used_append hdr_page_def)
  next
    case False
    show ?thesis
    proof (cases "?a + 4096 * (?q + 1) \<le> ?e")
      case True
      then show ?thesis using False nf by (auto simp: used_append in_page_def)
    next
      case out: False
      show ?thesis
      proof (cases ys)
        case Nil
        have "?a + 4096 * Suc ?q \<le> stop p" by (rule down_stop [OF ar ax]) (use xe lb(3) in simp)
        then show ?thesis using out Nil by simp
      next
        case (Cons n zs)
        then have "hdr_page ?a n ?q" using q(2) xe out by (simp add: hdr_page_def)
        then show ?thesis using Cons by (simp add: used_append)
      qed
    qed
  qed
  moreover have "there (pages p ?q) (used ?a (stop p) (\<lambda>b. b_free (bufs p b)) (xs @ b # ys) ?q)"
    using inv bs by (simp add: buf_inv_def pages_ok_def)
  ultimately show "there (pages p ?q) True" by simp
qed

section \<open>Mapping\<close>

lemma rb_nodes_empty: "rb_root m = 0 \<Longrightarrow> rb_nodes m []"
  unfolding rb_nodes_def by (intro exI [of _ Leaf]) (simp add: tree_rep_def nodes_ok_def rbtree_def)

lemma key_tree_empty: "rb_root m = 0 \<Longrightarrow> key_tree (\<lambda>a. a) m ([] :: u32 list)"
  unfolding key_tree_def by (intro conjI exI [of _ Leaf]) (simp_all add: tree_rep_def nodes_ok_def rbtree_def)

text \<open>The first buffer: the whole area, free, with its header in the first page.\<close>

lemma first_buffer:
  assumes ar: "area_ok p" and "bp_buffer_size p \<noteq> 0" and p: "bp_buffer p = addr" "buffers p = [addr]" "b_free (bufs p addr)"
    and pg: "\<And>q. there (pages p q) (q = 0)" and t: "rb_root (free_buffers p) = 0" "rb_root (allocated_buffers p) = 0"
  shows "\<exists>m. binder_insert_free_buffer addr p = Some (p\<lparr>free_buffers := m\<rparr>)
    \<and> buf_inv (p\<lparr>free_buffers := m, free_async_space := bp_buffer_size p div 2, bp_vma := v\<rparr>)
    \<and> alloc_set (p\<lparr>free_buffers := m, free_async_space := bp_buffer_size p div 2, bp_vma := v\<rparr>) = {}"
proof -
  have sz: "4096 \<le> unat (bp_buffer_size p)" using ar assms(2) by (auto simp: area_ok_def unat_gt_0 intro: dvd_imp_le)
  have a: "4096 dvd unat addr" "addr \<noteq> 0" using ar p(1) by (auto simp: area_ok_def)
  have al: "aligned addr" using a(1) dvd_trans [of 4 4096 "unat addr"] by (simp add: aligned_dvd)
  have lay: "layout p" using ar p al sz by (simp add: layout_def stop_def)
  have "\<exists>m fs'. binder_insert_free_buffer addr p = Some (p\<lparr>free_buffers := m\<rparr>) \<and> rb_nodes m fs' \<and> by_size p fs'
      \<and> set fs' = insert addr (set [])"
    by (rule insert_free_ok) (use rb_nodes_empty [OF t(1)] p(3) a(2) al in \<open>simp_all add: by_size_def\<close>)
  then obtain m fs where m: "binder_insert_free_buffer addr p = Some (p\<lparr>free_buffers := m\<rparr>)" "rb_nodes m fs" "by_size p fs"
    "set fs = {addr}" by auto
  let ?p = "p\<lparr>free_buffers := m, free_async_space := bp_buffer_size p div 2, bp_vma := v\<rparr>"
  have sets: "free_set ?p = {addr}" "alloc_set ?p = {}" using p by (auto simp: free_set_def alloc_set_def)
  have "binder_buffer_size ?p a = binder_buffer_size p a" for a by (rule buffer_size_cong) simp_all
  then have "by_size ?p fs" using m(3) by_size_cong [of fs ?p p] by blast
  then have "free_tree ?p (free_set ?p)" using m(2,4) sets by (auto simp: free_tree_def)
  moreover have "alloc_tree ?p (alloc_set ?p)"
    using key_tree_empty [OF t(2)] sets unfolding alloc_tree_def by (intro exI [of _ "[]"]) simp
  moreover have "pages_ok ?p"
  proof -
    have "used (unat addr) e (\<lambda>b. b_free (bufs p b)) [addr] q \<longleftrightarrow> q = 0" for q e using p(3) by (auto simp: hdr_page_def)
    then show ?thesis using pg p by (simp add: pages_ok_def stop_def)
  qed
  moreover have "async_ok ?p" using p by (simp add: async_ok_def async_cost_def unat_div)
  moreover have "layout ?p" using lay by (simp add: layout_def area_ok_def stop_def)
  ultimately have "buf_inv ?p" using sets p by (simp add: buf_inv_def coalesced_def)
  then show ?thesis using m(1) sets(2) by blast
qed

text \<open>The loop for aliasing caches moves the mapping by at most three pages.\<close>

definition colour :: "u32 \<Rightarrow> nat" where
  "colour v = unat v div 4096 mod 4"

lemma xor_0_iff: "(x::u32) XOR y = 0 \<longleftrightarrow> x = y"
proof
  assume "x XOR y = 0"
  then have "(x XOR y) XOR y = y" by simp
  then show "x = y" by (simp add: xor.assoc)
qed simp

lemma CACHE_COLOUR_0: "CACHE_COLOUR (v XOR a) = 0 \<longleftrightarrow> colour v = colour a"
proof -
  have c: "unat (take_bit 2 (drop_bit 12 w)) = colour w" for w :: u32
    by (simp add: colour_def take_bit_eq_mod drop_bit_eq_div unat_div unat_mod)
  have "CACHE_COLOUR w = take_bit 2 (drop_bit 12 w)" for w
  proof -
    have "SHMLBA - 1 = mask 14" by (simp add: SHMLBA_def PAGE_SIZE_def mask_eq_exp_minus_1)
    then have "CACHE_COLOUR w = drop_bit 12 (take_bit 14 w)" by (simp add: CACHE_COLOUR_def take_bit_eq_mask)
    then show ?thesis by (simp add: drop_bit_take_bit)
  qed
  then have "CACHE_COLOUR (v XOR a) = take_bit 2 (drop_bit 12 v) XOR take_bit 2 (drop_bit 12 a)"
    by (simp only: drop_bit_xor take_bit_xor)
  then have "CACHE_COLOUR (v XOR a) = 0 \<longleftrightarrow> take_bit 2 (drop_bit 12 v) = take_bit 2 (drop_bit 12 a)"
    by (simp only: xor_0_iff)
  also have "\<dots> \<longleftrightarrow> colour v = colour a" unfolding c [symmetric] by (rule word_unat_eq_iff)
  finally show ?thesis .
qed

lemma colour_next: "colour (v + PAGE_SIZE) = (colour v + 1) mod 4"
proof -
  have m: "m mod (4096 * 1048576) div 4096 mod 4 = m div 4096 mod 4" for m :: nat
    unfolding mod_mult2_eq [of m 4096] by (simp add: mod_mod_cancel)
  have "colour (v + PAGE_SIZE) = (unat v + 4096) mod (4096 * 1048576) div 4096 mod 4"
    by (simp add: colour_def PAGE_SIZE_def unat_word_ariths)
  also have "\<dots> = (unat v + 4096) div 4096 mod 4" by (rule m)
  also have "(unat v + 4096) div 4096 = unat v div 4096 + 1" by (rule div_add_self2) simp
  finally show ?thesis by (simp add: colour_def mod_Suc_eq)
qed

lemma colour_loop_steps:
  "(colour v + n) mod 4 = colour a \<Longrightarrow> \<exists>k \<le> n. colour_loop a v = Some (v + of_nat (4096 * k))"
proof (induction n arbitrary: v)
  case 0
  then have "colour_loop a v = Some v" by (subst colour_loop.simps) (simp add: CACHE_COLOUR_0 colour_def)
  then show ?case by (intro exI [of _ 0]) simp
next
  case (Suc n)
  show ?case
  proof (cases "colour v = colour a")
    case True
    then have "colour_loop a v = Some v" by (subst colour_loop.simps) (simp add: CACHE_COLOUR_0)
    then show ?thesis by (intro exI [of _ 0]) simp
  next
    case False
    have "(colour (v + PAGE_SIZE) + n) mod 4 = colour a"
      using Suc.prems unfolding colour_next mod_add_left_eq by simp
    then obtain k where "k \<le> n" "colour_loop a (v + PAGE_SIZE) = Some (v + PAGE_SIZE + of_nat (4096 * k))"
      using Suc.IH by blast
    moreover have "v + PAGE_SIZE + of_nat (4096 * k) = v + of_nat (4096 * Suc k)" by (simp add: PAGE_SIZE_def)
    ultimately have "colour_loop a v = Some (v + of_nat (4096 * Suc k))"
      using False by (subst colour_loop.simps) (simp only: CACHE_COLOUR_0 simp_thms if_True)
    then show ?thesis using \<open>k \<le> n\<close> by (intro exI [of _ "Suc k"]) simp
  qed
qed

lemma colour_loop_ok:
  "\<exists>k \<le> 3. colour_loop a v = Some (v + of_nat (4096 * k)) \<and> (CACHE_COLOUR (v XOR a) = 0 \<longrightarrow> k = 0)"
proof (cases "colour v = colour a")
  case True
  then have "colour_loop a v = Some v" by (subst colour_loop.simps) (simp add: CACHE_COLOUR_0)
  then show ?thesis by (intro exI [of _ 0]) simp
next
  case False
  have "colour v < 4" "colour a < 4" by (simp_all add: colour_def)
  then have "(colour v + (colour a + 4 - colour v) mod 4) mod 4 = colour a" by (simp add: mod_add_right_eq)
  then obtain k where "k \<le> (colour a + 4 - colour v) mod 4" "colour_loop a v = Some (v + of_nat (4096 * k))"
    using colour_loop_steps by blast
  moreover have "(colour a + 4 - colour v) mod 4 < 4" by simp
  ultimately show ?thesis using False by (intro exI [of _ k]) (simp add: CACHE_COLOUR_0)
qed

text \<open>The requests considered: the memory manager hands over a non-empty mapping and a kernel area of whole
  pages, the area ending below the end of the address space; the mapping is not writable. With an
  aliasing cache the mapping has the colour of the area or at least four pages (the loop that moves
  its start could otherwise run past its end).\<close>

definition mmap_request :: "u32 \<Rightarrow> bool \<Rightarrow> binder_vma \<Rightarrow> bool" where
  "mmap_request addr aliasing vma \<longleftrightarrow> 4096 dvd unat addr \<and> 4096 dvd unat (vma_end vma - vma_start vma)
     \<and> vma_end vma \<noteq> vma_start vma \<and> unat addr + min (unat (vma_end vma - vma_start vma)) 0x400000 < 2 ^ 32
     \<and> vma_flags vma AND FORBIDDEN_MMAP_FLAGS = 0 \<and> (aliasing \<longrightarrow> CACHE_COLOUR (vma_start vma XOR addr) = 0
       \<or> 0x4000 \<le> unat (vma_end vma - vma_start vma))"

text \<open>A process that has opened the driver and not mapped it.\<close>

definition unmapped :: "bproc \<Rightarrow> bool" where
  "unmapped p \<longleftrightarrow> bp_buffer p = 0 \<and> rb_root (free_buffers p) = 0 \<and> rb_root (allocated_buffers p) = 0"

lemma moved_size:
  assumes "unat (vma_end v2 - s) = L" "4096 * k < L" "vs = s + of_nat (4096 * k)" "v3 = v2\<lparr>vma_start := vs\<rparr>"
  shows "unat (vma_end v3 - vma_start v3) = L - 4096 * k"
proof -
  have "4096 * k < 2 ^ 32" using assms(1,2) unsigned_less [of "vma_end v2 - s", where 'a = nat] by simp
  then have n: "unat (of_nat (4096 * k) :: u32) = 4096 * k" by (simp only: unat_of_nat) simp
  have "vma_end v3 - vma_start v3 = (vma_end v2 - s) - of_nat (4096 * k)" by (simp add: assms(3,4))
  moreover have "(of_nat (4096 * k) :: u32) \<le> vma_end v2 - s" unfolding word_le_nat_alt n assms(1) using assms(2) by simp
  ultimately show ?thesis using assms(1) n by (simp only: unat_sub)
qed

lemma mmap_ok:
  assumes un: "unmapped p" and rq: "mmap_request addr aliasing vma"
  shows "\<exists>p' vma' res. binder_mmap env addr arr aliasing vma p = Some (p', vma', res)
    \<and> (if res = Inr () then buf_inv p' \<and> alloc_set p' = {} \<and> bp_vma p' \<and> bp_buffer p' = addr
         \<and> bp_buffer_size p' = vma_end vma' - vma_start vma' \<and> user_buffer_offset p' = vma_start vma - addr
         \<and> (\<exists>k \<le> 3. vma_start vma' = vma_start vma + of_nat (4096 * k) \<and> (\<not> aliasing \<longrightarrow> k = 0)
              \<and> unat (bp_buffer_size p') = min (unat (vma_end vma - vma_start vma)) 0x400000 - 4096 * k)
         \<and> buffers p' = [addr] \<and> bufs p' = (bufs p)(addr := (bufs p addr)\<lparr>b_free := True\<rparr>)
       else res = Inl ENOMEM \<and> bp_buffer p' = 0)
    \<and> (env_good env \<and> addr \<noteq> 0 \<and> arr \<longrightarrow> res = Inr ())"
proof -
  define vma1 where "vma1 = (if vma_end vma - vma_start vma > SZ_4M then vma\<lparr>vma_end := vma_start vma + SZ_4M\<rparr> else vma)"
  define vma2 where "vma2 = vma1\<lparr>vma_flags := (vma_flags vma1 OR VM_DONTCOPY) AND NOT VM_MAYWRITE\<rparr>"
  have st: "vma_start vma2 = vma_start vma" and fl: "vma_flags vma1 = vma_flags vma"
    by (simp_all add: vma1_def vma2_def)
  obtain k vs where k: "k \<le> 3" "vs = vma_start vma + of_nat (4096 * k)" "\<not> aliasing \<longrightarrow> k = 0"
      "aliasing \<and> CACHE_COLOUR (vma_start vma XOR addr) = 0 \<longrightarrow> k = 0"
    and col: "(if aliasing then colour_loop addr (vma_start vma2) else Some (vma_start vma2)) = Some vs"
    using colour_loop_ok [of addr "vma_start vma"] st by (cases aliasing) auto
  define vma3 where "vma3 = vma2\<lparr>vma_start := vs\<rparr>"
  define p2 where "p2 = p\<lparr>bp_buffer := addr, user_buffer_offset := vma_start vma - addr, bp_buffer_size := vma_end vma3 - vma_start vma3,
    pages := (\<lambda>_. \<lparr>pg_page = False, pg_kernel = False, pg_user = False\<rparr>)\<rparr>"
  have fls: "\<not> vma_flags vma1 AND FORBIDDEN_MMAP_FLAGS \<noteq> 0" "\<not> bp_buffer p \<noteq> 0"
    using rq un fl by (simp_all add: mmap_request_def unmapped_def)
  have run: "binder_mmap env addr arr aliasing vma p = (if addr = 0 then Some (p, vma2, Inl ENOMEM)
      else if \<not> arr then Some (p\<lparr>bp_buffer := 0, user_buffer_offset := vma_start vma - addr\<rparr>, vma3, Inl ENOMEM)
      else Option.bind (binder_update_page_range env True addr (addr + PAGE_SIZE) True p2) (\<lambda>(p3, ok).
        if \<not> ok then Some (p3\<lparr>bp_buffer := 0\<rparr>, vma3, Inl ENOMEM)
        else map_option (\<lambda>p4. (p4\<lparr>free_async_space := bp_buffer_size p4 div 2, bp_vma := True\<rparr>, vma3, Inr ()))
          (binder_insert_free_buffer addr (upd_buf addr (\<lambda>b. b\<lparr>b_free := True\<rparr>) (p3\<lparr>buffers := [addr]\<rparr>)))))"
    unfolding binder_mmap_def Let_def vma1_def [symmetric] if_not_P [OF fls(1)] if_not_P [OF fls(2)] vma2_def [symmetric] col
      bind.bind_lunit vma3_def [symmetric]
    by (simp add: p2_def st)
  show ?thesis
  proof (cases "addr = 0 \<or> \<not> arr")
    case True
    then show ?thesis using run un by (auto simp: unmapped_def)
  next
    case False
    define L where "L = min (unat (vma_end vma - vma_start vma)) 0x400000"
    have L2: "unat (vma_end vma2 - vma_start vma) = L"
      by (auto simp: L_def vma1_def vma2_def SZ_4M_def word_less_nat_alt min_def not_less)
    have L: "4096 dvd L" "0 < L" "unat addr + L < 2 ^ 32" "aliasing \<longrightarrow> k = 0 \<or> 0x4000 \<le> L" "4096 dvd unat addr"
      using rq k(4) by (auto simp: L_def mmap_request_def min_def unat_gt_0)
    then have kL: "4096 * k < L" using k(1,3) by (cases aliasing) auto
    have len: "unat (vma_end vma3 - vma_start vma3) = L - 4096 * k" by (rule moved_size [OF L2 kL k(2) vma3_def])
    have ar: "area_ok p2" and nz: "bp_buffer_size p2 \<noteq> 0"
      using L kL len False by (auto simp: area_ok_def p2_def unat_eq_0 [symmetric] simp del: unat_eq_0)
    have s1: "base p2 + 4096 * 1 \<le> stop p2"
      using ar nz(1) by (auto simp: area_ok_def stop_def unat_gt_0 dest!: dvd_imp_le)
    have "\<exists>g ok. binder_update_page_range env True (pgaddr p2 0) (pgaddr p2 1) True p2 = Some (p2\<lparr>pages := g\<rparr>, ok)
        \<and> (\<forall>q. if 0 \<le> q \<and> q < 1 \<and> ok then there (g q) True else g q = pages p2 q \<or> there (g q) False \<and> there (pages p2 q) False)
        \<and> (env_good env \<longrightarrow> True \<or> bp_vma p2 \<longrightarrow> ok)"
      by (rule add_pages [OF ar]) (use s1 in \<open>simp_all add: p2_def there_def\<close>)
    moreover have "pgaddr p2 0 = addr" "pgaddr p2 1 = addr + PAGE_SIZE" by (simp_all add: pgaddr_def p2_def PAGE_SIZE_def)
    ultimately obtain g ok where g: "binder_update_page_range env True addr (addr + PAGE_SIZE) True p2 = Some (p2\<lparr>pages := g\<rparr>, ok)"
      "\<forall>q. if 0 \<le> q \<and> q < 1 \<and> ok then there (g q) True else g q = pages p2 q \<or> there (g q) False \<and> there (pages p2 q) False"
      "env_good env \<longrightarrow> ok" by auto
    show ?thesis
    proof (cases ok)
      case o: False
      then show ?thesis using run False g(1,3) by simp
    next
      case o: True
      let ?p = "upd_buf addr (\<lambda>b. b\<lparr>b_free := True\<rparr>) (p2\<lparr>pages := g, buffers := [addr]\<rparr>)"
      have "there (g q) (q = 0)" for q
        using g(2) [rule_format, of q] o by (cases "q = 0") (auto simp: p2_def there_def)
      then have "\<exists>m. binder_insert_free_buffer addr ?p = Some (?p\<lparr>free_buffers := m\<rparr>)
          \<and> buf_inv (?p\<lparr>free_buffers := m, free_async_space := bp_buffer_size ?p div 2, bp_vma := True\<rparr>)
          \<and> alloc_set (?p\<lparr>free_buffers := m, free_async_space := bp_buffer_size ?p div 2, bp_vma := True\<rparr>) = {}"
        using ar nz(1) un by (intro first_buffer) (simp_all add: upd_buf_def p2_def unmapped_def)
      then obtain m where m: "binder_insert_free_buffer addr ?p = Some (?p\<lparr>free_buffers := m\<rparr>)"
        "buf_inv (?p\<lparr>free_buffers := m, free_async_space := bp_buffer_size ?p div 2, bp_vma := True\<rparr>)"
        "alloc_set (?p\<lparr>free_buffers := m, free_async_space := bp_buffer_size ?p div 2, bp_vma := True\<rparr>) = {}" by blast
      have "binder_mmap env addr arr aliasing vma p
          = Some (?p\<lparr>free_buffers := m, free_async_space := bp_buffer_size ?p div 2, bp_vma := True\<rparr>, vma3, Inr ())"
        using run False g(1) o m(1) by simp
      moreover have "vma_start vma3 = vma_start vma + of_nat (4096 * k)" by (simp add: vma3_def k(2))
      ultimately show ?thesis using m(2,3) len k(1,3) unfolding L_def by (auto simp: upd_buf_def p2_def)
    qed
  qed
qed

section \<open>Lookup and the space for asynchronous transactions\<close>

lemma lookup_alloc_set:
  assumes "buf_inv p"
  shows "binder_buffer_lookup user_ptr p
    = Some (let k = user_ptr - user_buffer_offset p - SIZEOF_BUFFER in if k \<in> alloc_set p then k else 0)"
proof -
  obtain as where as: "key_tree (\<lambda>a. a) (allocated_buffers p) as" "set as = alloc_set p"
    using assms by (auto simp: buf_inv_def alloc_tree_def)
  then show ?thesis using buffer_lookup_ok [OF as(1), of user_ptr] by (simp add: alloc_set_def)
qed

lemma async_space:
  assumes "buf_inv p"
  shows "unat (free_async_space p) + (\<Sum>b \<in> alloc_set p. async_cost (bufs p b)) = unat (bp_buffer_size p) div 2"
proof -
  let ?f = "\<lambda>b. async_cost (bufs p b)"
  have "distinct (buffers p)" using assms chain_distinct by (metis buf_inv_def layout_def)
  then have "sum_list (map ?f (buffers p)) = sum ?f (set (buffers p))" by (rule sum_list_distinct_conv_sum_set)
  also have "\<dots> = sum ?f (alloc_set p)"
    by (rule sum.mono_neutral_right) (auto simp: alloc_set_def async_cost_def)
  finally show ?thesis using assms by (simp add: buf_inv_def async_ok_def)
qed

section \<open>Sequences of operations\<close>

text \<open>The states a process's area passes through: allocations, releases of allocated buffers that no
  transaction holds, and what the driver writes into the header of an allocated buffer.\<close>

inductive area_reach :: "bproc \<Rightarrow> bproc \<Rightarrow> bool" for p where
  reach_start: "area_reach p p"
| reach_alloc: "area_reach p q \<Longrightarrow> binder_alloc_buf env data_size offsets_size is_async q = Some (q', b) \<Longrightarrow> area_reach p q'"
| reach_free: "area_reach p q \<Longrightarrow> b \<in> alloc_set q \<Longrightarrow> b_transaction (bufs q b) = 0 \<Longrightarrow>
    binder_free_buf env b q = Some q' \<Longrightarrow> area_reach p q'"
| reach_header: "area_reach p q \<Longrightarrow> b \<in> alloc_set q \<Longrightarrow>
    area_reach p (upd_buf b (\<lambda>x. x\<lparr>b_transaction := t, b_target_node := n, b_allow_user_free := u\<rparr>) q)"

lemma header_inv:
  assumes "buf_inv q"
  shows "buf_inv (upd_buf b (\<lambda>x. x\<lparr>b_transaction := t, b_target_node := n, b_allow_user_free := u\<rparr>) q)" (is "buf_inv ?q")
proof -
  have same: "b_free (bufs ?q a) = b_free (bufs q a)" "b_data_size (bufs ?q a) = b_data_size (bufs q a)"
    "b_offsets_size (bufs ?q a) = b_offsets_size (bufs q a)" "b_async_transaction (bufs ?q a) = b_async_transaction (bufs q a)" for a
    by (simp_all add: upd_buf_def)
  have rest: "buffers ?q = buffers q" "stop ?q = stop q" "base ?q = base q" "pages ?q = pages q" "binder_buffer_size ?q = binder_buffer_size q"
    "by_size ?q = by_size q" "free_buffers ?q = free_buffers q" "allocated_buffers ?q = allocated_buffers q"
    "free_async_space ?q = free_async_space q" "bp_buffer_size ?q = bp_buffer_size q" "bp_buffer ?q = bp_buffer q" "area_ok ?q = area_ok q"
    by (simp_all add: upd_buf_def)
  have "layout ?q = layout q" "free_set ?q = free_set q" "alloc_set ?q = alloc_set q" "coalesced ?q = coalesced q"
    by (simp_all only: layout_def free_set_def alloc_set_def coalesced_def same rest)
  moreover have "fits ?q = fits q" "pages_ok ?q = pages_ok q" "async_ok ?q = async_ok q"
    by (simp_all only: fits_def [abs_def] pages_ok_def async_ok_def async_cost_def same rest)
  moreover have "free_tree ?q = free_tree q" "alloc_tree ?q = alloc_tree q"
    by (simp_all only: free_tree_def [abs_def] alloc_tree_def [abs_def] rest)
  ultimately show ?thesis using assms unfolding buf_inv_def rest by simp
qed

lemma reach_inv:
  assumes "buf_inv p"
  shows "area_reach p q \<Longrightarrow> buf_inv q"
proof (induction rule: area_reach.induct)
  case (reach_alloc q env data_size offsets_size is_async q' b)
  then show ?case using alloc_buf_ok [of q env data_size offsets_size is_async] by auto
next
  case (reach_free q b env q')
  then show ?case using free_buf_ok [of q b env] by auto
next
  case (reach_header q b t n u)
  then show ?case using header_inv by blast
qed (rule assms)

section \<open>An area for the examples\<close>

definition demo_env :: page_env where
  "demo_env = \<lparr>env_mm = True, env_alloc = (\<lambda>_. True), env_map = (\<lambda>_. True), env_insert = (\<lambda>_. True)\<rparr>"

definition no_nodes :: rb_mem where
  "no_nodes = \<lparr>rb_parent_color = (\<lambda>_. 0), rb_right = (\<lambda>_. 0), rb_left = (\<lambda>_. 0), rb_root = 0\<rparr>"

definition demo_proc :: bproc where
  "demo_proc = \<lparr>bp_vma = False, bp_buffer = 0, bp_buffer_size = 0, user_buffer_offset = 0, buffers = [],
     bufs = (\<lambda>_. \<lparr>b_free = False, b_allow_user_free = False, b_async_transaction = False, b_transaction = 0,
       b_target_node = 0, b_data_size = 0, b_offsets_size = 0\<rparr>),
     free_buffers = no_nodes, allocated_buffers = no_nodes, free_async_space = 0,
     pages = (\<lambda>_. \<lparr>pg_page = False, pg_kernel = False, pg_user = False\<rparr>)\<rparr>"

definition demo_vma :: binder_vma where
  "demo_vma = \<lparr>vma_start = 0x40000000, vma_end = 0x40100000, vma_flags = VM_READ OR VM_MAYWRITE\<rparr>"

definition demo_area :: bproc where
  "demo_area = (case binder_mmap demo_env 0xd0000000 True False demo_vma demo_proc of Some (p, _) \<Rightarrow> p | None \<Rightarrow> demo_proc)"

definition demo_full :: bproc where
  "demo_full = (case binder_alloc_buf demo_env 100 8 True demo_area of Some (p, _) \<Rightarrow> p | None \<Rightarrow> demo_proc)"

lemma demo_request: "unmapped demo_proc" "mmap_request 0xd0000000 False demo_vma" "env_good demo_env"
  by (simp_all add: unmapped_def demo_proc_def no_nodes_def mmap_request_def demo_vma_def FORBIDDEN_MMAP_FLAGS_def VM_WRITE_def
      VM_READ_def VM_MAYWRITE_def env_good_def demo_env_def)

lemma demo_area: "\<exists>vma. binder_mmap demo_env 0xd0000000 True False demo_vma demo_proc = Some (demo_area, vma, Inr ())"
    "buf_inv demo_area" "bp_vma demo_area" "buffers demo_area = [0xd0000000]" "free_set demo_area = {0xd0000000}"
    "bufs demo_area 0xd0000000 = (bufs demo_proc 0xd0000000)\<lparr>b_free := True\<rparr>" "unat (bp_buffer_size demo_area) = 0x100000"
proof -
  obtain p' vma' where m: "binder_mmap demo_env 0xd0000000 True False demo_vma demo_proc = Some (p', vma', Inr ())"
    "buf_inv p'" "bp_vma p'" "buffers p' = [0xd0000000]" "bufs p' = (bufs demo_proc)(0xd0000000 := (bufs demo_proc 0xd0000000)\<lparr>b_free := True\<rparr>)"
    "unat (bp_buffer_size p') = min (unat (vma_end demo_vma - vma_start demo_vma)) 0x400000"
    using mmap_ok [OF demo_request(1,2), of demo_env True] demo_request(3) by fastforce
  show "\<exists>vma. binder_mmap demo_env 0xd0000000 True False demo_vma demo_proc = Some (demo_area, vma, Inr ())"
    "buf_inv demo_area" "bp_vma demo_area" "buffers demo_area = [0xd0000000]" "free_set demo_area = {0xd0000000}"
    "bufs demo_area 0xd0000000 = (bufs demo_proc 0xd0000000)\<lparr>b_free := True\<rparr>"
    using m by (simp_all add: demo_area_def free_set_def)
  show "unat (bp_buffer_size demo_area) = 0x100000" using m(1,6) by (simp add: demo_area_def demo_vma_def)
qed

text \<open>Why short mappings are left out when the cache is aliasing: a mapping of one page whose colour is two
  off is moved past its end, and the size of the area wraps.\<close>

lemma mmap_short_wraps:
  "map_option (\<lambda>(p, vma, res). (bp_buffer_size p, vma_start vma, vma_end vma, res))
     (binder_mmap demo_env 0xd0002000 True True \<lparr>vma_start = 0x40000000, vma_end = 0x40001000, vma_flags = VM_READ\<rparr> demo_proc)
   = Some (0xfffff000, 0x40002000, 0x40001000, Inr ())"
  by code_simp

lemma demo_run:
  "map_option snd (binder_alloc_buf demo_env 100 8 True demo_area) = Some 0xd0000000"
  "alloc_set demo_full = {0xd0000000}" "b_transaction (bufs demo_full 0xd0000000) = 0"
  "b_transaction (bufs demo_area 0xd0000000) = 0" "buf_data 0xd0000000 + user_buffer_offset demo_area = 0x40000028"
  by code_simp+

lemma demo_alloc: "binder_alloc_buf demo_env 100 8 True demo_area = Some (demo_full, 0xd0000000)"
  using demo_run(1) by (auto simp: demo_full_def)

lemma demo_full_inv: "buf_inv demo_full"
  using alloc_buf_ok [OF demo_area(2), of demo_env 100 8 True] demo_alloc by auto

section \<open>Properties\<close>

text \<open>C7. \<open>binder_alloc_buf\<close> never runs into a \<open>BUG_ON\<close> and keeps the area well-formed. If it returns a
  buffer, this is a smallest free buffer that is large enough; the aligned data and offsets fit in it
  without any sum having wrapped, every byte of it is in a page that is there and mapped in the
  kernel, and no allocated buffer has changed. If it returns NULL, only page contents differ, and if
  no page operation failed there was a reason: nothing is mapped, the sizes overflow, the space for
  asynchronous transactions is used up, or no free buffer is large enough.
\<close>

theorem binder_alloc_buf_best_fit:
  assumes "buf_inv p"
  shows "\<exists>p' b. binder_alloc_buf env data_size offsets_size is_async p = Some (p', b) \<and> buf_inv p'
    \<and> (if b = 0 then (\<exists>g. p' = p\<lparr>pages := g\<rparr>)
         \<and> (env_good env \<longrightarrow> \<not> bp_vma p \<or> request_size data_size offsets_size < data_size
             \<or> request_size data_size offsets_size < offsets_size
             \<or> is_async \<and> free_async_space p < request_size data_size offsets_size + SIZEOF_BUFFER
             \<or> (\<forall>a. \<not> enough (request_size data_size offsets_size) p a))
       else enough (request_size data_size offsets_size) p b
         \<and> (\<forall>a. enough (request_size data_size offsets_size) p a \<longrightarrow> binder_buffer_size p b \<le> binder_buffer_size p a)
         \<and> taken data_size offsets_size is_async b p p'
         \<and> align4 data_size + align4 offsets_size \<le> unat (binder_buffer_size p' b) \<and> backed p' b)"
proof -
  obtain p' b where r: "binder_alloc_buf env data_size offsets_size is_async p = Some (p', b)" "buf_inv p'"
    "if b = 0 then \<exists>g. p' = p\<lparr>pages := g\<rparr> else enough (request_size data_size offsets_size) p b
       \<and> (\<forall>a. enough (request_size data_size offsets_size) p a \<longrightarrow> binder_buffer_size p b \<le> binder_buffer_size p a)
       \<and> taken data_size offsets_size is_async b p p'"
    "env_good env \<longrightarrow> b = 0 \<longrightarrow> \<not> bp_vma p \<or> request_size data_size offsets_size < data_size
       \<or> request_size data_size offsets_size < offsets_size
       \<or> is_async \<and> free_async_space p < request_size data_size offsets_size + SIZEOF_BUFFER
       \<or> (\<forall>a. \<not> enough (request_size data_size offsets_size) p a)"
    using alloc_buf_ok [OF assms, of env data_size offsets_size is_async] by blast
  show ?thesis
  proof (cases "b = 0")
    case True
    then show ?thesis using r by (intro exI [of _ p'] exI [of _ b]) simp
  next
    case False
    then have t: "taken data_size offsets_size is_async b p p'" using r(3) by simp
    then have b: "b \<in> alloc_set p'" by (simp add: taken_def)
    then have "fits p' b" using r(2) by (simp add: buf_inv_def)
    then have "align4 data_size + align4 offsets_size \<le> unat (binder_buffer_size p' b)"
      using t request_size_exact [of data_size offsets_size] by (simp add: fits_def taken_def word_le_nat_alt)
    then show ?thesis using r(1,2,3) False alloc_backed [OF r(2) b] by (intro exI [of _ p'] exI [of _ b]) simp
  qed
qed

theorem binder_alloc_buf_best_fit_witness:
  "buf_inv demo_area \<and> binder_alloc_buf demo_env 100 8 True demo_area = Some (demo_full, 0xd0000000) \<and> buf_inv demo_full
    \<and> enough (request_size 100 8) demo_area 0xd0000000 \<and> taken 100 8 True 0xd0000000 demo_area demo_full
    \<and> align4 100 + align4 8 \<le> unat (binder_buffer_size demo_full 0xd0000000) \<and> backed demo_full 0xd0000000"
  using binder_alloc_buf_best_fit [OF demo_area(2), of demo_env 100 8 True] demo_alloc demo_area(2) by simp

text \<open>C8. \<open>binder_free_buf\<close> on an allocated buffer that no transaction holds never runs into a
  \<open>BUG_ON\<close>. The area is well-formed again, so the buffer is merged with its free neighbours and only
  the pages that are still needed remain; exactly this buffer has left the allocated ones, and no
  other header has changed.
\<close>

theorem binder_free_buf_safe:
  assumes "buf_inv p" "b \<in> alloc_set p" "b_transaction (bufs p b) = 0"
  shows "\<exists>p'. binder_free_buf env b p = Some p' \<and> buf_inv p' \<and> alloc_set p' = alloc_set p - {b}
    \<and> bufs p' = (bufs p)(b := (bufs p b)\<lparr>b_free := True\<rparr>)"
  using free_buf_ok [OF assms, of env] by blast

theorem binder_free_buf_safe_witness:
  "buf_inv demo_full \<and> (0xd0000000 :: u32) \<in> alloc_set demo_full \<and> b_transaction (bufs demo_full 0xd0000000) = 0
    \<and> (\<exists>p'. binder_free_buf demo_env 0xd0000000 demo_full = Some p' \<and> buf_inv p' \<and> alloc_set p' = {})"
  using binder_free_buf_safe [where p = demo_full and b = "0xd0000000" and env = demo_env] demo_full_inv demo_run(2,3) by auto

text \<open>C10. The address the user gets for an allocated buffer leads back to it: \<open>binder_buffer_lookup\<close> finds
  the buffer after the allocation, and \<open>NULL\<close> once it is freed; the allocated buffers and the space
  for asynchronous transactions are then what they were before.
\<close>

theorem binder_alloc_lookup_free:
  assumes inv: "buf_inv p" and al: "binder_alloc_buf env data_size offsets_size is_async p = Some (p', b)" "b \<noteq> 0"
    and tr: "b_transaction (bufs p b) = 0"
  shows "binder_buffer_lookup (buf_data b + user_buffer_offset p) p' = Some b
    \<and> (\<exists>p''. binder_free_buf env' b p' = Some p'' \<and> binder_buffer_lookup (buf_data b + user_buffer_offset p) p'' = Some 0
         \<and> alloc_set p'' = alloc_set p \<and> free_async_space p'' = free_async_space p)"
proof -
  have p': "buf_inv p'" "enough (request_size data_size offsets_size) p b" "taken data_size offsets_size is_async b p p'"
    using alloc_buf_ok [OF inv, of env data_size offsets_size is_async] al by auto
  then have b: "b \<in> alloc_set p'" "alloc_set p' = insert b (alloc_set p)" "b \<notin> alloc_set p"
    by (auto simp: taken_def enough_def free_set_def alloc_set_def)
  have "b_transaction (bufs p' b) = 0" using p'(3) tr by (simp add: taken_def)
  then obtain p'' where p'': "binder_free_buf env' b p' = Some p''" "buf_inv p''" "alloc_set p'' = alloc_set p' - {b}"
    "bufs p'' = (bufs p')(b := (bufs p' b)\<lparr>b_free := True\<rparr>)" "bp_buffer_size p'' = bp_buffer_size p'"
    "user_buffer_offset p'' = user_buffer_offset p'"
    using free_buf_ok [OF p'(1) b(1), of env'] by blast
  have a: "alloc_set p'' = alloc_set p" using p''(3) b by auto
  have k: "buf_data b + user_buffer_offset p - user_buffer_offset p' - SIZEOF_BUFFER = b"
    using p'(3) by (simp add: taken_def buf_data_def)
  have "(\<Sum>a \<in> alloc_set p. async_cost (bufs p'' a)) = (\<Sum>a \<in> alloc_set p. async_cost (bufs p a))"
    using b(3) p'(3) p''(4) by (intro sum.cong) (auto simp: taken_def)
  then have "unat (free_async_space p'') = unat (free_async_space p)"
    using async_space [OF inv] async_space [OF p''(2)] a p''(5) p'(3) by (simp add: taken_def)
  then have "free_async_space p'' = free_async_space p" by (simp add: word_unat_eq_iff)
  moreover have "binder_buffer_lookup (buf_data b + user_buffer_offset p) p'' = Some 0"
    using lookup_alloc_set [OF p''(2), of "buf_data b + user_buffer_offset p"] p''(6) k a b(3) by (simp add: Let_def)
  moreover have "binder_buffer_lookup (buf_data b + user_buffer_offset p) p' = Some b"
    using lookup_alloc_set [OF p'(1), of "buf_data b + user_buffer_offset p"] k b(1) by (simp add: Let_def)
  ultimately show ?thesis using p''(1) a by blast
qed

theorem binder_alloc_lookup_free_witness:
  "binder_alloc_buf demo_env 100 8 True demo_area = Some (demo_full, 0xd0000000)
    \<and> binder_buffer_lookup 0x40000028 demo_full = Some 0xd0000000
    \<and> (\<exists>p''. binder_free_buf demo_env 0xd0000000 demo_full = Some p'' \<and> binder_buffer_lookup 0x40000028 p'' = Some 0
         \<and> alloc_set p'' = alloc_set demo_area \<and> free_async_space p'' = free_async_space demo_area)"
  using binder_alloc_lookup_free [OF demo_area(2) demo_alloc, of demo_env] demo_alloc unfolding demo_run(4,5) by simp

text \<open>C9. The area is well-formed in every state that a process reaches after a successful
  \<open>binder_mmap\<close> through allocations, releases and writes to the headers of allocated buffers, in any
  order and with any outcomes of the page operations; in each of them the next allocation, and the
  release of any allocated buffer that no transaction holds, return without a \<open>BUG_ON\<close>. The mapping
  is a non-empty one of whole pages, not writable, the kernel area is page-aligned and ends below 4G,
  and with an aliasing cache the mapping has the colour of the area or at least four pages.
\<close>

theorem binder_area_well_formed:
  assumes "unmapped p0" "mmap_request addr aliasing vma"
    and "binder_mmap env addr arr aliasing vma p0 = Some (p, vma', Inr ())" and "area_reach p q"
  shows "buf_inv q \<and> (\<exists>r. binder_alloc_buf env' data_size offsets_size is_async q = Some r)
    \<and> (\<forall>b \<in> alloc_set q. b_transaction (bufs q b) = 0 \<longrightarrow> (\<exists>q'. binder_free_buf env' b q = Some q'))"
proof -
  have "buf_inv p" using mmap_ok [OF assms(1,2), of env arr] assms(3) by auto
  then have q: "buf_inv q" using reach_inv assms(4) by blast
  show ?thesis
    using q alloc_buf_ok [OF q, of env' data_size offsets_size is_async] free_buf_ok [OF q] by blast
qed

theorem binder_area_well_formed_witness:
  "(\<exists>vma'. binder_mmap demo_env 0xd0000000 True False demo_vma demo_proc = Some (demo_area, vma', Inr ()))
    \<and> area_reach demo_area demo_full \<and> buf_inv demo_full
    \<and> (\<exists>r. binder_alloc_buf demo_env 4000 0 False demo_full = Some r)
    \<and> (\<exists>q'. binder_free_buf demo_env 0xd0000000 demo_full = Some q')"
proof -
  obtain vma' where v: "binder_mmap demo_env 0xd0000000 True False demo_vma demo_proc = Some (demo_area, vma', Inr ())"
    using demo_area(1) by blast
  have "area_reach demo_area demo_full" by (rule reach_alloc [OF reach_start demo_alloc])
  then show ?thesis
    using binder_area_well_formed [OF demo_request(1,2) v, of demo_full demo_env 4000 0 False] v demo_run(2,3) by auto
qed

end
