(* ===== verification/Spec2Isabelle.thy ===== *)
theory Spec2Isabelle
  imports Logger Ashmem_Props Earlysuspend Rbtree_Props Userwakelock Binder_Props
begin

text \<open>
  Verification of the Android extension of the PocketBook A10 kernel
  (\<^verbatim>\<open>src/Kernel/android-2.6.35\<close>).
\<close>

end
